(* ===== verification/Prelude.thy ===== *)
theory Prelude
  imports Main "HOL-Library.Word" "HOL-Library.Monad_Syntax"
begin

text \<open>
  Prelude of the mdepx development: the machine-integer types of the C sources, the
  collections of unfolding and frame facts the component theories extend, and the
  generic lemmas on \<^typ>\<open>'a option\<close>, lists and words that more than one component uses.

  Conventions. A C function that returns is a HOL function into \<^typ>\<open>'a option\<close>: \<open>None\<close>
  stands for "does not return", which is what \<^verbatim>\<open>panic()\<close> (it stops every CPU in
  \<^verbatim>\<open>while (1)\<close>), a failed \<^verbatim>\<open>KASSERT\<close> and an endless loop have in common. Functions that
  always return are plain HOL functions.
\<close>

unbundle bit_operations_syntax

type_synonym u8 = "8 word"
type_synonym u16 = "16 word"
type_synonym u32 = "32 word"
type_synonym u64 = "64 word"

text \<open>Definitions of operations, to be unfolded together; frame facts (what an operation
  leaves alone).\<close>

named_theorems kdefs
named_theorems kframe

subsection \<open>Assertions and panics\<close>

text \<open>\<^verbatim>\<open>KASSERT(e, m)\<close> of \<^verbatim>\<open>sys/systm.h\<close>: \<^verbatim>\<open>panic\<close> when the condition fails.\<close>

definition KASSERT :: "bool \<Rightarrow> unit option" where
  "KASSERT e = (if e then Some () else None)"

lemma KASSERT_simps [simp]: "KASSERT True = Some ()" "KASSERT False = None"
  by (simp_all add: KASSERT_def)

lemma KASSERT_bind [simp]: "Option.bind (KASSERT e) f = (if e then f () else None)"
  by (simp add: KASSERT_def)

lemma bind_eq_Some: "Option.bind m f = Some y \<longleftrightarrow> (\<exists>x. m = Some x \<and> f x = Some y)"
  by (cases m) auto

lemma ex3I: "P a b c \<Longrightarrow> \<exists>x y z. P x y z"
  by blast

text \<open>The status codes of \<^verbatim>\<open>sys/errno.h\<close> that the kernel functions return.\<close>

datatype mdx_result = MDX_OK | MDX_ERROR | MDX_EEXIST

text \<open>The value that the sum \<open>x\<close> has as an \<^verbatim>\<open>int\<close> of 32 bits. An overflow, which the C standard leaves
  undefined, wraps around as the add instruction of the machine does.\<close>

definition int_wrap :: "int \<Rightarrow> int" where
  "int_wrap x = (x + 2 ^ 31) mod 2 ^ 32 - 2 ^ 31"

lemma int_wrap_succ: "- (2 ^ 31) \<le> x \<Longrightarrow> x < 2 ^ 31 \<Longrightarrow> int_wrap (x + 1) = (if x = 2 ^ 31 - 1 then - (2 ^ 31) else x + 1)"
  by (simp add: int_wrap_def)

subsection \<open>Words\<close>

lemma unat_add_small: "unat x + unat y < 2 ^ LENGTH('a) \<Longrightarrow> unat (x + y) = unat x + unat y"
  for x y :: "'a::len word"
  by (rule unat_add_lem [THEN iffD1])

lemma unat_diff_le: "y \<le> x \<Longrightarrow> unat (x - y) = unat x - unat y"
  for x y :: "'a::len word"
  by (rule unat_sub)

lemma unat_of_nat_small: "n < 2 ^ LENGTH('a) \<Longrightarrow> unat (word_of_nat n :: 'a::len word) = n"
  by (simp add: unat_of_nat)

lemma unat_ucast_small: "unat x < 2 ^ LENGTH('b) \<Longrightarrow> unat (ucast x :: 'b::len word) = unat x"
  for x :: "'a::len word"
  by (simp add: unsigned_ucast_eq take_bit_nat_eq_self)

lemma unat_mult_small: "unat x * unat y < 2 ^ LENGTH('a) \<Longrightarrow> unat (x * y) = unat x * unat y"
  for x y :: "'a::len word"
  by (rule unat_mult_lem [THEN iffD1])

lemma unat_push_bit: "unat x * 2 ^ n < 2 ^ LENGTH('a) \<Longrightarrow> unat (push_bit n x) = unat x * 2 ^ n"
  for x :: "'a::len word"
  by (subst unsigned_push_bit_eq) (simp add: push_bit_eq_mult take_bit_nat_eq_self)

lemma unat_drop_bit: "unat (drop_bit n x) = unat x div 2 ^ n" for x :: "'a::len word"
  by (subst unsigned_drop_bit_eq) (simp add: drop_bit_eq_div take_bit_nat_eq_self [OF unsigned_less])

lemma unat_less_u32 [simp]: "unat (x :: u32) < 4294967296"
  using unsigned_less [of x, where ?'a = nat] by simp

lemma unat_ucast_u32_u64 [simp]: "unat (ucast (x :: u32) :: u64) = unat x"
  by (rule unat_ucast_small) (rule order.strict_trans [OF unat_less_u32], simp)

lemma word_le_unat: "x \<le> y \<longleftrightarrow> unat x \<le> unat y"
  by (rule word_le_nat_alt)

lemma word_less_unat: "x < y \<longleftrightarrow> unat x < unat y"
  by (rule word_less_nat_alt)

subsection \<open>Lists\<close>

text \<open>The first element, where a C function returns a pointer to it or \<^verbatim>\<open>NULL\<close>.\<close>

primrec hd_opt :: "'a list \<Rightarrow> 'a option" where
  "hd_opt [] = None"
| "hd_opt (x # xs) = Some x"

lemma hd_opt_append: "hd_opt (xs @ ys) = (if xs = [] then hd_opt ys else hd_opt xs)"
  by (cases xs) auto

lemma hd_opt_eq_Some: "hd_opt xs = Some x \<longleftrightarrow> (\<exists>ys. xs = x # ys)"
  by (cases xs) auto

lemma hd_opt_eq_None [simp]: "hd_opt xs = None \<longleftrightarrow> xs = []"
  by (cases xs) auto

lemma takeWhile_eq_prefix:
  assumes "\<And>x. x \<in> set xs \<Longrightarrow> P x" and "\<And>y. hd_opt ys = Some y \<Longrightarrow> \<not> P y"
  shows "takeWhile P (xs @ ys) = xs" and "dropWhile P (xs @ ys) = ys"
proof -
  show "takeWhile P (xs @ ys) = xs"
    using assms by (cases ys) (auto simp: takeWhile_append)
  show "dropWhile P (xs @ ys) = ys"
    using assms by (cases ys) (auto simp: dropWhile_append)
qed

end
