(* ===== verification/Entry_List.thy ===== *)
theory Entry_List
  imports Prelude
begin

text \<open>
  The intrusive circular doubly linked lists of \<^verbatim>\<open>include/sys/list.h\<close>, on which the run
  queue, the callout queue, the semaphore queues, the device list and the MQTT request
  list are built. A heap gives every \<^verbatim>\<open>struct entry\<close> its two pointers; an address type
  is left open, so that each component names its own list heads and nodes. The
  operations are the C functions, pointer write by pointer write.

  \<open>dlist h l xs\<close> says that the heap holds, at head \<open>l\<close>, a well-formed list of the nodes
  \<open>xs\<close>. The lemmas show that each operation implements the operation on HOL lists its
  comment promises and leaves every other list alone; the locale \<open>entry_list\<close> states that
  contract as an interface, proves what clients use once, and is interpreted on the
  pointer operations at the end.
\<close>

section \<open>The heap and the operations of sys/list.h\<close>

record 'p heap =
  nextp :: "'p \<Rightarrow> 'p"
  prevp :: "'p \<Rightarrow> 'p"

definition set_next :: "'p \<Rightarrow> 'p \<Rightarrow> 'p heap \<Rightarrow> 'p heap" where
  "set_next p v h = h\<lparr>nextp := (nextp h)(p := v)\<rparr>"

definition set_prev :: "'p \<Rightarrow> 'p \<Rightarrow> 'p heap \<Rightarrow> 'p heap" where
  "set_prev p v h = h\<lparr>prevp := (prevp h)(p := v)\<rparr>"

definition list_init :: "'p \<Rightarrow> 'p heap \<Rightarrow> 'p heap" where
  "list_init e h = (let h = set_next e e h in set_prev e e h)"

definition list_prepend :: "'p \<Rightarrow> 'p \<Rightarrow> 'p heap \<Rightarrow> 'p heap" where
  "list_prepend l e h =
     (let h = set_next e (nextp h l) h;
          h = set_prev e l h;
          h = set_prev (nextp h e) e h
      in set_next (prevp h e) e h)"

definition list_insert :: "'p \<Rightarrow> 'p \<Rightarrow> 'p heap \<Rightarrow> 'p heap" where
  "list_insert l e h =
     (let h = set_next e l h;
          h = set_prev e (prevp h l) h;
          h = set_prev (nextp h e) e h
      in set_next (prevp h e) e h)"

definition list_append :: "'p \<Rightarrow> 'p \<Rightarrow> 'p heap \<Rightarrow> 'p heap" where
  "list_append l e h =
     (let h = set_next e l h;
          h = set_prev e (prevp h l) h;
          h = set_prev (nextp h e) e h
      in set_next (prevp h e) e h)"

definition list_remove :: "'p \<Rightarrow> 'p heap \<Rightarrow> 'p heap" where
  "list_remove e h =
     (let h = set_next (prevp h e) (nextp h e) h;
          h = set_prev (nextp h e) (prevp h e) h
      in list_init e h)"

definition list_empty :: "'p \<Rightarrow> 'p heap \<Rightarrow> bool" where
  "list_empty l h \<longleftrightarrow> nextp h l = l"

section \<open>Well-formed lists\<close>

text \<open>\<open>chain h p xs q\<close>: the forward and backward links lead from \<open>p\<close> through \<open>xs\<close> to \<open>q\<close>.\<close>

primrec chain :: "'p heap \<Rightarrow> 'p \<Rightarrow> 'p list \<Rightarrow> 'p \<Rightarrow> bool" where
  "chain h p [] q \<longleftrightarrow> nextp h p = q \<and> prevp h q = p"
| "chain h p (x # xs) q \<longleftrightarrow> nextp h p = x \<and> prevp h x = p \<and> chain h x xs q"

definition dlist :: "'p heap \<Rightarrow> 'p \<Rightarrow> 'p list \<Rightarrow> bool" where
  "dlist h l xs \<longleftrightarrow> distinct (l # xs) \<and> chain h l xs l"

lemma chain_append [simp]:
  "chain h p (xs @ y # ys) q \<longleftrightarrow> chain h p xs y \<and> chain h y ys q"
  by (induction xs arbitrary: p) auto

lemma set_next_sel [simp]:
  "nextp (set_next p v h) = (nextp h)(p := v)" "prevp (set_next p v h) = prevp h"
  by (simp_all add: set_next_def)

lemma set_prev_sel [simp]:
  "prevp (set_prev p v h) = (prevp h)(p := v)" "nextp (set_prev p v h) = nextp h"
  by (simp_all add: set_prev_def)

lemma chain_cong:
  assumes "\<And>x. x \<in> insert p (set xs) \<Longrightarrow> nextp h' x = nextp h x"
    and "\<And>x. x \<in> insert q (set xs) \<Longrightarrow> prevp h' x = prevp h x"
  shows "chain h' p xs q \<longleftrightarrow> chain h p xs q"
  using assms by (induction xs arbitrary: p) auto

lemma chain_last_next: "chain h p xs q \<Longrightarrow> nextp h (last (p # xs)) = q"
  by (induction xs arbitrary: p) auto

lemma chain_end_prev: "chain h p xs q \<Longrightarrow> prevp h q = last (p # xs)"
  by (induction xs arbitrary: p) auto

lemma chain_prefix: "chain h p (xs @ [y]) q \<longleftrightarrow> chain h p xs y \<and> nextp h y = q \<and> prevp h q = y"
  by simp

lemma dlist_Nil [simp]: "dlist h l [] \<longleftrightarrow> nextp h l = l \<and> prevp h l = l"
  by (auto simp: dlist_def)

lemma dlist_distinct: "dlist h l xs \<Longrightarrow> distinct xs \<and> l \<notin> set xs"
  by (simp add: dlist_def)

lemma dlist_frame:
  assumes "dlist h l xs"
    and "\<And>x. x \<in> insert l (set xs) \<Longrightarrow> nextp h' x = nextp h x \<and> prevp h' x = prevp h x"
  shows "dlist h' l xs"
  using assms chain_cong [of l xs h' h l] by (simp add: dlist_def)

text \<open>The links of a well-formed list, split at a node.\<close>

lemma dlist_split:
  "dlist h l (xs @ y # ys) \<longleftrightarrow> distinct (l # xs @ y # ys) \<and> chain h l xs y \<and> chain h y ys l"
  by (simp add: dlist_def)

lemma dlist_next:
  assumes "dlist h l (xs @ y # ys)"
  shows "nextp h y = hd (ys @ [l])"
  using assms by (cases ys) (simp_all add: dlist_def)

lemma dlist_prev:
  assumes "dlist h l (xs @ y # ys)"
  shows "prevp h y = last (l # xs)"
  using assms chain_end_prev [of h l xs y] by (simp add: dlist_split)

lemma dlist_hd: "dlist h l xs \<Longrightarrow> nextp h l = hd (xs @ [l])"
  by (cases xs) (simp_all add: dlist_def)

lemma dlist_last: "dlist h l xs \<Longrightarrow> prevp h l = last (l # xs)"
  using chain_end_prev [of h l xs l] by (simp add: dlist_def)

lemma chain_unique:
  "chain h p xs l \<Longrightarrow> chain h p ys l \<Longrightarrow> l \<notin> set xs \<Longrightarrow> l \<notin> set ys \<Longrightarrow> xs = ys"
proof (induction xs arbitrary: p ys)
  case Nil
  then show ?case by (cases ys) auto
next
  case (Cons x xs)
  then show ?case by (cases ys) auto
qed

lemma dlist_unique: "dlist h l xs \<Longrightarrow> dlist h l ys \<Longrightarrow> xs = ys"
  by (auto simp: dlist_def intro: chain_unique)


section \<open>What the operations do to well-formed lists\<close>

text \<open>The pointers after each operation, as function updates.\<close>

lemma list_init_sel [simp]:
  "nextp (list_init e h) = (nextp h)(e := e)"
  "prevp (list_init e h) = (prevp h)(e := e)"
  by (simp_all add: list_init_def)

lemma list_insert_sel:
  assumes "e \<noteq> l"
  shows "nextp (list_insert l e h) = (nextp h)(e := l, prevp h l := e)"
    and "prevp (list_insert l e h) = (prevp h)(e := prevp h l, l := e)"
  using assms by (simp_all add: list_insert_def Let_def)

lemma list_append_eq_insert: "list_append = list_insert"
  by (intro ext) (simp add: list_append_def list_insert_def)

lemma list_prepend_sel:
  assumes "e \<noteq> l"
  shows "nextp (list_prepend l e h) = (nextp h)(e := nextp h l, l := e)"
    and "prevp (list_prepend l e h) = (prevp h)(e := l, nextp h l := e)"
  using assms by (auto simp: list_prepend_def Let_def)

lemma list_remove_sel:
  assumes "prevp h e \<noteq> e"
  shows "nextp (list_remove e h) = (nextp h)(prevp h e := nextp h e, e := e)"
    and "prevp (list_remove e h) = (prevp h)(nextp h e := prevp h e, e := e)"
  using assms by (auto simp: list_remove_def Let_def)

lemma chain_relink:
  assumes "chain h p xs q" and "distinct (p # xs)"
    and "\<And>x. x \<in> set (butlast (p # xs)) \<Longrightarrow> nextp h' x = nextp h x"
    and "\<And>x. x \<in> set xs \<Longrightarrow> prevp h' x = prevp h x"
    and "nextp h' (last (p # xs)) = e" and "prevp h' e = last (p # xs)"
  shows "chain h' p xs e"
  using assms by (induction xs arbitrary: p) auto

lemma in_butlast_last_neq: "distinct xs \<Longrightarrow> x \<in> set (butlast xs) \<Longrightarrow> x \<noteq> last xs"
  by (induction xs) (auto split: if_splits)

lemma dlist_list_init: "dlist (list_init l h) l []"
  by simp

lemma dlist_insert:
  assumes dl: "dlist h l (xs @ y # ys)" and e: "e \<notin> insert l (set (xs @ y # ys))"
  shows "dlist (list_insert y e h) l (xs @ e # y # ys)"
proof -
  let ?h = "list_insert y e h"
  let ?z = "last (l # xs)"
  have ey: "e \<noteq> y" and pv: "prevp h y = ?z"
    using e dlist_prev [OF dl] by auto
  note sel = list_insert_sel [OF ey, of h, unfolded pv]
  from dl have ds: "distinct (l # xs @ y # ys)" and c1: "chain h l xs y" and c2: "chain h y ys l"
    by (simp_all add: dlist_split)
  have z: "?z \<in> insert l (set xs)" by (cases xs) auto
  have "chain ?h l xs e"
  proof (rule chain_relink [OF c1])
    show "distinct (l # xs)" using ds by auto
    show "nextp ?h x = nextp h x" if "x \<in> set (butlast (l # xs))" for x
    proof -
      have "x \<in> insert l (set xs)" using in_set_butlastD [OF that] by simp
      then have "x \<noteq> e" using e by auto
      moreover have "x \<noteq> ?z" using in_butlast_last_neq [OF _ that] ds by simp
      ultimately show ?thesis by (simp only: sel) simp
    qed
    show "prevp ?h x = prevp h x" if "x \<in> set xs" for x
    proof -
      have "x \<noteq> e" "x \<noteq> y" using that e ds by auto
      then show ?thesis by (simp only: sel) simp
    qed
    show "nextp ?h ?z = e" by (simp only: sel) simp
    show "prevp ?h e = ?z" using ey by (simp only: sel) simp
  qed
  moreover have "nextp ?h e = y" "prevp ?h y = e"
    using z e by (simp only: sel, auto)+
  moreover have "chain ?h y ys l"
  proof (rule chain_cong [of y ys ?h h l, THEN iffD2, OF _ _ c2])
    show "nextp ?h x = nextp h x" if "x \<in> insert y (set ys)" for x
    proof -
      have "x \<noteq> e" "x \<noteq> ?z" using that e ds z by auto
      then show ?thesis by (simp only: sel) simp
    qed
    show "prevp ?h x = prevp h x" if "x \<in> insert l (set ys)" for x
    proof -
      have "x \<noteq> e" "x \<noteq> y" using that e ds by auto
      then show ?thesis by (simp only: sel) simp
    qed
  qed
  ultimately show ?thesis using ds e by (auto simp: dlist_split)
qed

lemma dlist_append:
  assumes dl: "dlist h l xs" and e: "e \<notin> insert l (set xs)"
  shows "dlist (list_append l e h) l (xs @ [e])"
proof -
  let ?h = "list_append l e h"
  let ?z = "last (l # xs)"
  have el: "e \<noteq> l" and pv: "prevp h l = ?z"
    using e dlist_last [OF dl] by auto
  note sel = list_insert_sel [OF el, of h, unfolded pv, folded list_append_eq_insert]
  from dl have ds: "distinct (l # xs)" and c: "chain h l xs l"
    by (simp_all add: dlist_def)
  have z: "?z \<in> insert l (set xs)" by (cases xs) auto
  have "chain ?h l xs e"
  proof (rule chain_relink [OF c ds])
    show "nextp ?h x = nextp h x" if "x \<in> set (butlast (l # xs))" for x
    proof -
      have "x \<in> insert l (set xs)" using in_set_butlastD [OF that] by simp
      then have "x \<noteq> e" using e by auto
      moreover have "x \<noteq> ?z" using in_butlast_last_neq [OF ds that] .
      ultimately show ?thesis by (simp only: sel) simp
    qed
    show "prevp ?h x = prevp h x" if "x \<in> set xs" for x
    proof -
      have "x \<noteq> e" "x \<noteq> l" using that e ds by auto
      then show ?thesis by (simp only: sel) simp
    qed
    show "nextp ?h ?z = e" by (simp only: sel) simp
    show "prevp ?h e = ?z" using el by (simp only: sel) simp
  qed
  moreover have "nextp ?h e = l" "prevp ?h l = e"
    using z e by (simp only: sel, auto)+
  ultimately show ?thesis using ds e by (auto simp: dlist_def)
qed

lemma dlist_prepend:
  assumes dl: "dlist h l xs" and e: "e \<notin> insert l (set xs)"
  shows "dlist (list_prepend l e h) l (e # xs)"
proof -
  have el: "e \<noteq> l" using e by simp
  note sel = list_prepend_sel [OF el, of h]
  show ?thesis
  proof (cases xs)
    case Nil
    with dl el show ?thesis by (simp add: dlist_def sel)
  next
    case (Cons y ys)
    with dl have nx: "nextp h l = y" by (simp add: dlist_def)
    have "chain (list_prepend l e h) y ys l \<longleftrightarrow> chain h y ys l"
      using dl e Cons by (intro chain_cong) (auto simp: sel dlist_def)
    with dl e Cons el nx show ?thesis by (auto simp: dlist_def sel)
  qed
qed

lemma dlist_remove:
  assumes dl: "dlist h l (xs @ e # ys)"
  shows "dlist (list_remove e h) l (xs @ ys)"
proof -
  let ?h = "list_remove e h"
  let ?z = "last (l # xs)"
  let ?n = "hd (ys @ [l])"
  have pv: "prevp h e = ?z" and nx: "nextp h e = ?n"
    using dlist_prev [OF dl] dlist_next [OF dl] by auto
  from dl have ds: "distinct (l # xs @ e # ys)" and c1: "chain h l xs e" and c2: "chain h e ys l"
    by (simp_all add: dlist_split)
  have z: "?z \<in> insert l (set xs)" by (cases xs) auto
  then have ze: "?z \<noteq> e" using ds by auto
  note sel = list_remove_sel [of h e, unfolded pv nx, OF ze]
  have n: "?n \<in> insert l (set ys)" by (cases ys) auto
  then have ne: "?n \<noteq> e" using ds by auto
  have link: "chain ?h l xs ?n"
  proof (rule chain_relink [OF c1])
    show "distinct (l # xs)" using ds by auto
    show "nextp ?h x = nextp h x" if "x \<in> set (butlast (l # xs))" for x
    proof -
      have "x \<in> insert l (set xs)" using in_set_butlastD [OF that] by simp
      then have "x \<noteq> e" using ds by auto
      moreover have "x \<noteq> ?z" using in_butlast_last_neq [OF _ that] ds by simp
      ultimately show ?thesis by (simp only: sel) simp
    qed
    show "prevp ?h x = prevp h x" if "x \<in> set xs" for x
    proof -
      have "x \<noteq> e" "x \<noteq> ?n" using that ds n by auto
      then show ?thesis by (simp only: sel) simp
    qed
    show "nextp ?h ?z = ?n" using ze by (simp only: sel) simp
    show "prevp ?h ?n = ?z" using ne by (simp only: sel) simp
  qed
  show ?thesis
  proof (cases ys)
    case Nil
    with link ds show ?thesis by (simp add: dlist_def)
  next
    case (Cons y zs)
    have "chain ?h y zs l \<longleftrightarrow> chain h y zs l"
    proof (rule chain_cong)
      show "nextp ?h x = nextp h x" if "x \<in> insert y (set zs)" for x
      proof -
        have "x \<noteq> e" "x \<noteq> ?z" using that ds z Cons by auto
        then show ?thesis by (simp only: sel) simp
      qed
      show "prevp ?h x = prevp h x" if "x \<in> insert l (set zs)" for x
      proof -
        have "x \<noteq> e" "x \<noteq> ?n" using that ds Cons by auto
        then show ?thesis by (simp only: sel) simp
      qed
    qed
    with link ds c2 Cons show ?thesis by (simp add: dlist_split)
  qed
qed

text \<open>A node taken off its list links to itself, and taking it off again changes nothing.\<close>

lemma list_remove_self: "nextp (list_remove e h) e = e" "prevp (list_remove e h) e = e"
  by (simp_all add: list_remove_def Let_def)

lemma list_remove_detached:
  assumes "nextp h e = e" and "prevp h e = e"
  shows "list_remove e h = h"
  using assms by (simp add: list_remove_def list_init_def Let_def set_next_def set_prev_def fun_upd_idem)

lemma dlist_list_empty: "dlist h l xs \<Longrightarrow> list_empty l h \<longleftrightarrow> xs = []"
  by (cases xs) (auto simp: list_empty_def dlist_def)

text \<open>Every other list keeps its nodes.\<close>

lemma dlist_insert_other:
  assumes "dlist h l (xs @ y # ys)" and "dlist h k zs"
    and "insert k (set zs) \<inter> insert e (insert l (set (xs @ y # ys))) = {}"
  shows "dlist (list_insert y e h) k zs"
proof (cases "e = y")
  case True
  then have "nextp (list_insert y e h) x = nextp h x \<and> prevp (list_insert y e h) x = prevp h x"
    if "x \<noteq> y" for x using that by (auto simp: list_insert_def Let_def)
  moreover have "x \<noteq> y" if "x \<in> insert k (set zs)" for x using that assms(3) by auto
  ultimately show ?thesis using dlist_frame [OF assms(2)] by blast
next
  case False
  have "prevp h y \<in> insert l (set xs)"
    using dlist_prev [OF assms(1)] by (cases xs) auto
  then show ?thesis
    using assms(3) by (intro dlist_frame [OF assms(2)]) (auto simp: list_insert_sel [OF False])
qed

lemma dlist_append_other:
  assumes "dlist h l xs" and "dlist h k zs" and "e \<noteq> l"
    and "insert k (set zs) \<inter> insert e (insert l (set xs)) = {}"
  shows "dlist (list_append l e h) k zs"
proof -
  have "prevp h l \<in> insert l (set xs)"
    using dlist_last [OF assms(1)] by (cases xs) auto
  then show ?thesis
    using assms(4) unfolding list_append_eq_insert
    by (intro dlist_frame [OF assms(2)]) (auto simp: list_insert_sel [OF assms(3)])
qed

lemma dlist_prepend_other:
  assumes "dlist h l xs" and "dlist h k zs" and "e \<noteq> l"
    and "insert k (set zs) \<inter> insert e (insert l (set xs)) = {}"
  shows "dlist (list_prepend l e h) k zs"
proof -
  have "nextp h l \<in> insert l (set xs)"
    using dlist_hd [OF assms(1)] by (cases xs) auto
  then show ?thesis
    using assms(4) by (intro dlist_frame [OF assms(2)]) (auto simp: list_prepend_sel [OF assms(3)])
qed

lemma dlist_remove_other:
  assumes dl: "dlist h l (xs @ e # ys)" and "dlist h k zs"
    and "insert k (set zs) \<inter> insert l (set (xs @ e # ys)) = {}"
  shows "dlist (list_remove e h) k zs"
proof -
  have pv: "prevp h e \<in> insert l (set xs)" and nx: "nextp h e \<in> insert l (set ys)"
    using dlist_prev [OF dl] dlist_next [OF dl] by (cases xs; cases ys; auto)+
  then have "prevp h e \<noteq> e" using dlist_distinct [OF dl] by auto
  then show ?thesis
    using assms(3) pv nx by (intro dlist_frame [OF assms(2)]) (auto simp: list_remove_sel)
qed

lemma dlist_init_other:
  assumes "dlist h k zs" and "e \<notin> insert k (set zs)"
  shows "dlist (list_init e h) k zs"
  using assms(2) by (intro dlist_frame [OF assms(1)]) auto

section \<open>The interface the clients rely on\<close>

text \<open>
  The contract of \<^verbatim>\<open>sys/list.h\<close>: \<open>rep h l xs\<close> abstracts the list at head \<open>l\<close> to the nodes
  \<open>xs\<close>. The clients' facts are proved from the laws: popping the head, moving a node from
  one queue to another (a waiter to the run queue) and rotating a queue.
\<close>

locale entry_list =
  fixes rep :: "'h \<Rightarrow> 'p \<Rightarrow> 'p list \<Rightarrow> bool"
    and init :: "'p \<Rightarrow> 'h \<Rightarrow> 'h"
    and append :: "'p \<Rightarrow> 'p \<Rightarrow> 'h \<Rightarrow> 'h"
    and insert_before :: "'p \<Rightarrow> 'p \<Rightarrow> 'h \<Rightarrow> 'h"
    and remove :: "'p \<Rightarrow> 'h \<Rightarrow> 'h"
    and is_empty :: "'p \<Rightarrow> 'h \<Rightarrow> bool"
    and succ :: "'h \<Rightarrow> 'p \<Rightarrow> 'p"
  assumes rep_distinct: "rep h l xs \<Longrightarrow> distinct (l # xs)"
    and rep_unique: "rep h l xs \<Longrightarrow> rep h l ys \<Longrightarrow> xs = ys"
    and rep_init: "rep (init l h) l []"
    and rep_append: "rep h l xs \<Longrightarrow> e \<notin> set (l # xs) \<Longrightarrow> rep (append l e h) l (xs @ [e])"
    and rep_insert: "rep h l (xs @ y # ys) \<Longrightarrow> e \<notin> set (l # xs @ y # ys) \<Longrightarrow>
      rep (insert_before y e h) l (xs @ e # y # ys)"
    and rep_remove: "rep h l (xs @ e # ys) \<Longrightarrow> rep (remove e h) l (xs @ ys)"
    and rep_empty: "rep h l xs \<Longrightarrow> is_empty l h \<longleftrightarrow> xs = []"
    and rep_head: "rep h l xs \<Longrightarrow> succ h l = hd (xs @ [l])"
    and rep_succ: "rep h l (xs @ y # ys) \<Longrightarrow> succ h y = hd (ys @ [l])"
    and init_other: "rep h k zs \<Longrightarrow> e \<notin> set (k # zs) \<Longrightarrow> rep (init e h) k zs"
    and append_other: "rep h l xs \<Longrightarrow> rep h k zs \<Longrightarrow> e \<notin> set (l # xs) \<Longrightarrow>
      set (k # zs) \<inter> set (e # l # xs) = {} \<Longrightarrow> rep (append l e h) k zs"
    and insert_other: "rep h l (xs @ y # ys) \<Longrightarrow> rep h k zs \<Longrightarrow>
      set (k # zs) \<inter> set (e # l # xs @ y # ys) = {} \<Longrightarrow> rep (insert_before y e h) k zs"
    and remove_other: "rep h l (xs @ e # ys) \<Longrightarrow> rep h k zs \<Longrightarrow>
      set (k # zs) \<inter> set (l # xs @ e # ys) = {} \<Longrightarrow> rep (remove e h) k zs"
begin

lemma pop:
  assumes "rep h l (x # xs)"
  shows "succ h l = x" and "rep (remove x h) l xs"
  using rep_head [OF assms] rep_remove [of h l "[]" x xs] assms by simp_all

lemma append_all:
  assumes "rep h l xs" and "distinct es" and "set es \<inter> set (l # xs) = {}"
  shows "rep (fold (append l) es h) l (xs @ es)"
  using assms
proof (induction es arbitrary: h xs)
  case Nil
  then show ?case by simp
next
  case (Cons e es)
  then have "rep (append l e h) l (xs @ [e])" by (intro rep_append) auto
  with Cons show ?case using Cons.IH [of "append l e h" "xs @ [e]"] by auto
qed

lemma remove_prefix:
  assumes "rep h l (xs @ ys)"
  shows "rep (fold remove xs h) l ys"
  using assms by (induction xs arbitrary: h) (auto dest: pop(2))

lemma remove_prefix_other:
  assumes "rep h l (xs @ ys)" and "rep h k zs" and "set (k # zs) \<inter> set (l # xs @ ys) = {}"
  shows "rep (fold remove xs h) k zs"
  using assms
proof (induction xs arbitrary: h)
  case (Cons x xs)
  have "rep (remove x h) k zs"
    using remove_other [of h l "[]" x "xs @ ys" k zs] Cons.prems by auto
  then show ?case using Cons.IH [of "remove x h"] Cons.prems pop(2) [of h l x "xs @ ys"] by auto
qed simp

lemma rotate:
  assumes "rep h l (x # xs)"
  shows "rep (append l x (remove x h)) l (xs @ [x])"
  using pop(2) [OF assms] rep_distinct [OF assms] by (intro rep_append) auto

lemma move:
  assumes l: "rep h l (xs @ e # ys)" and k: "rep h k zs"
    and disj: "set (k # zs) \<inter> set (l # xs @ e # ys) = {}"
  shows "rep (append k e (remove e h)) l (xs @ ys)"
    and "rep (append k e (remove e h)) k (zs @ [e])"
proof -
  have l': "rep (remove e h) l (xs @ ys)" by (rule rep_remove [OF l])
  have k': "rep (remove e h) k zs" by (rule remove_other [OF l k disj])
  show "rep (append k e (remove e h)) k (zs @ [e])"
    using disj by (intro rep_append [OF k']) auto
  show "rep (append k e (remove e h)) l (xs @ ys)"
    using disj rep_distinct [OF l] by (intro append_other [OF k' l']) auto
qed

end

interpretation kl: entry_list dlist list_init list_append list_insert list_remove list_empty nextp
proof
  show "dlist h l xs \<Longrightarrow> distinct (l # xs)" for h :: "'p heap" and l xs
    by (simp add: dlist_def)
  show "dlist h l xs \<Longrightarrow> dlist h l ys \<Longrightarrow> xs = ys" for h :: "'p heap" and l xs ys
    by (rule dlist_unique)
  show "dlist (list_init l h) l []" for h :: "'p heap" and l
    by (rule dlist_list_init)
  show "dlist h l xs \<Longrightarrow> e \<notin> set (l # xs) \<Longrightarrow> dlist (list_append l e h) l (xs @ [e])"
    for h :: "'p heap" and l xs e by (rule dlist_append) simp_all
  show "dlist h l (xs @ y # ys) \<Longrightarrow> e \<notin> set (l # xs @ y # ys) \<Longrightarrow>
      dlist (list_insert y e h) l (xs @ e # y # ys)"
    for h :: "'p heap" and l xs y ys e by (rule dlist_insert) simp_all
  show "dlist h l (xs @ e # ys) \<Longrightarrow> dlist (list_remove e h) l (xs @ ys)"
    for h :: "'p heap" and l xs e ys by (rule dlist_remove)
  show "dlist h l xs \<Longrightarrow> list_empty l h \<longleftrightarrow> xs = []" for h :: "'p heap" and l xs
    by (rule dlist_list_empty)
  show "dlist h l xs \<Longrightarrow> nextp h l = hd (xs @ [l])" for h :: "'p heap" and l xs
    by (rule dlist_hd)
  show "dlist h l (xs @ y # ys) \<Longrightarrow> nextp h y = hd (ys @ [l])" for h :: "'p heap" and l xs y ys
    by (rule dlist_next)
  show "dlist h k zs \<Longrightarrow> e \<notin> set (k # zs) \<Longrightarrow> dlist (list_init e h) k zs"
    for h :: "'p heap" and k zs e by (rule dlist_init_other) simp_all
  show "dlist h l xs \<Longrightarrow> dlist h k zs \<Longrightarrow> e \<notin> set (l # xs) \<Longrightarrow>
      set (k # zs) \<inter> set (e # l # xs) = {} \<Longrightarrow> dlist (list_append l e h) k zs"
    for h :: "'p heap" and l xs k zs e by (rule dlist_append_other) auto
  show "dlist h l (xs @ y # ys) \<Longrightarrow> dlist h k zs \<Longrightarrow>
      set (k # zs) \<inter> set (e # l # xs @ y # ys) = {} \<Longrightarrow> dlist (list_insert y e h) k zs"
    for h :: "'p heap" and l xs y ys k zs e by (rule dlist_insert_other) auto
  show "dlist h l (xs @ e # ys) \<Longrightarrow> dlist h k zs \<Longrightarrow>
      set (k # zs) \<inter> set (l # xs @ e # ys) = {} \<Longrightarrow> dlist (list_remove e h) k zs"
    for h :: "'p heap" and l xs e ys k zs by (rule dlist_remove_other) auto
qed

end
