(* ===== verification/Freelist.thy ===== *)
theory Freelist
  imports Prelude
begin

text \<open>
  The allocator of \<^verbatim>\<open>kernel/malloc/mdx_freelist.c\<close>, for a target with 32-bit pointers and a
  32-bit \<^verbatim>\<open>size_t\<close>. Every block starts with a header \<^verbatim>\<open>struct node_s\<close> of 16 bytes: its size, the
  size of the block before it together with the flag that says whether it is allocated, and
  the links of the free list. The 32 list heads of a zone are such headers too, with size 0,
  and are linked with the free blocks into one chain.

  Memory is a record of the header fields by address and of the bytes of the data. Addresses
  are natural numbers; address 0 is \<^verbatim>\<open>NULL\<close> where the code tests for it and otherwise memory like
  any other.
\<close>

record fl_mem =
  nx :: "nat \<Rightarrow> nat"
  pv :: "nat \<Rightarrow> nat"
  sz :: "nat \<Rightarrow> u32"
  fg :: "nat \<Rightarrow> u32"
  dat :: "nat \<Rightarrow> u8"

definition NODE_S :: nat where
  "NODE_S = 16"

definition NODE_W :: u32 where
  "NODE_W = 16"

definition FLAG_ALLOCATED :: u32 where
  "FLAG_ALLOCATED = push_bit 31 1"

definition set_nx :: "nat \<Rightarrow> nat \<Rightarrow> fl_mem \<Rightarrow> fl_mem" where
  "set_nx a v m = m\<lparr>nx := (nx m)(a := v)\<rparr>"

definition set_pv :: "nat \<Rightarrow> nat \<Rightarrow> fl_mem \<Rightarrow> fl_mem" where
  "set_pv a v m = m\<lparr>pv := (pv m)(a := v)\<rparr>"

definition set_sz :: "nat \<Rightarrow> u32 \<Rightarrow> fl_mem \<Rightarrow> fl_mem" where
  "set_sz a v m = m\<lparr>sz := (sz m)(a := v)\<rparr>"

definition set_fg :: "nat \<Rightarrow> u32 \<Rightarrow> fl_mem \<Rightarrow> fl_mem" where
  "set_fg a v m = m\<lparr>fg := (fg m)(a := v)\<rparr>"

text \<open>The list head \<open>i\<close> of the zone at address \<open>z\<close>.\<close>

definition nodelist :: "nat \<Rightarrow> nat \<Rightarrow> nat" where
  "nodelist z i = z + NODE_S * i"

section \<open>Size classes\<close>

function size2i_loop :: "u32 \<Rightarrow> nat \<Rightarrow> nat" where
  "size2i_loop n i = (if n > 1 then size2i_loop (drop_bit 1 n) (i + 1) else i)"
  by auto
termination
proof (relation "measure (\<lambda>(n, i). unat n)")
  fix n :: u32 and i :: nat assume "n > 1"
  then have "1 < unat n" by (simp add: word_less_unat)
  then show "((drop_bit 1 n, i + 1), (n, i)) \<in> measure (\<lambda>(n, i). unat n)"
    by (simp add: unat_drop_bit del: drop_bit_eq_div)
qed simp

definition size2i :: "u32 \<Rightarrow> nat" where
  "size2i n = size2i_loop (drop_bit 4 n) 0"

lemma unat_and_15: "unat (n AND 0xf) = unat n mod 16" for n :: u32
proof -
  have "n AND 0xf = take_bit 4 n" by (simp add: take_bit_eq_mask mask_eq_exp_minus_1)
  then show ?thesis by (simp add: take_bit_eq_mod unat_mod)
qed

function align_loop :: "u32 \<Rightarrow> u32" where
  "align_loop n = (if n AND 0xf \<noteq> 0 then align_loop (n + 1) else n)"
  by auto
termination
proof (relation "measure (\<lambda>n. (16 - unat n mod 16) mod 16)")
  fix n :: u32
  assume "n AND 0xf \<noteq> 0"
  then have "unat n mod 16 \<noteq> 0" using unat_and_15 [of n] by (metis unat_eq_zero)
  moreover have "unat (n + 1) mod 16 = (unat n + 1) mod 16"
    by (simp add: unat_word_ariths mod_mod_cancel)
  ultimately show "(n + 1, n) \<in> measure (\<lambda>n. (16 - unat n mod 16) mod 16)"
    by (auto simp: mod_Suc)
qed simp

section \<open>The free list\<close>

text \<open>The search for the place of a node of size \<open>n\<close>: it stops at the end of the chain, at a list
  head (size 0) and at a node that is not smaller.\<close>

partial_function (option) add_node_loop :: "u32 \<Rightarrow> fl_mem \<Rightarrow> nat \<Rightarrow> nat \<Rightarrow> (nat \<times> nat) option" where
  "add_node_loop n m prev next =
     (if next \<noteq> 0 \<and> sz m next \<noteq> 0 \<and> sz m next < n then add_node_loop n m next (nx m next)
      else Some (prev, next))"

definition mdx_fl_add_node :: "nat \<Rightarrow> nat \<Rightarrow> fl_mem \<Rightarrow> fl_mem option" where
  "mdx_fl_add_node z node m =
     do { let i = size2i (sz m node);
          (prev, next) \<leftarrow> add_node_loop (sz m node) m (nodelist z i) (nx m (nodelist z i));
          let m = set_nx prev node m;
          let m = set_pv node prev m;
          let m = set_nx node next m;
          Some (if next \<noteq> 0 then set_pv next node m else m) }"

text \<open>"Remove node" of the source, in five places.\<close>

definition fl_unlink :: "nat \<Rightarrow> fl_mem \<Rightarrow> fl_mem" where
  "fl_unlink node m =
     (let m = set_nx (pv m node) (nx m node) m
      in if nx m node \<noteq> 0 then set_pv (nx m node) (pv m node) m else m)"

text \<open>\<^verbatim>\<open>n->flags &= FLAG_ALLOCATED; n->flags |= s;\<close> record the size of the block before \<open>n\<close>.\<close>

definition set_prev_size :: "nat \<Rightarrow> u32 \<Rightarrow> fl_mem \<Rightarrow> fl_mem" where
  "set_prev_size a s m =
     (let m = set_fg a (fg m a AND FLAG_ALLOCATED) m in set_fg a (fg m a OR s) m)"

text \<open>The size of the region is an \<^verbatim>\<open>int\<close> that the code adds to pointers and stores in 32 bits.\<close>

definition mdx_fl_add_region :: "nat \<Rightarrow> nat \<Rightarrow> u32 \<Rightarrow> fl_mem \<Rightarrow> fl_mem option" where
  "mdx_fl_add_region z base n m =
     do { let m = set_sz base NODE_W m;
          let m = set_fg base FLAG_ALLOCATED m;
          let node = base + NODE_S;
          let m = set_sz node (n - 2 * NODE_W) m;
          let m = set_fg node NODE_W m;
          m \<leftarrow> mdx_fl_add_node z node m;
          let node = base + unat n - NODE_S;
          let m = set_sz node NODE_W m;
          Some (set_fg node ((n - 2 * NODE_W) OR FLAG_ALLOCATED) m) }"

text \<open>\<^verbatim>\<open>memset\<close> to zero of the 32 heads, then the links between them.\<close>

primrec fl_zero_heads :: "nat \<Rightarrow> nat \<Rightarrow> fl_mem \<Rightarrow> fl_mem" where
  "fl_zero_heads z 0 m = m"
| "fl_zero_heads z (Suc i) m =
     (let m = fl_zero_heads z i m; a = nodelist z i
      in set_fg a 0 (set_sz a 0 (set_pv a 0 (set_nx a 0 m))))"

primrec fl_link_heads :: "nat \<Rightarrow> nat \<Rightarrow> fl_mem \<Rightarrow> fl_mem" where
  "fl_link_heads z 0 m = m"
| "fl_link_heads z (Suc i) m =
     (let m = fl_link_heads z i m;
          m = set_nx (nodelist z i) (nodelist z (i + 1)) m
      in set_pv (nodelist z (i + 1)) (nodelist z i) m)"

definition mdx_fl_init :: "nat \<Rightarrow> fl_mem \<Rightarrow> fl_mem" where
  "mdx_fl_init z m = fl_link_heads z 31 (fl_zero_heads z 32 m)"

partial_function (option) fl_count_loop :: "fl_mem \<Rightarrow> nat \<Rightarrow> u32 \<Rightarrow> u32 option" where
  "fl_count_loop m node acc =
     (if node \<noteq> 0 then fl_count_loop m (nx m node) (acc + sz m node) else Some acc)"

definition mdx_fl_count :: "nat \<Rightarrow> fl_mem \<Rightarrow> u32 option" where
  "mdx_fl_count z m = fl_count_loop m (nodelist z 0) 0"

section \<open>Allocation\<close>

partial_function (option) fl_search :: "u32 \<Rightarrow> fl_mem \<Rightarrow> nat \<Rightarrow> nat option" where
  "fl_search n m node =
     (if node \<noteq> 0 \<and> sz m node < n then fl_search n m (nx m node) else Some node)"

text \<open>"Split the node if space allows".\<close>

definition fl_split :: "nat \<Rightarrow> nat \<Rightarrow> u32 \<Rightarrow> fl_mem \<Rightarrow> fl_mem option" where
  "fl_split z node n m =
     (let avail = sz m node - n
      in if avail > NODE_W then
           do { let next = node + unat (sz m node);
                let m = set_prev_size next avail m;
                let m = set_sz node n m;
                let new = node + unat n;
                let m = set_sz new avail m;
                let m = set_fg new n m;
                mdx_fl_add_node z new m }
         else Some m)"

definition mdx_fl_malloc :: "nat \<Rightarrow> u32 \<Rightarrow> fl_mem \<Rightarrow> (nat \<times> fl_mem) option" where
  "mdx_fl_malloc z n m =
     (if n = 0 then Some (0, m)
      else do {
        let n = align_loop (n + NODE_W);
        let i = size2i n;
        node \<leftarrow> fl_search n m (nx m (nodelist z i));
        if node \<noteq> 0 then do {
          m \<leftarrow> fl_split z node n (fl_unlink node m);
          let m = set_fg node (fg m node OR FLAG_ALLOCATED) m;
          let m = set_nx node 0 m;
          let m = set_pv node 0 m;
          Some (node + NODE_S, m) }
        else Some (0, m) })"

section \<open>Release\<close>

text \<open>The two merges of the source: with the block after \<open>node\<close>, which gives the block that then follows,
  and with the block before it, which gives the block to be added to the free list.\<close>

definition fl_merge_next :: "nat \<Rightarrow> fl_mem \<Rightarrow> nat \<times> fl_mem" where
  "fl_merge_next node m =
     (let next = node + unat (sz m node)
      in if fg m next AND FLAG_ALLOCATED = 0 then
           (let subseq = next + unat (sz m next);
                m = fl_unlink next m;
                m = set_sz node (sz m node + sz m next) m;
                m = set_prev_size subseq (sz m node) m
            in (subseq, m))
         else (next, m))"

definition fl_merge_prev :: "nat \<Rightarrow> nat \<Rightarrow> fl_mem \<Rightarrow> nat \<times> fl_mem" where
  "fl_merge_prev node next m =
     (let prev = node - unat (fg m node)
      in if fg m prev AND FLAG_ALLOCATED = 0 then
           (let m = fl_unlink prev m;
                m = set_sz prev (sz m prev + sz m node) m;
                m = set_prev_size next (sz m prev) m
            in (prev, m))
         else (node, m))"

definition mdx_fl_free :: "nat \<Rightarrow> nat \<Rightarrow> fl_mem \<Rightarrow> fl_mem option" where
  "mdx_fl_free z ptr m =
     (if ptr = 0 then Some m
      else
        (let node = ptr - NODE_S;
             m = set_fg node (fg m node AND NOT FLAG_ALLOCATED) m;
             (next, m) = fl_merge_next node m;
             (node, m) = fl_merge_prev node next m
         in mdx_fl_add_node z node m))"

section \<open>Variants\<close>

text \<open>\<^verbatim>\<open>bzero\<close> and \<^verbatim>\<open>memcpy\<close> on the data bytes.\<close>

definition fl_bzero :: "nat \<Rightarrow> u32 \<Rightarrow> fl_mem \<Rightarrow> fl_mem" where
  "fl_bzero a n m = m\<lparr>dat := (\<lambda>x. if a \<le> x \<and> x < a + unat n then 0 else dat m x)\<rparr>"

definition fl_memcpy :: "nat \<Rightarrow> nat \<Rightarrow> u32 \<Rightarrow> fl_mem \<Rightarrow> fl_mem" where
  "fl_memcpy d s n m = m\<lparr>dat := (\<lambda>x. if d \<le> x \<and> x < d + unat n then dat m (s + (x - d)) else dat m x)\<rparr>"

definition mdx_fl_calloc :: "nat \<Rightarrow> u32 \<Rightarrow> u32 \<Rightarrow> fl_mem \<Rightarrow> (nat \<times> fl_mem) option" where
  "mdx_fl_calloc z number n m =
     do { let s = number * n;
          (res, m) \<leftarrow> mdx_fl_malloc z s m;
          Some (res, if res \<noteq> 0 then fl_bzero res s m else m) }"

text \<open>\<open>dz\<close> is the default zone, to which the code returns the old block whatever zone it came
  from.\<close>

definition mdx_fl_realloc :: "nat \<Rightarrow> nat \<Rightarrow> nat \<Rightarrow> u32 \<Rightarrow> fl_mem \<Rightarrow> (nat \<times> fl_mem) option" where
  "mdx_fl_realloc dz z ptr n m =
     (if ptr = 0 then mdx_fl_malloc z n m
      else if n = 0 then do { m \<leftarrow> mdx_fl_free z ptr m; Some (0, m) }
      else
        (let n = align_loop (n + NODE_W);
             node = ptr - NODE_S;
             next = node + unat (sz m node)
         in if n \<le> sz m node then
              (if fg m next AND FLAG_ALLOCATED = 0 then
                 do { let subs = next + unat (sz m next);
                      let m = fl_unlink next m;
                      let new = node + unat n;
                      let m = set_sz new (sz m next + sz m node - n) m;
                      let m = set_fg new n m;
                      let m = set_sz node n m;
                      let m = set_prev_size subs (sz m new) m;
                      m \<leftarrow> mdx_fl_add_node z new m;
                      Some (ptr, m) }
               else if sz m node > n + NODE_W then
                 do { let new = node + unat n;
                      let m = set_sz new (sz m node - n) m;
                      let m = set_fg new n m;
                      let m = set_sz node n m;
                      let m = set_prev_size next (sz m new) m;
                      m \<leftarrow> mdx_fl_add_node z new m;
                      Some (ptr, m) }
               else Some (ptr, m))
            else if fg m next AND FLAG_ALLOCATED = 0 \<and> sz m node + sz m next > n + NODE_W then
              do { let subs = next + unat (sz m next);
                   let m = fl_unlink next m;
                   let new = node + unat n;
                   let m = set_sz new (sz m next + sz m node - n) m;
                   let m = set_fg new n m;
                   let m = set_sz node n m;
                   let m = set_prev_size subs (sz m new) m;
                   m \<leftarrow> mdx_fl_add_node z new m;
                   Some (ptr, m) }
            else if fg m next AND FLAG_ALLOCATED = 0 \<and> sz m node + sz m next = n then
              (let subs = next + unat (sz m next);
                   m = fl_unlink next m;
                   m = set_sz node n m
               in Some (ptr, set_prev_size subs (sz m node) m))
            else
              do { (newptr, m) \<leftarrow> mdx_fl_malloc z n m;
                   if newptr \<noteq> 0 then
                     do { let m = fl_memcpy newptr ptr (sz m node) m;
                          m \<leftarrow> mdx_fl_free dz ptr m;
                          Some (newptr, m) }
                   else Some (newptr, m) }))"

end
