(* ===== verification/Kernel_State.thy ===== *)
theory Kernel_State
  imports Entry_List Freelist
begin

text \<open>
  The state the kernel components share: the structures of \<^verbatim>\<open>sys/callout.h\<close>, \<^verbatim>\<open>sys/thread.h\<close>,
  \<^verbatim>\<open>sys/sem.h\<close> and \<^verbatim>\<open>sys/spinlock.h\<close> as records, the global variables of the kernel as the
  record \<open>kstate\<close>, and the primitives every component uses: spin locks and critical
  sections.

  Pointers to callouts, threads and semaphores are identifiers, the structures they point
  to live in maps of the state, and the \<^verbatim>\<open>struct entry\<close> members embedded in them live in one
  list heap per kind of queue. The timer hardware is a type parameter \<open>'h\<close>: a driver is a
  \<^verbatim>\<open>struct mi_timer\<close> whose function pointers act on it. Compile-time options
  (\<^verbatim>\<open>MDX_SCHED_SMP\<close>, \<^verbatim>\<open>MDX_CPU_MAX\<close>, \<^verbatim>\<open>MDX_SCHED_NPRIO\<close>, the two
  \<^verbatim>\<open>MDX_CALLOUT_USEC_TO_TICKS\<close> options, \<^verbatim>\<open>MDX_THREAD_DYNAMIC_ALLOC\<close>) and the sizes of structures
  are the \<open>cfg_\<close> fields. The kernel is built with
  \<^verbatim>\<open>KASSERT\<close> enabled.
\<close>

section \<open>Identifiers and list nodes\<close>

type_synonym tid = nat
type_synonym cpuid = nat
type_synonym semid = nat

text \<open>Callouts are embedded in threads (\<^verbatim>\<open>td_c\<close>) and in software timers, or live on the stack
  of a sleeping thread; drivers and applications own further ones.\<close>

datatype cptr = Td_c tid | Stack_c tid | Timer_c nat | User_c nat

text \<open>Functions a callout can call, and what their argument points to.\<close>

datatype cfunc = Sched_cb | Sem_cb | Tsleep_cb | Timer_tick | User_cb nat
datatype carg = Arg_null | Arg_thread tid | Arg_token tid | Arg_timer nat

datatype cnode = Callouts_list cpuid | C_node cptr
datatype tnode = Runq nat | Sem_td_list semid | Td_node tid
datatype pnode = Pcpu_list | Pc_avail cpuid | Pcpu_all | Pc_all cpuid

text \<open>\<^verbatim>\<open>CONTAINER_OF\<close>: from an embedded node to its structure. A list head is in no structure
  of that type, and has no container.\<close>

fun container_c :: "cnode \<Rightarrow> cptr option" where
  "container_c (C_node c) = Some c"
| "container_c (Callouts_list k) = None"

fun container_td :: "tnode \<Rightarrow> tid option" where
  "container_td (Td_node t) = Some t"
| "container_td (Runq i) = None"
| "container_td (Sem_td_list i) = None"

fun container_pc :: "pnode \<Rightarrow> cpuid option" where
  "container_pc (Pc_avail k) = Some k"
| "container_pc (Pc_all k) = Some k"
| "container_pc Pcpu_list = None"
| "container_pc Pcpu_all = None"

section \<open>Structures\<close>

datatype callout_state = CALLOUT_STATE_READY | CALLOUT_STATE_FIRED

definition CALLOUT_FLAG_ACTIVE :: u32 where
  "CALLOUT_FLAG_ACTIVE = push_bit 0 1"

record mdx_callout =
  c_state :: callout_state
  c_ticks :: u32
  c_ticks_orig :: u32
  c_func :: "cfunc option"
  c_arg :: carg
  c_flags :: u32
  c_cpuid :: cpuid

datatype mt_state = MI_TIMER_STATE_READY | MI_TIMER_STATE_RUNNING | MI_TIMER_STATE_EXCEPTION

record 'h mi_timer =
  mt_start :: "(cpuid \<Rightarrow> u32 \<Rightarrow> 'h \<Rightarrow> 'h) option"
  mt_stop :: "(cpuid \<Rightarrow> 'h \<Rightarrow> 'h) option"
  mt_count :: "(cpuid \<Rightarrow> 'h \<Rightarrow> u32) option"
  mt_count_saved :: "cpuid \<Rightarrow> u32"
  mt_maxcnt :: u32
  mt_frequency :: u32
  mt_usec_to_ticks :: "(u32 \<Rightarrow> u32 \<Rightarrow> u32 option) option"
  mt_ticks_to_usec :: "(u32 \<Rightarrow> u32 \<Rightarrow> u32 option) option"
  mt_states :: "cpuid \<Rightarrow> mt_state"

datatype td_state = TD_STATE_READY | TD_STATE_RUNNING | TD_STATE_SLEEPING | TD_STATE_WAKEUP
  | TD_STATE_TERMINATING | TD_STATE_ACK | TD_STATE_SEM_WAIT | TD_STATE_SEM_UNLOCK
  | TD_STATE_SEM_UNLOCK_ACK | TD_STATE_YIELDING

record thread =
  td_name :: string
  td_saved_ie :: bool
  td_critnest :: u32
  td_tf :: nat
  td_stack :: nat
  td_stack_top :: nat
  td_stack_size :: u32
  td_quantum :: u32
  td_idle :: bool
  td_prio :: int
  td_flags :: u32
  td_state :: td_state

record mdx_semaphore =
  sem_count :: int
  sem_count_initial :: int
  sem_l :: nat

record token =
  t_td :: tid
  t_sem :: semid
  t_timeout :: bool

record mdx_timer =
  count_us :: u64
  started :: u32
  period_us :: u32

text \<open>The registers of a trap frame that the kernel reads or writes.\<close>

record trapframe =
  tf_ra :: u32
  tf_a0 :: u32
  tf_epc :: u32
  tf_status :: u32
  tf_cause :: u32

section \<open>The kernel's global state\<close>

text \<open>Further constants of a build: options, sizes of structures, code addresses and the
  statically allocated threads.\<close>

record kconfig =
  dyn_alloc :: bool
  sizeof_thread :: u32
  sizeof_timer :: u32
  sizeof_tf :: u32
  terminate_entry :: u32
  uptime_period :: u32
  idle_thread :: "cpuid \<Rightarrow> tid"
  intr_thread :: "cpuid \<Rightarrow> tid"
  main_thread :: tid

record 'h kstate =
  cfg_smp :: bool
  cfg_ncpu :: nat
  cfg_nprio :: nat
  cfg_usec_1mhz :: bool
  cfg_usec :: bool
  cfg :: kconfig
  pcpu_id :: cpuid
  intr_on :: "cpuid \<Rightarrow> bool"
  pc_curthread :: "cpuid \<Rightarrow> tid"
  threads :: "tid \<Rightarrow> thread"
  hw :: 'h
  mi_tmr :: "'h mi_timer option"
  callouts :: "cptr \<Rightarrow> mdx_callout"
  cq :: "cnode heap"
  c_locks :: "cpuid \<Rightarrow> nat"
  tq :: "tnode heap"
  sched_l :: nat
  pcq :: "pnode heap"
  pending_ipis :: "cpuid \<Rightarrow> u32"
  sip :: "cpuid \<Rightarrow> bool"
  sems :: "semid \<Rightarrow> mdx_semaphore"
  tokens :: "tid \<Rightarrow> token"
  timers :: "nat \<Rightarrow> mdx_timer"
  trapframes :: "nat \<Rightarrow> trapframe"
  kzone :: nat
  kheap :: fl_mem
  uptime_initialized :: bool

abbreviation curthread :: "('h, 'x) kstate_scheme \<Rightarrow> tid" where
  "curthread s \<equiv> pc_curthread s (pcpu_id s)"

abbreviation curtd :: "('h, 'x) kstate_scheme \<Rightarrow> thread" where
  "curtd s \<equiv> threads s (curthread s)"

text \<open>Assignments through a pointer.\<close>

definition upd_callout :: "cptr \<Rightarrow> (mdx_callout \<Rightarrow> mdx_callout) \<Rightarrow>
    ('h, 'x) kstate_scheme \<Rightarrow> ('h, 'x) kstate_scheme" where
  "upd_callout c f s = s\<lparr>callouts := (callouts s)(c := f (callouts s c))\<rparr>"

definition upd_thread :: "tid \<Rightarrow> (thread \<Rightarrow> thread) \<Rightarrow>
    ('h, 'x) kstate_scheme \<Rightarrow> ('h, 'x) kstate_scheme" where
  "upd_thread t f s = s\<lparr>threads := (threads s)(t := f (threads s t))\<rparr>"

definition upd_sem :: "semid \<Rightarrow> (mdx_semaphore \<Rightarrow> mdx_semaphore) \<Rightarrow>
    ('h, 'x) kstate_scheme \<Rightarrow> ('h, 'x) kstate_scheme" where
  "upd_sem i f s = s\<lparr>sems := (sems s)(i := f (sems s i))\<rparr>"

definition upd_mt :: "('h mi_timer \<Rightarrow> 'h mi_timer) \<Rightarrow>
    ('h, 'x) kstate_scheme \<Rightarrow> ('h, 'x) kstate_scheme" where
  "upd_mt f s = s\<lparr>mi_tmr := map_option f (mi_tmr s)\<rparr>"

abbreviation set_td_state :: "tid \<Rightarrow> td_state \<Rightarrow>
    ('h, 'x) kstate_scheme \<Rightarrow> ('h, 'x) kstate_scheme" where
  "set_td_state t st \<equiv> upd_thread t (\<lambda>td. td\<lparr>td_state := st\<rparr>)"

text \<open>Writing a field its own value changes nothing.\<close>

lemma kstate_upd_same:
  "mi_tmr s = m \<Longrightarrow> s\<lparr>mi_tmr := m\<rparr> = s" "hw s = w \<Longrightarrow> s\<lparr>hw := w\<rparr> = s"
  "callouts s = co \<Longrightarrow> s\<lparr>callouts := co\<rparr> = s" "cq s = h \<Longrightarrow> s\<lparr>cq := h\<rparr> = s"
  "c_locks s = l \<Longrightarrow> s\<lparr>c_locks := l\<rparr> = s" "threads s = t \<Longrightarrow> s\<lparr>threads := t\<rparr> = s"
  "intr_on s = i \<Longrightarrow> s\<lparr>intr_on := i\<rparr> = s"
  by auto

lemmas upd_defs = upd_callout_def upd_thread_def upd_sem_def upd_mt_def

section \<open>Spin locks\<close>

text \<open>
  \<^verbatim>\<open>sys/spinlock.h\<close> on one lock word. On one CPU taking a held lock fails the \<^verbatim>\<open>KASSERT\<close>; with
  \<^verbatim>\<open>MDX_SCHED_SMP\<close> it spins until another CPU releases it, so on the code of one CPU alone
  it does not return either. Releasing a free lock panics in both.
\<close>

definition sl_init :: nat where
  "sl_init = 0"

definition sl_lock :: "nat \<Rightarrow> nat option" where
  "sl_lock v = (if v = 0 then Some 1 else None)"

definition sl_trylock :: "bool \<Rightarrow> nat \<Rightarrow> (bool \<times> nat) option" where
  "sl_trylock smp v =
     (if smp then (if v = 0 then Some (True, 1) else Some (False, v))
      else do { KASSERT (v = 0); Some (True, 1) })"

definition sl_unlock :: "nat \<Rightarrow> nat option" where
  "sl_unlock v = (if v = 1 then Some 0 else None)"

lemma sl_lock_unlock: "Option.bind (sl_lock v) sl_unlock = (if v = 0 then Some 0 else None)"
  by (simp add: sl_lock_def sl_unlock_def)

section \<open>Critical sections\<close>

text \<open>
  \<^verbatim>\<open>critical_enter\<close> and \<^verbatim>\<open>critical_exit\<close> of \<^verbatim>\<open>arch/riscv/riscv/machdep.c\<close>: the first enter of a
  thread disables interrupts on its CPU and saves whether they were on, the matching exit
  restores that.
\<close>

definition critical_enter :: "('h, 'x) kstate_scheme \<Rightarrow> ('h, 'x) kstate_scheme" where
  "critical_enter s =
     (let td = curthread s in
      if td_critnest (threads s td) = 0 then
        (let reg = intr_on s (pcpu_id s);
             s = s\<lparr>intr_on := (intr_on s)(pcpu_id s := False)\<rparr>;
             s = upd_thread td (\<lambda>t. t\<lparr>td_critnest := 1\<rparr>) s
         in upd_thread td (\<lambda>t. t\<lparr>td_saved_ie := reg\<rparr>) s)
      else upd_thread td (\<lambda>t. t\<lparr>td_critnest := td_critnest t + 1\<rparr>) s)"

definition critical_exit :: "('h, 'x) kstate_scheme \<Rightarrow> ('h, 'x) kstate_scheme" where
  "critical_exit s =
     (let td = curthread s;
          s = upd_thread td (\<lambda>t. t\<lparr>td_critnest := td_critnest t - 1\<rparr>) s
      in if td_critnest (threads s td) = 0
         then s\<lparr>intr_on := (intr_on s)(pcpu_id s := td_saved_ie (threads s td))\<rparr> else s)"

definition in_critical :: "('h, 'x) kstate_scheme \<Rightarrow> bool" where
  "in_critical s \<longleftrightarrow> td_critnest (curtd s) > 0"

lemma upd_thread_sel [simp]:
  "threads (upd_thread t f s) = (threads s)(t := f (threads s t))"
  "callouts (upd_thread t f s) = callouts s" "cq (upd_thread t f s) = cq s"
  "mi_tmr (upd_thread t f s) = mi_tmr s" "hw (upd_thread t f s) = hw s"
  "pcpu_id (upd_thread t f s) = pcpu_id s" "pc_curthread (upd_thread t f s) = pc_curthread s"
  "intr_on (upd_thread t f s) = intr_on s" "cfg_smp (upd_thread t f s) = cfg_smp s"
  "cfg_ncpu (upd_thread t f s) = cfg_ncpu s" "cfg_nprio (upd_thread t f s) = cfg_nprio s"
  "c_locks (upd_thread t f s) = c_locks s" "tq (upd_thread t f s) = tq s"
  "sched_l (upd_thread t f s) = sched_l s" "pcq (upd_thread t f s) = pcq s"
  "pending_ipis (upd_thread t f s) = pending_ipis s"
  "sip (upd_thread t f s) = sip s" "trapframes (upd_thread t f s) = trapframes s" "kzone (upd_thread t f s) = kzone s"
  "kheap (upd_thread t f s) = kheap s" "cfg (upd_thread t f s) = cfg s" "uptime_initialized (upd_thread t f s) = uptime_initialized s" "sems (upd_thread t f s) = sems s"
  "tokens (upd_thread t f s) = tokens s" "timers (upd_thread t f s) = timers s"
  by (simp_all add: upd_thread_def)

lemma critical_enter_sel [simp]:
  "callouts (critical_enter s) = callouts s" "cq (critical_enter s) = cq s"
  "mi_tmr (critical_enter s) = mi_tmr s" "hw (critical_enter s) = hw s"
  "pcpu_id (critical_enter s) = pcpu_id s" "pc_curthread (critical_enter s) = pc_curthread s"
  "cfg_smp (critical_enter s) = cfg_smp s" "cfg_ncpu (critical_enter s) = cfg_ncpu s"
  "cfg_nprio (critical_enter s) = cfg_nprio s" "c_locks (critical_enter s) = c_locks s"
  "tq (critical_enter s) = tq s" "sched_l (critical_enter s) = sched_l s"
  "pcq (critical_enter s) = pcq s" "pending_ipis (critical_enter s) = pending_ipis s"
  "sip (critical_enter s) = sip s" "trapframes (critical_enter s) = trapframes s" "kzone (critical_enter s) = kzone s"
  "kheap (critical_enter s) = kheap s" "cfg (critical_enter s) = cfg s" "uptime_initialized (critical_enter s) = uptime_initialized s"
  "sems (critical_enter s) = sems s" "tokens (critical_enter s) = tokens s"
  "timers (critical_enter s) = timers s"
  by (simp_all add: critical_enter_def Let_def)

lemma critical_exit_sel [simp]:
  "callouts (critical_exit s) = callouts s" "cq (critical_exit s) = cq s"
  "mi_tmr (critical_exit s) = mi_tmr s" "hw (critical_exit s) = hw s"
  "pcpu_id (critical_exit s) = pcpu_id s" "pc_curthread (critical_exit s) = pc_curthread s"
  "cfg_smp (critical_exit s) = cfg_smp s" "cfg_ncpu (critical_exit s) = cfg_ncpu s"
  "cfg_nprio (critical_exit s) = cfg_nprio s" "c_locks (critical_exit s) = c_locks s"
  "tq (critical_exit s) = tq s" "sched_l (critical_exit s) = sched_l s"
  "pcq (critical_exit s) = pcq s" "pending_ipis (critical_exit s) = pending_ipis s"
  "sip (critical_exit s) = sip s" "trapframes (critical_exit s) = trapframes s" "kzone (critical_exit s) = kzone s"
  "kheap (critical_exit s) = kheap s" "cfg (critical_exit s) = cfg s" "uptime_initialized (critical_exit s) = uptime_initialized s"
  "sems (critical_exit s) = sems s" "tokens (critical_exit s) = tokens s"
  "timers (critical_exit s) = timers s"
  by (simp_all add: critical_exit_def Let_def)

text \<open>Nesting is counted in 32 bits. Below the maximum, entering is inside the section, and a
  body that leaves the threads and the interrupt enable alone is bracketed: afterwards both
  are what they were before, apart from the saved interrupt enable of an outermost section.\<close>

definition crit_room :: "('h, 'x) kstate_scheme \<Rightarrow> bool" where
  "crit_room s \<longleftrightarrow> td_critnest (curtd s) \<noteq> -1"

lemma word_plus_1_pos: "x \<noteq> -1 \<Longrightarrow> 0 < x + 1" for x :: u32
  by (metis add_eq_0_iff word_neq_0_conv add.commute)

lemma critical_enter_in: "crit_room s \<Longrightarrow> in_critical (critical_enter s)"
  by (auto simp: crit_room_def in_critical_def critical_enter_def Let_def word_plus_1_pos)

lemma critical_bracket:
  assumes "threads t = threads (critical_enter s)" and "intr_on t = intr_on (critical_enter s)"
    and "pcpu_id t = pcpu_id s" and "pc_curthread t = pc_curthread s"
  shows "intr_on (critical_exit t) = intr_on s"
    and "threads (critical_exit t) = (threads s)(curthread s := (curtd s)\<lparr>td_saved_ie :=
      (if td_critnest (curtd s) = 0 then intr_on s (pcpu_id s) else td_saved_ie (curtd s))\<rparr>)"
  using assms
  by (auto simp: critical_exit_def critical_enter_def Let_def fun_eq_iff)

end
