(* ===== verification/Callout.thy ===== *)
theory Callout
  imports Kernel_State
begin

text \<open>
  The callout framework of \<^verbatim>\<open>kernel/callout/mdx_callout.c\<close> with the time conversions of
  \<^verbatim>\<open>mdx_cputime.c\<close> and \<^verbatim>\<open>mdx_cputime_1mhz.c\<close>. Each CPU has a queue of callouts in which a
  callout's \<^verbatim>\<open>ticks\<close> counts from the deadline of its predecessor; the timer interrupt
  subtracts the elapsed ticks and calls the functions that are due. All arithmetic is on
  32-bit words, as in the source.

  This theory holds the operations; \<open>Callout_Queue\<close> proves what they do to a well-formed
  queue.
\<close>

section \<open>Time conversions\<close>

definition mdx_cputime_usec_to_ticks :: "u32 \<Rightarrow> u32 \<Rightarrow> u32 option" where
  "mdx_cputime_usec_to_ticks freq usec =
     (let ticks = (ucast freq :: u64);
          ticks = push_bit 32 ticks;
          ticks = ticks div 1000000;
          maxval = push_bit 32 (0xffffffff :: u64)
      in if ticks = 0 then None
         else if maxval div ticks < ucast usec then None
         else (let ticks = ticks * ucast usec;
                   ticks = drop_bit 32 ticks
               in Some (ucast ticks)))"

definition mdx_cputime_usec_to_ticks_1mhz :: "u32 \<Rightarrow> u32 \<Rightarrow> u32 option" where
  "mdx_cputime_usec_to_ticks_1mhz freq usec =
     do { KASSERT (freq = 1000000); Some usec }"

definition mdx_cputime_ticks_to_usec_1mhz :: "u32 \<Rightarrow> u32 \<Rightarrow> u32 option" where
  "mdx_cputime_ticks_to_usec_1mhz freq ticks =
     do { KASSERT (freq = 1000000); Some ticks }"

definition mdx_callout_usec_to_ticks :: "u32 \<Rightarrow> ('h, 'x) kstate_scheme \<Rightarrow> u32 option" where
  "mdx_callout_usec_to_ticks usec s =
     do { mt \<leftarrow> mi_tmr s;
          f \<leftarrow> mt_usec_to_ticks mt;
          f (mt_frequency mt) usec }"

definition mdx_callout_ticks_to_usec :: "u32 \<Rightarrow> ('h, 'x) kstate_scheme \<Rightarrow> u32 option" where
  "mdx_callout_ticks_to_usec ticks s =
     do { mt \<leftarrow> mi_tmr s;
          f \<leftarrow> mt_ticks_to_usec mt;
          f (mt_frequency mt) ticks }"

section \<open>The queue of a CPU\<close>

definition callout_lock :: "cpuid \<Rightarrow> ('h, 'x) kstate_scheme \<Rightarrow> ('h, 'x) kstate_scheme option" where
  "callout_lock k s =
     (if cfg_smp s then do { v \<leftarrow> sl_lock (c_locks s k); Some (s\<lparr>c_locks := (c_locks s)(k := v)\<rparr>) }
      else Some s)"

definition callout_unlock :: "cpuid \<Rightarrow> ('h, 'x) kstate_scheme \<Rightarrow> ('h, 'x) kstate_scheme option" where
  "callout_unlock k s =
     (if cfg_smp s then do { v \<leftarrow> sl_unlock (c_locks s k); Some (s\<lparr>c_locks := (c_locks s)(k := v)\<rparr>) }
      else Some s)"

definition first :: "cpuid \<Rightarrow> ('h, 'x) kstate_scheme \<Rightarrow> cptr option" where
  "first k s =
     (if list_empty (Callouts_list k) (cq s) then None
      else container_c (nextp (cq s) (Callouts_list k)))"

definition next_c :: "cpuid \<Rightarrow> cptr \<Rightarrow> ('h, 'x) kstate_scheme \<Rightarrow> cptr option" where
  "next_c k c0 s =
     (if nextp (cq s) (C_node c0) = Callouts_list k then None
      else container_c (nextp (cq s) (C_node c0)))"

definition mi_tmr_start :: "u32 \<Rightarrow> ('h, 'x) kstate_scheme \<Rightarrow> ('h, 'x) kstate_scheme option" where
  "mi_tmr_start ticks s =
     do { mt \<leftarrow> mi_tmr s;
          start \<leftarrow> mt_start mt;
          Some (if ticks > mt_maxcnt mt then s\<lparr>hw := start (pcpu_id s) (mt_maxcnt mt) (hw s)\<rparr>
                else s\<lparr>hw := start (pcpu_id s) ticks (hw s)\<rparr>) }"

definition mdx_callout_init :: "cptr \<Rightarrow> ('h, 'x) kstate_scheme \<Rightarrow> ('h, 'x) kstate_scheme" where
  "mdx_callout_init c s =
     upd_callout c (\<lambda>co. co\<lparr>c_state := CALLOUT_STATE_READY, c_flags := 0\<rparr>) s"

text \<open>Ticks elapsed since \<^verbatim>\<open>count_saved\<close> was last set, and the count read for it.\<close>

definition get_elapsed :: "('h, 'x) kstate_scheme \<Rightarrow> (u32 \<times> u32) option" where
  "get_elapsed s =
     do { KASSERT (in_critical s);
          mt \<leftarrow> mi_tmr s;
          read \<leftarrow> mt_count mt;
          let count = read (pcpu_id s) (hw s);
          let saved = mt_count_saved mt (pcpu_id s);
          Some (if count = saved then 0
                else if count > saved then count - saved
                else mt_maxcnt mt - saved + count, count) }"

section \<open>Remaining time\<close>

partial_function (option) callout_ticks_loop ::
  "cpuid \<Rightarrow> cptr \<Rightarrow> ('h, 'x) kstate_scheme \<Rightarrow> cptr option \<Rightarrow> u32 \<Rightarrow> u32 \<Rightarrow> u32 option" where
  "callout_ticks_loop k c0 s co elapsed val =
     (case co of None \<Rightarrow> Some val
      | Some c \<Rightarrow>
          (let ticks = c_ticks (callouts s c) in
           if elapsed \<ge> ticks then
             (if c = c0 then Some val
              else callout_ticks_loop k c0 s (next_c k c s) (elapsed - ticks) val)
           else
             (let val = val + (ticks - elapsed) in
              if c = c0 then Some val
              else callout_ticks_loop k c0 s (next_c k c s) 0 val)))"

definition mdx_callout_ticks :: "cptr \<Rightarrow> ('h, 'x) kstate_scheme \<Rightarrow> (u32 \<times> ('h, 'x) kstate_scheme) option" where
  "mdx_callout_ticks c0 s =
     (let s = critical_enter s in
      if c_flags (callouts s c0) AND CALLOUT_FLAG_ACTIVE = 0 then Some (0, critical_exit s)
      else do {
        (elapsed, _) \<leftarrow> get_elapsed s;
        KASSERT (pcpu_id s = c_cpuid (callouts s c0));
        val \<leftarrow> callout_ticks_loop (pcpu_id s) c0 s (first (pcpu_id s) s) elapsed 0;
        Some (val, critical_exit s) })"

definition mdx_callout_usec :: "cptr \<Rightarrow> ('h, 'x) kstate_scheme \<Rightarrow> (u32 \<times> ('h, 'x) kstate_scheme) option" where
  "mdx_callout_usec c0 s =
     do { (ticks, s) \<leftarrow> mdx_callout_ticks c0 s;
          usec \<leftarrow> mdx_callout_ticks_to_usec ticks s;
          Some (usec, s) }"

section \<open>Setting a callout\<close>

text \<open>The search of \<^verbatim>\<open>mdx_callout_set_one\<close> for the place of \<open>c0\<close>: it returns the callout \<open>c0\<close>
  was put before, if any.\<close>

partial_function (option) set_one_loop ::
  "cpuid \<Rightarrow> cptr \<Rightarrow> cptr option \<Rightarrow> ('h, 'x) kstate_scheme \<Rightarrow>
   (cptr option \<times> ('h, 'x) kstate_scheme) option" where
  "set_one_loop k c0 co s =
     (case co of None \<Rightarrow> Some (None, s)
      | Some c \<Rightarrow>
          if c_ticks (callouts s c) > c_ticks (callouts s c0) then
            (let s = upd_callout c (\<lambda>r. r\<lparr>c_ticks := c_ticks r - c_ticks (callouts s c0)\<rparr>) s
             in Some (Some c, s\<lparr>cq := list_insert (C_node c) (C_node c0) (cq s)\<rparr>))
          else
            (let s = upd_callout c0 (\<lambda>r. r\<lparr>c_ticks := c_ticks r - c_ticks (callouts s c)\<rparr>) s
             in set_one_loop k c0 (next_c k c s) s))"

text \<open>The queue part of \<^verbatim>\<open>mdx_callout_set_one\<close>: search, then insert or append.\<close>

definition callout_insert :: "cpuid \<Rightarrow> cptr \<Rightarrow> ('h, 'x) kstate_scheme \<Rightarrow> ('h, 'x) kstate_scheme option" where
  "callout_insert k c0 s =
     do { (c, s) \<leftarrow> set_one_loop k c0 (first k s) s;
          Some (if c = None
                then s\<lparr>cq := list_append (Callouts_list k) (C_node c0) (cq s)\<rparr> else s) }"

definition mdx_callout_set_one :: "cptr \<Rightarrow> ('h, 'x) kstate_scheme \<Rightarrow> ('h, 'x) kstate_scheme option" where
  "mdx_callout_set_one c0 s =
     do { let k = pcpu_id s;
          KASSERT (in_critical s);
          mt \<leftarrow> mi_tmr s;
          (elapsed, s) \<leftarrow>
            (if mt_states mt k = MI_TIMER_STATE_RUNNING then
               do { (elapsed, _) \<leftarrow> get_elapsed s;
                    Some (elapsed, upd_callout c0 (\<lambda>r. r\<lparr>c_ticks := c_ticks r + elapsed\<rparr>) s) }
             else Some (0, s));
          s \<leftarrow> callout_insert k c0 s;
          (case mt_states mt k of
             MI_TIMER_STATE_RUNNING \<Rightarrow>
               if first k s = Some c0 then mi_tmr_start (c_ticks (callouts s c0) - elapsed) s
               else Some s
           | MI_TIMER_STATE_EXCEPTION \<Rightarrow> Some s
           | MI_TIMER_STATE_READY \<Rightarrow>
               do { let s = upd_mt (\<lambda>m. m\<lparr>mt_states := (mt_states m)(k := MI_TIMER_STATE_RUNNING)\<rparr>) s;
                    read \<leftarrow> mt_count mt;
                    let s = upd_mt (\<lambda>m. m\<lparr>mt_count_saved := (mt_count_saved m)(k := read k (hw s))\<rparr>) s;
                    f \<leftarrow> first k s;
                    mi_tmr_start (c_ticks (callouts s f)) s }) }"

definition mdx_callout_set_ticks_locked :: "cptr \<Rightarrow> u32 \<Rightarrow> cfunc option \<Rightarrow> carg \<Rightarrow>
    ('h, 'x) kstate_scheme \<Rightarrow> (mdx_result \<times> ('h, 'x) kstate_scheme) option" where
  "mdx_callout_set_ticks_locked c ticks func arg s =
     do { KASSERT (mi_tmr s \<noteq> None);
          KASSERT (in_critical s);
          if c_flags (callouts s c) AND CALLOUT_FLAG_ACTIVE \<noteq> 0 then Some (MDX_ERROR, s)
          else if ticks = 0 then
            Some (MDX_OK, upd_callout c (\<lambda>r. r\<lparr>c_state := CALLOUT_STATE_FIRED\<rparr>) s)
          else do {
            let s = upd_callout c (\<lambda>r. r\<lparr>c_ticks_orig := ticks, c_ticks := ticks, c_func := func,
                                         c_arg := arg, c_cpuid := pcpu_id s\<rparr>) s;
            s \<leftarrow> mdx_callout_set_one c s;
            Some (MDX_OK, upd_callout c (\<lambda>r. r\<lparr>c_flags := c_flags r OR CALLOUT_FLAG_ACTIVE\<rparr>) s) } }"

definition mdx_callout_set_locked :: "cptr \<Rightarrow> u32 \<Rightarrow> cfunc option \<Rightarrow> carg \<Rightarrow>
    ('h, 'x) kstate_scheme \<Rightarrow> (mdx_result \<times> ('h, 'x) kstate_scheme) option" where
  "mdx_callout_set_locked c usec func arg s =
     do { ticks \<leftarrow> mdx_callout_usec_to_ticks usec s;
          mdx_callout_set_ticks_locked c ticks func arg s }"

definition mdx_callout_set_ticks :: "cptr \<Rightarrow> u32 \<Rightarrow> cfunc option \<Rightarrow> carg \<Rightarrow>
    ('h, 'x) kstate_scheme \<Rightarrow> (mdx_result \<times> ('h, 'x) kstate_scheme) option" where
  "mdx_callout_set_ticks c ticks func arg s =
     do { let s = critical_enter s;
          let k = pcpu_id s;
          s \<leftarrow> callout_lock k s;
          (error, s) \<leftarrow> mdx_callout_set_ticks_locked c ticks func arg s;
          s \<leftarrow> callout_unlock k s;
          Some (error, critical_exit s) }"

definition mdx_callout_set :: "cptr \<Rightarrow> u32 \<Rightarrow> cfunc option \<Rightarrow> carg \<Rightarrow>
    ('h, 'x) kstate_scheme \<Rightarrow> (mdx_result \<times> ('h, 'x) kstate_scheme) option" where
  "mdx_callout_set c usec func arg s =
     do { ticks \<leftarrow> mdx_callout_usec_to_ticks usec s;
          mdx_callout_set_ticks c ticks func arg s }"

section \<open>Cancelling a callout\<close>

text \<open>The C function returns 0 when the callout was queued and 1 when it was not.\<close>

definition mdx_callout_cancel_locked :: "cptr \<Rightarrow> ('h, 'x) kstate_scheme \<Rightarrow>
    int \<times> ('h, 'x) kstate_scheme" where
  "mdx_callout_cancel_locked c s =
     (if c_flags (callouts s c) AND CALLOUT_FLAG_ACTIVE = 0 then (1, s)
      else
        (let s = (case next_c (c_cpuid (callouts s c)) c s of
                    None \<Rightarrow> s
                  | Some n \<Rightarrow> upd_callout n (\<lambda>r. r\<lparr>c_ticks := c_ticks r + c_ticks (callouts s c)\<rparr>) s);
             s = s\<lparr>cq := list_remove (C_node c) (cq s)\<rparr>
         in (0, upd_callout c (\<lambda>r. r\<lparr>c_flags := c_flags r AND NOT CALLOUT_FLAG_ACTIVE\<rparr>) s)))"

definition mdx_callout_cancel :: "cptr \<Rightarrow> ('h, 'x) kstate_scheme \<Rightarrow>
    (int \<times> ('h, 'x) kstate_scheme) option" where
  "mdx_callout_cancel c s =
     do { KASSERT (mi_tmr s \<noteq> None);
          KASSERT (in_critical s);
          s \<leftarrow> callout_lock (c_cpuid (callouts s c)) s;
          let (error, s) = mdx_callout_cancel_locked c s;
          s \<leftarrow> callout_unlock (c_cpuid (callouts s c)) s;
          Some (error, s) }"

section \<open>The timer interrupt\<close>

text \<open>\<open>call\<close> runs a callout's function; it is the dispatcher over the functions of the
  kernel and of applications.\<close>

type_synonym ('h, 'x) dispatcher =
  "cfunc \<Rightarrow> carg \<Rightarrow> ('h, 'x) kstate_scheme \<Rightarrow> ('h, 'x) kstate_scheme option"

definition fire :: "mdx_callout \<Rightarrow> mdx_callout" where
  "fire r = r\<lparr>c_ticks := 0, c_state := CALLOUT_STATE_FIRED,
                c_flags := c_flags r AND NOT CALLOUT_FLAG_ACTIVE\<rparr>"

partial_function (option) callback_loop ::
  "('h, 'x) dispatcher \<Rightarrow> cpuid \<Rightarrow> cptr option \<Rightarrow> u32 \<Rightarrow> ('h, 'x) kstate_scheme \<Rightarrow>
   ('h, 'x) kstate_scheme option" where
  "callback_loop call k co elapsed s =
     (case co of None \<Rightarrow> Some s
      | Some c \<Rightarrow>
          (let tmp = next_c k c s; ticks = c_ticks (callouts s c) in
           if elapsed \<ge> ticks then
             do { let s = s\<lparr>cq := list_remove (C_node c) (cq s)\<rparr>;
                  let s = upd_callout c fire s;
                  s \<leftarrow> (case c_func (callouts s c) of None \<Rightarrow> Some s
                        | Some f \<Rightarrow> call f (c_arg (callouts s c)) s);
                  callback_loop call k tmp (elapsed - ticks) s }
           else Some (upd_callout c (\<lambda>r. r\<lparr>c_ticks := c_ticks r - elapsed\<rparr>) s)))"

text \<open>The callback of the timer. There is one timer device, so that the timer that calls is the one
  that is registered: the assertion \<^verbatim>\<open>mi_tmr == mt\<close> compares a pointer with itself.\<close>

definition mdx_callout_callback :: "('h, 'x) dispatcher \<Rightarrow> ('h, 'x) kstate_scheme \<Rightarrow>
    (mdx_result \<times> ('h, 'x) kstate_scheme) option" where
  "mdx_callout_callback call s =
     do { let k = pcpu_id s;
          KASSERT (in_critical s);
          KASSERT (mi_tmr s \<noteq> None);
          if list_empty (Callouts_list k) (cq s) then Some (MDX_OK, s)
          else do {
            (elapsed, count) \<leftarrow> get_elapsed s;
            let s = upd_mt (\<lambda>m. m\<lparr>mt_count_saved := (mt_count_saved m)(k := count)\<rparr>) s;
            let s = upd_mt (\<lambda>m. m\<lparr>mt_states := (mt_states m)(k := MI_TIMER_STATE_EXCEPTION)\<rparr>) s;
            s \<leftarrow> callout_lock k s;
            s \<leftarrow> callback_loop call k (first k s) elapsed s;
            mt \<leftarrow> mi_tmr s;
            s \<leftarrow> (case first k s of
                    Some c \<Rightarrow>
                      if mt_states mt k = MI_TIMER_STATE_EXCEPTION then
                        mi_tmr_start (c_ticks (callouts s c))
                          (upd_mt (\<lambda>m. m\<lparr>mt_states := (mt_states m)(k := MI_TIMER_STATE_RUNNING)\<rparr>) s)
                      else Some s
                  | None \<Rightarrow>
                      do { let s = upd_mt (\<lambda>m. m\<lparr>mt_states := (mt_states m)(k := MI_TIMER_STATE_READY)\<rparr>) s;
                           stop \<leftarrow> mt_stop mt;
                           Some (s\<lparr>hw := stop k (hw s)\<rparr>) });
            s \<leftarrow> callout_unlock k s;
            Some (MDX_OK, s) } }"

section \<open>Registering the timer\<close>

definition mdx_callout_setup :: "('h, 'x) kstate_scheme \<Rightarrow> 'h mi_timer \<Rightarrow> mdx_result \<times> 'h mi_timer" where
  "mdx_callout_setup s mt =
     (if mt_usec_to_ticks mt \<noteq> None then (MDX_OK, mt)
      else if cfg_usec_1mhz s \<and> mt_frequency mt = 1000000 then
        (MDX_OK, mt\<lparr>mt_usec_to_ticks := Some mdx_cputime_usec_to_ticks_1mhz,
                    mt_ticks_to_usec := Some mdx_cputime_ticks_to_usec_1mhz\<rparr>)
      else if cfg_usec s \<and> mt_frequency mt \<noteq> 1000000 then
        (MDX_OK, mt\<lparr>mt_usec_to_ticks := Some mdx_cputime_usec_to_ticks, mt_ticks_to_usec := None\<rparr>)
      else (MDX_ERROR, mt))"

primrec register_loop :: "nat \<Rightarrow> ('h, 'x) kstate_scheme \<Rightarrow> ('h, 'x) kstate_scheme" where
  "register_loop 0 s = s"
| "register_loop (Suc i) s =
     (let s = register_loop i s;
          s = (if cfg_smp s then s\<lparr>c_locks := (c_locks s)(i := sl_init)\<rparr> else s);
          s = s\<lparr>cq := list_init (Callouts_list i) (cq s)\<rparr>;
          s = upd_mt (\<lambda>m. m\<lparr>mt_states := (mt_states m)(i := MI_TIMER_STATE_READY)\<rparr>) s
      in upd_mt (\<lambda>m. m\<lparr>mt_count_saved := (mt_count_saved m)(i := 0)\<rparr>) s)"

definition mdx_callout_register :: "'h mi_timer \<Rightarrow> ('h, 'x) kstate_scheme \<Rightarrow>
    mdx_result \<times> ('h, 'x) kstate_scheme" where
  "mdx_callout_register mt s =
     (if mi_tmr s \<noteq> None then (MDX_EEXIST, s)
      else if mt_maxcnt mt = 0 \<or> mt_start mt = None \<or> mt_stop mt = None \<or>
              mt_frequency mt = 0 \<or> mt_count mt = None then (MDX_ERROR, s)
      else (case mdx_callout_setup s mt of
              (MDX_OK, mt) \<Rightarrow>
                (let s = s\<lparr>mi_tmr := Some mt\<rparr> in (MDX_OK, register_loop (cfg_ncpu s) s))
            | (_, _) \<Rightarrow> (MDX_ERROR, s)))"

end
