(* ===== verification/Callout_Queue.thy ===== *)
theory Callout_Queue
  imports Callout
begin

text \<open>
  What the callout operations do. The abstract view of a CPU's queue is the list of its
  callouts with their deadlines, counted in ticks from the last time the timer was read:
  \<open>deadlines\<close> sums the relative \<^verbatim>\<open>ticks\<close> of the C structures. Setting a callout inserts it
  behind the callouts due no later, cancelling removes it, and the timer interrupt fires
  exactly the callouts that are due, in order, and advances the rest.
\<close>

section \<open>The abstract queue\<close>

definition cqueue :: "('h, 'x) kstate_scheme \<Rightarrow> cpuid \<Rightarrow> cptr list \<Rightarrow> bool" where
  "cqueue s k cs \<longleftrightarrow> dlist (cq s) (Callouts_list k) (map C_node cs)"

abbreviation ticks_of :: "('h, 'x) kstate_scheme \<Rightarrow> cptr \<Rightarrow> nat" where
  "ticks_of s c \<equiv> unat (c_ticks (callouts s c))"

fun deadlines :: "(cptr \<Rightarrow> nat) \<Rightarrow> nat \<Rightarrow> cptr list \<Rightarrow> (cptr \<times> nat) list" where
  "deadlines f a [] = []"
| "deadlines f a (c # cs) = (c, a + f c) # deadlines f (a + f c) cs"

text \<open>The specification of the three operations on deadlines.\<close>

definition dl_insert :: "cptr \<times> nat \<Rightarrow> (cptr \<times> nat) list \<Rightarrow> (cptr \<times> nat) list" where
  "dl_insert d ds = takeWhile (\<lambda>x. snd x \<le> snd d) ds @ d # dropWhile (\<lambda>x. snd x \<le> snd d) ds"

definition dl_cancel :: "cptr \<Rightarrow> (cptr \<times> nat) list \<Rightarrow> (cptr \<times> nat) list" where
  "dl_cancel c ds = filter (\<lambda>x. fst x \<noteq> c) ds"

definition dl_advance :: "nat \<Rightarrow> (cptr \<times> nat) list \<Rightarrow> (cptr \<times> nat) list" where
  "dl_advance e ds = map (\<lambda>(c, d). (c, d - e)) (dropWhile (\<lambda>x. snd x \<le> e) ds)"

lemma set_dl_insert [simp]: "set (dl_insert d ds) = insert d (set ds)"
proof -
  have "set (xs @ d # ys) = insert d (set (xs @ ys))" for xs ys by auto
  then show ?thesis unfolding dl_insert_def by (simp only: takeWhile_dropWhile_id)
qed

lemma deadlines_append:
  "deadlines f a (xs @ ys) = deadlines f a xs @ deadlines f (a + sum_list (map f xs)) ys"
  by (induction xs arbitrary: a) (auto simp: add.assoc)

lemma deadlines_cong:
  "(\<And>c. c \<in> set cs \<Longrightarrow> f c = g c) \<Longrightarrow> deadlines f a cs = deadlines g a cs"
  by (induction cs arbitrary: a) auto

lemma deadlines_ge: "x \<in> set (deadlines f a cs) \<Longrightarrow> a \<le> snd x"
  by (induction cs arbitrary: a) (auto, force)

lemma deadlines_le: "x \<in> set (deadlines f a cs) \<Longrightarrow> snd x \<le> a + sum_list (map f cs)"
  by (induction cs arbitrary: a) (auto, force)

lemma deadlines_fst [simp]: "map fst (deadlines f a cs) = cs"
  by (induction cs arbitrary: a) auto

lemma sorted_deadlines: "sorted (map snd (deadlines f a cs))"
  by (induction cs arbitrary: a) (auto dest!: deadlines_ge)

lemma deadlines_shift: "deadlines f (a + b) cs = map (\<lambda>(c, d). (c, d + b)) (deadlines f a cs)"
proof (induction cs arbitrary: a)
  case (Cons c cs)
  show ?case using Cons [of "a + f c"] by (simp add: add_ac)
qed simp

text \<open>Inserting between \<open>us\<close> and \<open>vs\<close> and adjusting the two relative times is insertion by
  deadline.\<close>

lemma deadlines_insert:
  assumes "sum_list (map f us) \<le> t" and "c0 \<notin> set (us @ vs)" and "distinct (us @ vs)"
    and c0: "g c0 = t - sum_list (map f us)"
    and us: "\<And>c. c \<in> set us \<Longrightarrow> g c = f c"
    and vs: "\<And>v ws. vs = v # ws \<Longrightarrow> g c0 < f v \<and> g v = f v - g c0 \<and> (\<forall>c \<in> set ws. g c = f c)"
  shows "deadlines g 0 (us @ c0 # vs) = dl_insert (c0, t) (deadlines f 0 (us @ vs))"
proof -
  let ?n = "sum_list (map f us)"
  have us': "sum_list (map g us) = ?n" using us by (simp cong: map_cong)
  have pre: "deadlines g 0 us = deadlines f 0 us" using us by (rule deadlines_cong)
  have t: "?n + g c0 = t" using c0 assms(1) by simp
  have tail: "deadlines g t vs = deadlines f ?n vs"
  proof (cases vs)
    case (Cons v ws)
    from vs [OF Cons] have "t + g v = ?n + f v" using t by simp
    moreover have "deadlines g (?n + f v) ws = deadlines f (?n + f v) ws"
      using vs [OF Cons] by (intro deadlines_cong) auto
    ultimately show ?thesis using Cons by simp
  qed simp
  have le: "snd x \<le> t" if "x \<in> set (deadlines f 0 us)" for x
    using deadlines_le [OF that] assms(1) by simp
  have gt: "\<not> snd y \<le> t" if "hd_opt (deadlines f ?n vs) = Some y" for y
  proof (cases vs)
    case Nil
    with that show ?thesis by simp
  next
    case (Cons v ws)
    from vs [OF Cons] have "g c0 < f v" by simp
    moreover have "y = (v, ?n + f v)" using that Cons by simp
    ultimately show ?thesis using t by simp
  qed
  have "dl_insert (c0, t) (deadlines f 0 us @ deadlines f ?n vs) =
      deadlines f 0 us @ (c0, t) # deadlines f ?n vs"
    unfolding dl_insert_def snd_conv
    by (simp only: takeWhile_eq_prefix [where P = "\<lambda>x. snd x \<le> t", OF le gt])
  then show ?thesis using pre us' t tail by (simp add: deadlines_append)
qed

section \<open>Walking the queue\<close>

lemma cqueue_distinct: "cqueue s k cs \<Longrightarrow> distinct cs"
  using dlist_distinct by (fastforce simp: cqueue_def distinct_map)

lemma first_cqueue: "cqueue s k cs \<Longrightarrow> first k s = hd_opt cs"
proof -
  assume q: "cqueue s k cs"
  then have "list_empty (Callouts_list k) (cq s) \<longleftrightarrow> cs = []"
    by (simp add: cqueue_def kl.rep_empty)
  moreover have "nextp (cq s) (Callouts_list k) = hd (map C_node cs @ [Callouts_list k])"
    by (rule kl.rep_head) (use q in \<open>simp add: cqueue_def\<close>)
  ultimately show ?thesis by (cases cs) (auto simp: first_def)
qed

lemma next_cqueue: "cqueue s k (xs @ c # ys) \<Longrightarrow> next_c k c s = hd_opt ys"
proof -
  assume "cqueue s k (xs @ c # ys)"
  then have "nextp (cq s) (C_node c) = hd (map C_node ys @ [Callouts_list k])"
    using kl.rep_succ [of "cq s" "Callouts_list k" "map C_node xs" "C_node c" "map C_node ys"]
    by (simp add: cqueue_def)
  then show ?thesis by (cases ys) (auto simp: next_c_def)
qed

lemma cqueue_upd_callout [simp]: "cqueue (upd_callout c f s) k cs = cqueue s k cs"
  by (simp add: cqueue_def upd_callout_def)

lemma cqueue_upd_mt [simp]: "cqueue (upd_mt f s) k cs = cqueue s k cs"
  by (simp add: cqueue_def upd_mt_def)

lemma upd_callout_sel [simp]:
  "callouts (upd_callout c f s) = (callouts s)(c := f (callouts s c))"
  "cq (upd_callout c f s) = cq s" "mi_tmr (upd_callout c f s) = mi_tmr s"
  "pcpu_id (upd_callout c f s) = pcpu_id s" "hw (upd_callout c f s) = hw s"
  "cfg_smp (upd_callout c f s) = cfg_smp s" "c_locks (upd_callout c f s) = c_locks s"
  "threads (upd_callout c f s) = threads s" "pc_curthread (upd_callout c f s) = pc_curthread s"
  by (simp_all add: upd_callout_def)

lemma upd_callout_overwrite [simp]: "(upd_callout c f s)\<lparr>callouts := co\<rparr> = s\<lparr>callouts := co\<rparr>"
  by (simp add: upd_callout_def)

lemma callout_ticks_id [simp]: "r\<lparr>c_ticks := c_ticks r\<rparr> = r" for r :: mdx_callout
  by (cases r) simp

section \<open>Insertion\<close>

text \<open>The search stops at the first callout due later than \<open>c0\<close>; \<open>us\<close> are the callouts it
  passes.\<close>

lemma set_one_loop_spec:
  assumes "cqueue s k (xs @ ys)" and "c0 \<notin> set (xs @ ys)"
  shows "\<exists>us vs co. ys = us @ vs \<and>
     set_one_loop k c0 (hd_opt ys) s =
       Some (hd_opt vs, s\<lparr>callouts := co, cq :=
         (case vs of [] \<Rightarrow> cq s | v # _ \<Rightarrow> list_insert (C_node v) (C_node c0) (cq s))\<rparr>) \<and>
     sum_list (map (ticks_of s) us) \<le> ticks_of s c0 \<and>
     unat (c_ticks (co c0)) = ticks_of s c0 - sum_list (map (ticks_of s) us) \<and>
     (\<forall>v ws. vs = v # ws \<longrightarrow> unat (c_ticks (co c0)) < ticks_of s v \<and>
        unat (c_ticks (co v)) = ticks_of s v - unat (c_ticks (co c0))) \<and>
     (\<forall>c. (callouts s c)\<lparr>c_ticks := c_ticks (co c)\<rparr> = co c) \<and>
     (\<forall>c. c \<noteq> c0 \<longrightarrow> hd_opt vs \<noteq> Some c \<longrightarrow> co c = callouts s c)"
  using assms
proof (induction ys arbitrary: xs s)
  case Nil
  show ?case
    by (rule ex3I [of _ "[]" "[]" "callouts s"])
       (simp add: set_one_loop.simps)
next
  case (Cons y ys)
  have y: "y \<noteq> c0" "c0 \<noteq> y" using Cons.prems by auto
  show ?case
  proof (cases "c_ticks (callouts s y) > c_ticks (callouts s c0)")
    case True
    let ?co = "(callouts s)(y := (callouts s y)\<lparr>c_ticks := c_ticks (callouts s y) - c_ticks (callouts s c0)\<rparr>)"
    have t: "unat (c_ticks (callouts s y) - c_ticks (callouts s c0)) = ticks_of s y - ticks_of s c0"
      using True by (intro unat_diff_le) simp
    have lt: "ticks_of s c0 < ticks_of s y" using True by (simp add: word_less_unat)
    have "set_one_loop k c0 (Some y) s =
        Some (Some y, s\<lparr>callouts := ?co, cq := list_insert (C_node y) (C_node c0) (cq s)\<rparr>)"
      using True by (subst set_one_loop.simps) (simp add: Let_def upd_callout_def)
    then show ?thesis
      by (intro ex3I [of _ "[]" "y # ys" ?co]) (use y t lt in \<open>simp add: fun_upd_def\<close>)
  next
    case False
    let ?co = "(callouts s)(c0 := (callouts s c0)\<lparr>c_ticks := c_ticks (callouts s c0) - c_ticks (callouts s y)\<rparr>)"
    let ?s = "s\<lparr>callouts := ?co\<rparr>"
    have le: "c_ticks (callouts s y) \<le> c_ticks (callouts s c0)" using False by simp
    have t0: "ticks_of ?s c0 = ticks_of s c0 - ticks_of s y"
      using unat_diff_le [OF le] by simp
    have q: "cqueue ?s k ((xs @ [y]) @ ys)" "c0 \<notin> set ((xs @ [y]) @ ys)"
      using Cons.prems by (simp_all add: cqueue_def)
    have nx: "next_c k y ?s = hd_opt ys"
      using next_cqueue [of ?s k xs y ys] q(1) by simp
    have step: "set_one_loop k c0 (hd_opt (y # ys)) s = set_one_loop k c0 (hd_opt ys) ?s"
      using False nx by (subst set_one_loop.simps) (simp add: Let_def upd_callout_def)
    obtain us vs co where ih: "ys = us @ vs"
      "set_one_loop k c0 (hd_opt ys) ?s = Some (hd_opt vs, ?s\<lparr>callouts := co, cq :=
         (case vs of [] \<Rightarrow> cq ?s | v # _ \<Rightarrow> list_insert (C_node v) (C_node c0) (cq ?s))\<rparr>)"
      "sum_list (map (ticks_of ?s) us) \<le> ticks_of ?s c0"
      "unat (c_ticks (co c0)) = ticks_of ?s c0 - sum_list (map (ticks_of ?s) us)"
      "\<forall>v ws. vs = v # ws \<longrightarrow> unat (c_ticks (co c0)) < ticks_of ?s v \<and>
        unat (c_ticks (co v)) = ticks_of ?s v - unat (c_ticks (co c0))"
      "\<forall>c. (callouts ?s c)\<lparr>c_ticks := c_ticks (co c)\<rparr> = co c"
      "\<forall>c. c \<noteq> c0 \<longrightarrow> hd_opt vs \<noteq> Some c \<longrightarrow> co c = callouts ?s c"
      using Cons.IH [OF q] by (elim exE conjE) (rule that)
    have c0us: "c0 \<notin> set us" "c0 \<notin> set vs" using Cons.prems(2) ih(1) by auto
    then have sum: "map (ticks_of ?s) us = map (ticks_of s) us" by (auto intro: map_cong)
    have ly: "ticks_of s y \<le> ticks_of s c0" using le by (simp add: word_le_unat)
    show ?thesis
    proof (rule ex3I [of _ "y # us" vs co], intro conjI allI impI)
      show "y # ys = (y # us) @ vs" using ih(1) by simp
      show "set_one_loop k c0 (hd_opt (y # ys)) s = Some (hd_opt vs, s\<lparr>callouts := co, cq :=
         (case vs of [] \<Rightarrow> cq s | v # _ \<Rightarrow> list_insert (C_node v) (C_node c0) (cq s))\<rparr>)"
        unfolding step ih(2) by (cases vs) simp_all
      show "sum_list (map (ticks_of s) (y # us)) \<le> ticks_of s c0"
        using ih(3) t0 ly unfolding sum by simp
      show "unat (c_ticks (co c0)) = ticks_of s c0 - sum_list (map (ticks_of s) (y # us))"
        using ih(4) t0 unfolding sum by simp
      show "unat (c_ticks (co c0)) < ticks_of s v"
        "unat (c_ticks (co v)) = ticks_of s v - unat (c_ticks (co c0))" if "vs = v # ws" for v ws
        using ih(5) that c0us by auto
      show "(callouts s c)\<lparr>c_ticks := c_ticks (co c)\<rparr> = co c" for c
        using ih(6) [rule_format, of c] by (cases "c = c0") simp_all
      show "co c = callouts s c" if "c \<noteq> c0" "hd_opt vs \<noteq> Some c" for c
        using ih(7) that by simp
    qed
  qed
qed

text \<open>Callouts keep everything but their ticks, and the queues of the other CPUs are
  untouched.\<close>

lemma callout_insert_spec:
  assumes q: "cqueue s k cs" and c0: "c0 \<notin> set cs"
  shows "\<exists>cs' co h. callout_insert k c0 s = Some (s\<lparr>callouts := co, cq := h\<rparr>) \<and>
     cqueue (s\<lparr>callouts := co, cq := h\<rparr>) k cs' \<and> set cs' = insert c0 (set cs) \<and>
     deadlines (\<lambda>c. unat (c_ticks (co c))) 0 cs' =
       dl_insert (c0, ticks_of s c0) (deadlines (ticks_of s) 0 cs) \<and>
     (\<forall>c. (callouts s c)\<lparr>c_ticks := c_ticks (co c)\<rparr> = co c) \<and>
     (\<forall>c. c \<notin> set cs' \<longrightarrow> co c = callouts s c) \<and>
     (\<forall>j ds. j \<noteq> k \<longrightarrow> dlist (cq s) (Callouts_list j) (map C_node ds) \<longrightarrow>
        c0 \<notin> set ds \<longrightarrow> set ds \<inter> set cs = {} \<longrightarrow> dlist h (Callouts_list j) (map C_node ds))"
proof -
  have pre: "cqueue s k ([] @ cs)" "c0 \<notin> set ([] @ cs)" using q c0 by simp_all
  from set_one_loop_spec [OF pre] obtain us vs co where
    loop: "cs = us @ vs" "set_one_loop k c0 (hd_opt cs) s =
       Some (hd_opt vs, s\<lparr>callouts := co, cq :=
         (case vs of [] \<Rightarrow> cq s | v # _ \<Rightarrow> list_insert (C_node v) (C_node c0) (cq s))\<rparr>)"
    "sum_list (map (ticks_of s) us) \<le> ticks_of s c0"
    "unat (c_ticks (co c0)) = ticks_of s c0 - sum_list (map (ticks_of s) us)"
    "\<forall>v ws. vs = v # ws \<longrightarrow> unat (c_ticks (co c0)) < ticks_of s v \<and>
        unat (c_ticks (co v)) = ticks_of s v - unat (c_ticks (co c0))"
    "\<forall>c. (callouts s c)\<lparr>c_ticks := c_ticks (co c)\<rparr> = co c"
    "\<forall>c. c \<noteq> c0 \<longrightarrow> hd_opt vs \<noteq> Some c \<longrightarrow> co c = callouts s c"
    by (elim exE conjE) (rule that)
  let ?h = "case vs of [] \<Rightarrow> list_append (Callouts_list k) (C_node c0) (cq s)
    | v # _ \<Rightarrow> list_insert (C_node v) (C_node c0) (cq s)"
  have ds: "distinct (us @ vs)" using cqueue_distinct [OF q] loop(1) by simp
  have dl: "dlist (cq s) (Callouts_list k) (map C_node us @ map C_node vs)"
    using q loop(1) by (simp add: cqueue_def)
  have fresh: "C_node c0 \<notin> set (Callouts_list k # map C_node us @ map C_node vs)"
    using c0 loop(1) by auto
  have res: "callout_insert k c0 s = Some (s\<lparr>callouts := co, cq := ?h\<rparr>)"
    unfolding callout_insert_def first_cqueue [OF q] loop(2) by (cases vs) simp_all
  have q': "dlist ?h (Callouts_list k) (map C_node us @ C_node c0 # map C_node vs)"
    using dl fresh by (cases vs) (simp_all add: kl.rep_append kl.rep_insert)
  have dead: "deadlines (\<lambda>c. unat (c_ticks (co c))) 0 (us @ c0 # vs) =
      dl_insert (c0, ticks_of s c0) (deadlines (ticks_of s) 0 (us @ vs))"
  proof (rule deadlines_insert [where g = "\<lambda>c. unat (c_ticks (co c))", OF loop(3)])
    show "distinct (us @ vs)" by (rule ds)
    show "unat (c_ticks (co c0)) = ticks_of s c0 - sum_list (map (ticks_of s) us)" by (rule loop(4))
    show "c0 \<notin> set (us @ vs)" using c0 loop(1) by simp
    show "unat (c_ticks (co c)) = ticks_of s c" if "c \<in> set us" for c
    proof -
      have "c \<noteq> c0" "hd_opt vs \<noteq> Some c" using that c0 loop(1) ds by (cases vs; auto)+
      then show ?thesis using loop(7) by simp
    qed
    show "unat (c_ticks (co c0)) < ticks_of s v \<and> unat (c_ticks (co v)) = ticks_of s v - unat (c_ticks (co c0)) \<and>
        (\<forall>c\<in>set ws. unat (c_ticks (co c)) = ticks_of s c)" if "vs = v # ws" for v ws
    proof -
      have "co c = callouts s c" if "c \<in> set ws" for c
        using loop(7) that \<open>vs = v # ws\<close> c0 loop(1) ds by auto
      then show ?thesis using loop(5) that by simp
    qed
  qed
  show ?thesis
  proof (rule ex3I [of _ "us @ c0 # vs" co ?h], intro conjI allI impI)
    show "callout_insert k c0 s = Some (s\<lparr>callouts := co, cq := ?h\<rparr>)" by (rule res)
    show "cqueue (s\<lparr>callouts := co, cq := ?h\<rparr>) k (us @ c0 # vs)"
      using q' by (simp add: cqueue_def)
    show "set (us @ c0 # vs) = insert c0 (set cs)" using loop(1) by auto
    show "deadlines (\<lambda>c. unat (c_ticks (co c))) 0 (us @ c0 # vs) =
       dl_insert (c0, ticks_of s c0) (deadlines (ticks_of s) 0 cs)" using dead loop(1) by simp
    show "(callouts s c)\<lparr>c_ticks := c_ticks (co c)\<rparr> = co c" for c using loop(6) by blast
    show "co c = callouts s c" if "c \<notin> set (us @ c0 # vs)" for c
      using loop(7) that by (cases vs) auto
    show "dlist ?h (Callouts_list j) (map C_node ds)"
      if j: "j \<noteq> k" and o: "dlist (cq s) (Callouts_list j) (map C_node ds)"
        and d: "c0 \<notin> set ds" "set ds \<inter> set cs = {}" for j ds
    proof (cases vs)
      case Nil
      have "dlist (list_append (Callouts_list k) (C_node c0) (cq s)) (Callouts_list j) (map C_node ds)"
        using dl o fresh by (rule kl.append_other) (use j d loop(1) Nil in auto)
      then show ?thesis using Nil by simp
    next
      case (Cons v ws)
      have "dlist (list_insert (C_node v) (C_node c0) (cq s)) (Callouts_list j) (map C_node ds)"
        using dl o unfolding Cons list.map
        by (rule kl.insert_other) (use j d loop(1) Cons in auto)
      then show ?thesis using Cons by simp
    qed
  qed
qed

section \<open>The callout structures of all CPUs\<close>

abbreviation active :: "('h, 'x) kstate_scheme \<Rightarrow> cptr \<Rightarrow> bool" where
  "active s c \<equiv> c_flags (callouts s c) AND CALLOUT_FLAG_ACTIVE \<noteq> 0"

abbreviation absq :: "('h, 'x) kstate_scheme \<Rightarrow> (cpuid \<Rightarrow> cptr list) \<Rightarrow> cpuid \<Rightarrow> (cptr \<times> nat) list" where
  "absq s Q k \<equiv> deadlines (ticks_of s) 0 (Q k)"

text \<open>Well-formedness: every CPU has a well-formed queue, a callout is marked active exactly
  when it is in the queue of the CPU it was set on, and no deadline exceeds 32 bits.\<close>

definition cwf :: "('h, 'x) kstate_scheme \<Rightarrow> (cpuid \<Rightarrow> cptr list) \<Rightarrow> bool" where
  "cwf s Q \<longleftrightarrow>
     (\<forall>k < cfg_ncpu s. cqueue s k (Q k)) \<and>
     (\<forall>k < cfg_ncpu s. \<forall>c \<in> set (Q k). c_cpuid (callouts s c) = k \<and> active s c) \<and>
     (\<forall>c. active s c \<longrightarrow> c_cpuid (callouts s c) < cfg_ncpu s \<and> c \<in> set (Q (c_cpuid (callouts s c)))) \<and>
     (\<forall>k < cfg_ncpu s. \<forall>x \<in> set (absq s Q k). snd x < 2 ^ 32)"

text \<open>A timer that \<^verbatim>\<open>mdx_callout_register\<close> accepts, and the ticks it says have elapsed.\<close>

definition timer_ok :: "('h, 'x) kstate_scheme \<Rightarrow> bool" where
  "timer_ok s \<longleftrightarrow> (\<exists>mt. mi_tmr s = Some mt \<and> mt_start mt \<noteq> None \<and> mt_stop mt \<noteq> None \<and> mt_count mt \<noteq> None)"

definition elapsed_ticks :: "u32 \<Rightarrow> u32 \<Rightarrow> u32 \<Rightarrow> u32" where
  "elapsed_ticks maxcnt saved count =
     (if count = saved then 0 else if count > saved then count - saved else maxcnt - saved + count)"

definition elapsed_now :: "('h, 'x) kstate_scheme \<Rightarrow> u32" where
  "elapsed_now s =
     (case mi_tmr s of None \<Rightarrow> 0
      | Some mt \<Rightarrow> (case mt_count mt of None \<Rightarrow> 0
          | Some read \<Rightarrow> elapsed_ticks (mt_maxcnt mt) (mt_count_saved mt (pcpu_id s))
                           (read (pcpu_id s) (hw s))))"

definition timer_running :: "('h, 'x) kstate_scheme \<Rightarrow> bool" where
  "timer_running s \<longleftrightarrow> (\<exists>mt. mi_tmr s = Some mt \<and> mt_states mt (pcpu_id s) = MI_TIMER_STATE_RUNNING)"

lemma flag_bits [simp]:
  "(x OR CALLOUT_FLAG_ACTIVE) AND CALLOUT_FLAG_ACTIVE \<noteq> 0"
  "(x AND NOT CALLOUT_FLAG_ACTIVE) AND CALLOUT_FLAG_ACTIVE = 0"
proof -
  have "bit ((x OR 1) AND 1) 0" by (simp add: bit_simps)
  then show "(x OR CALLOUT_FLAG_ACTIVE) AND CALLOUT_FLAG_ACTIVE \<noteq> 0"
    by (auto simp: CALLOUT_FLAG_ACTIVE_def)
  show "(x AND NOT CALLOUT_FLAG_ACTIVE) AND CALLOUT_FLAG_ACTIVE = 0"
    by (simp add: CALLOUT_FLAG_ACTIVE_def and.assoc)
qed

lemma CALLOUT_FLAG_ACTIVE_neq_0 [simp]: "CALLOUT_FLAG_ACTIVE \<noteq> 0"
  by (simp add: CALLOUT_FLAG_ACTIVE_def)

lemma get_elapsed_eq:
  assumes "in_critical s" and "timer_ok s"
  shows "\<exists>count. get_elapsed s = Some (elapsed_now s, count)"
  using assms by (auto simp: get_elapsed_def timer_ok_def elapsed_now_def elapsed_ticks_def Let_def)

lemma cwf_queue: "cwf s Q \<Longrightarrow> k < cfg_ncpu s \<Longrightarrow> cqueue s k (Q k)"
  by (simp add: cwf_def)

lemma cwf_inactive: "cwf s Q \<Longrightarrow> \<not> active s c \<Longrightarrow> k < cfg_ncpu s \<Longrightarrow> c \<notin> set (Q k)"
  by (auto simp: cwf_def)

lemma cwf_active: "cwf s Q \<Longrightarrow> active s c \<Longrightarrow>
    c_cpuid (callouts s c) < cfg_ncpu s \<and> c \<in> set (Q (c_cpuid (callouts s c)))"
  by (simp add: cwf_def)

lemma cwf_cpuid: "cwf s Q \<Longrightarrow> k < cfg_ncpu s \<Longrightarrow> c \<in> set (Q k) \<Longrightarrow> c_cpuid (callouts s c) = k"
  by (simp add: cwf_def)

lemma cwf_mem: "cwf s Q \<Longrightarrow> k < cfg_ncpu s \<Longrightarrow> c \<in> set (Q k) \<longleftrightarrow> active s c \<and> c_cpuid (callouts s c) = k"
  by (auto simp: cwf_def)

lemma cwfI:
  assumes "\<And>j. j < cfg_ncpu s \<Longrightarrow> cqueue s j (Q j)"
    and "\<And>j c. j < cfg_ncpu s \<Longrightarrow> c \<in> set (Q j) \<longleftrightarrow> active s c \<and> c_cpuid (callouts s c) = j"
    and "\<And>c. active s c \<Longrightarrow> c_cpuid (callouts s c) < cfg_ncpu s"
    and "\<And>j x. j < cfg_ncpu s \<Longrightarrow> x \<in> set (absq s Q j) \<Longrightarrow> snd x < 2 ^ 32"
  shows "cwf s Q"
  unfolding cwf_def using assms by blast

lemma cwf_fit: "cwf s Q \<Longrightarrow> k < cfg_ncpu s \<Longrightarrow> x \<in> set (absq s Q k) \<Longrightarrow> snd x < 2 ^ 32"
  unfolding cwf_def by blast

lemma cwf_disjoint:
  assumes "cwf s Q" and "j < cfg_ncpu s" and "k < cfg_ncpu s" and "j \<noteq> k"
  shows "set (Q j) \<inter> set (Q k) = {}"
  using cwf_cpuid [OF assms(1,2)] cwf_cpuid [OF assms(1,3)] assms(4) by blast

section \<open>Setting a callout\<close>

text \<open>The ticks a new callout is given: its own, plus what has elapsed on a running timer.\<close>

definition set_deadline :: "('h, 'x) kstate_scheme \<Rightarrow> u32 \<Rightarrow> nat" where
  "set_deadline s ticks = unat ticks + (if timer_running s then unat (elapsed_now s) else 0)"

lemma mi_tmr_start_ok:
  "timer_ok s \<Longrightarrow> \<exists>w. mi_tmr_start t s = Some (s\<lparr>hw := w\<rparr>)"
  by (auto simp: mi_tmr_start_def timer_ok_def)

text \<open>What the last step of \<^verbatim>\<open>mdx_callout_set_one\<close> may touch: the timer and its device.\<close>

lemma mdx_callout_set_one_ok:
  assumes tm: "timer_ok s" and crit: "in_critical s" and k: "k = pcpu_id s"
    and q: "cqueue s k cs" "c0 \<notin> set cs"
    and fit: "set_deadline s (c_ticks (callouts s c0)) < 2 ^ 32"
  shows "\<exists>cs' co h m w. mdx_callout_set_one c0 s = Some (s\<lparr>callouts := co, cq := h, mi_tmr := m, hw := w\<rparr>) \<and>
     timer_ok (s\<lparr>callouts := co, cq := h, mi_tmr := m, hw := w\<rparr>) \<and>
     dlist h (Callouts_list k) (map C_node cs') \<and> set cs' = insert c0 (set cs) \<and>
     deadlines (\<lambda>c. unat (c_ticks (co c))) 0 cs' =
       dl_insert (c0, set_deadline s (c_ticks (callouts s c0))) (deadlines (ticks_of s) 0 cs) \<and>
     (\<forall>c. (callouts s c)\<lparr>c_ticks := c_ticks (co c)\<rparr> = co c) \<and>
     (\<forall>c. c \<notin> set cs' \<longrightarrow> co c = callouts s c) \<and>
     (\<forall>j ds. j \<noteq> k \<longrightarrow> dlist (cq s) (Callouts_list j) (map C_node ds) \<longrightarrow>
        c0 \<notin> set ds \<longrightarrow> set ds \<inter> set cs = {} \<longrightarrow> dlist h (Callouts_list j) (map C_node ds))"
proof -
  from tm obtain mt start stop read where mt: "mi_tmr s = Some mt" "mt_start mt = Some start"
    "mt_stop mt = Some stop" "mt_count mt = Some read" by (auto simp: timer_ok_def)
  define e where "e = (if timer_running s then elapsed_now s else 0)"
  let ?s = "if timer_running s then upd_callout c0 (\<lambda>r. r\<lparr>c_ticks := c_ticks r + e\<rparr>) s else s"
  have run: "timer_running s \<longleftrightarrow> mt_states mt k = MI_TIMER_STATE_RUNNING"
    using mt k by (simp add: timer_running_def)
  obtain count where ge: "get_elapsed s = Some (elapsed_now s, count)"
    using get_elapsed_eq [OF crit tm] by blast
  have q': "cqueue ?s k cs" using q(1) by simp
  have t0: "ticks_of ?s c0 = set_deadline s (c_ticks (callouts s c0))"
    using fit by (auto simp: set_deadline_def e_def unat_add_small)
  have cs: "deadlines (ticks_of ?s) 0 cs = deadlines (ticks_of s) 0 cs"
    using q(2) by (intro deadlines_cong) auto
  from callout_insert_spec [OF q' q(2)] obtain cs' co h where ins:
    "callout_insert k c0 ?s = Some (?s\<lparr>callouts := co, cq := h\<rparr>)"
    "cqueue (?s\<lparr>callouts := co, cq := h\<rparr>) k cs'" "set cs' = insert c0 (set cs)"
    "deadlines (\<lambda>c. unat (c_ticks (co c))) 0 cs' =
       dl_insert (c0, ticks_of ?s c0) (deadlines (ticks_of ?s) 0 cs)"
    "\<forall>c. (callouts ?s c)\<lparr>c_ticks := c_ticks (co c)\<rparr> = co c"
    "\<forall>c. c \<notin> set cs' \<longrightarrow> co c = callouts ?s c"
    "\<forall>j ds. j \<noteq> k \<longrightarrow> dlist (cq ?s) (Callouts_list j) (map C_node ds) \<longrightarrow>
        c0 \<notin> set ds \<longrightarrow> set ds \<inter> set cs = {} \<longrightarrow> dlist h (Callouts_list j) (map C_node ds)"
    by (elim exE conjE) (rule that)
  let ?s1 = "s\<lparr>callouts := co, cq := h\<rparr>"
  have s1: "?s\<lparr>callouts := co, cq := h\<rparr> = ?s1" by (simp add: upd_callout_def)
  have tm1: "timer_ok ?s1" using tm by (simp add: timer_ok_def)
  have fst1: "first k ?s1 = hd_opt cs'" using first_cqueue [of ?s1] ins(2) unfolding s1 by simp
  obtain c1 where c1: "first k ?s1 = Some c1"
    using fst1 ins(3) by (cases cs') auto
  let ?rd = "\<lambda>m. m\<lparr>mt_states := (mt_states m)(k := MI_TIMER_STATE_RUNNING),
                   mt_count_saved := (mt_count_saved m)(k := read k (hw s))\<rparr>"
  have "\<exists>m w. mdx_callout_set_one c0 s = Some (?s1\<lparr>mi_tmr := m, hw := w\<rparr>) \<and>
      timer_ok (?s1\<lparr>mi_tmr := m, hw := w\<rparr>)"
  proof (cases "mt_states mt k")
    case MI_TIMER_STATE_RUNNING
    then have "mdx_callout_set_one c0 s =
        (if first k ?s1 = Some c0 then mi_tmr_start (c_ticks (co c0) - e) ?s1 else Some ?s1)"
      using crit mt k run ge ins(1) unfolding mdx_callout_set_one_def s1 e_def by simp
    moreover obtain w where "mi_tmr_start (c_ticks (co c0) - e) ?s1 = Some (?s1\<lparr>hw := w\<rparr>)"
      using mi_tmr_start_ok [OF tm1] by blast
    ultimately have "mdx_callout_set_one c0 s = Some (?s1\<lparr>mi_tmr := mi_tmr s,
        hw := (if first k ?s1 = Some c0 then w else hw s)\<rparr>)"
      by (simp add: kstate_upd_same)
    moreover have "timer_ok (?s1\<lparr>mi_tmr := mi_tmr s,
        hw := (if first k ?s1 = Some c0 then w else hw s)\<rparr>)" using tm by (simp add: timer_ok_def)
    ultimately show ?thesis by blast
  next
    case MI_TIMER_STATE_EXCEPTION
    then have "mdx_callout_set_one c0 s = Some ?s1"
      using crit mt k run ins(1) unfolding mdx_callout_set_one_def s1 by simp
    then show ?thesis
      using tm by (intro exI [of _ "mi_tmr s"] exI [of _ "hw s"])
        (simp add: kstate_upd_same timer_ok_def)
  next
    case MI_TIMER_STATE_READY
    let ?s2 = "?s1\<lparr>mi_tmr := Some (?rd mt)\<rparr>"
    have f2: "first k ?s2 = Some c1" using c1 by (simp add: first_def split: if_splits)
    have "mdx_callout_set_one c0 s = mi_tmr_start (c_ticks (co c1)) ?s2"
      using MI_TIMER_STATE_READY crit mt k run ins(1) f2
      unfolding mdx_callout_set_one_def s1 by (simp add: upd_mt_def Let_def)
    moreover have "timer_ok ?s2" using mt by (simp add: timer_ok_def)
    ultimately show ?thesis
      using mi_tmr_start_ok [of ?s2 "c_ticks (co c1)"] by (auto simp: timer_ok_def)
  qed
  then obtain m w where mw: "mdx_callout_set_one c0 s = Some (?s1\<lparr>mi_tmr := m, hw := w\<rparr>)"
    "timer_ok (?s1\<lparr>mi_tmr := m, hw := w\<rparr>)" by blast
  show ?thesis
  proof (rule exI [of _ cs'], rule exI [of _ co], rule exI [of _ h], rule exI [of _ m],
      rule exI [of _ w], intro conjI)
    show "mdx_callout_set_one c0 s = Some (?s1\<lparr>mi_tmr := m, hw := w\<rparr>)" by (rule mw(1))
    show "timer_ok (?s1\<lparr>mi_tmr := m, hw := w\<rparr>)" by (rule mw(2))
    show "dlist h (Callouts_list k) (map C_node cs')" using ins(2) by (simp add: cqueue_def)
    show "set cs' = insert c0 (set cs)" by (rule ins(3))
    show "deadlines (\<lambda>c. unat (c_ticks (co c))) 0 cs' =
       dl_insert (c0, set_deadline s (c_ticks (callouts s c0))) (deadlines (ticks_of s) 0 cs)"
      unfolding ins(4) t0 cs ..
    show "\<forall>c. (callouts s c)\<lparr>c_ticks := c_ticks (co c)\<rparr> = co c"
    proof
      fix c
      show "(callouts s c)\<lparr>c_ticks := c_ticks (co c)\<rparr> = co c"
        using ins(5) [rule_format, of c] by (cases "c = c0") (auto split: if_splits)
    qed
    show "\<forall>c. c \<notin> set cs' \<longrightarrow> co c = callouts s c" using ins(3,6) by auto
    show "\<forall>j ds. j \<noteq> k \<longrightarrow> dlist (cq s) (Callouts_list j) (map C_node ds) \<longrightarrow>
        c0 \<notin> set ds \<longrightarrow> set ds \<inter> set cs = {} \<longrightarrow> dlist h (Callouts_list j) (map C_node ds)"
      using ins(7) by (simp split: if_splits)
  qed
qed

lemma in_critical_upd_callout [simp]: "in_critical (upd_callout c f s) = in_critical s"
  by (simp add: in_critical_def)

lemma timer_upd_callout [simp]:
  "timer_ok (upd_callout c f s) = timer_ok s" "elapsed_now (upd_callout c f s) = elapsed_now s"
  "timer_running (upd_callout c f s) = timer_running s"
  by (simp_all add: timer_ok_def elapsed_now_def timer_running_def upd_callout_def
      cong: option.case_cong)

text \<open>The operations change only the callouts, their queues and the timer.\<close>

definition callout_frame :: "('h, 'x) kstate_scheme \<Rightarrow> ('h, 'x) kstate_scheme \<Rightarrow> bool" where
  "callout_frame s s' \<longleftrightarrow> s'\<lparr>callouts := callouts s, cq := cq s, mi_tmr := mi_tmr s,
     hw := hw s\<rparr> = s"

lemma callout_frame_refl [simp]: "callout_frame s s"
  by (simp add: callout_frame_def)

lemma callout_frameE:
  assumes "callout_frame s s'"
  obtains co h m w where "s' = s\<lparr>callouts := co, cq := h, mi_tmr := m, hw := w\<rparr>"
proof -
  have "s' = (s'\<lparr>callouts := callouts s, cq := cq s, mi_tmr := mi_tmr s, hw := hw s\<rparr>)
      \<lparr>callouts := callouts s', cq := cq s', mi_tmr := mi_tmr s', hw := hw s'\<rparr>"
    by simp
  then show ?thesis using that assms unfolding callout_frame_def by simp
qed

lemma callout_frame_sel:
  assumes "callout_frame s s'"
  shows "pcpu_id s' = pcpu_id s" "cfg_ncpu s' = cfg_ncpu s" "cfg_smp s' = cfg_smp s"
    "threads s' = threads s" "tq s' = tq s" "pc_curthread s' = pc_curthread s"
    "intr_on s' = intr_on s" "sems s' = sems s" "sched_l s' = sched_l s" "pcq s' = pcq s"
    "tokens s' = tokens s" "timers s' = timers s" "pending_ipis s' = pending_ipis s" "sip s' = sip s"
    "kheap s' = kheap s" "trapframes s' = trapframes s"
    "cfg_nprio s' = cfg_nprio s" "c_locks s' = c_locks s"
  using assms by (auto elim!: callout_frameE)

lemma callout_frame_trans: "callout_frame s s' \<Longrightarrow> callout_frame s' s'' \<Longrightarrow> callout_frame s s''"
  by (elim callout_frameE) (simp add: callout_frame_def)

text \<open>The outcome of setting \<open>c\<close> to fire \<open>d\<close> ticks from the last reading of the timer.\<close>

definition callout_set_post :: "('h, 'x) kstate_scheme \<Rightarrow> (cpuid \<Rightarrow> cptr list) \<Rightarrow> cptr \<Rightarrow> nat \<Rightarrow>
    ('h, 'x) kstate_scheme \<Rightarrow> (cpuid \<Rightarrow> cptr list) \<Rightarrow> bool" where
  "callout_set_post s Q c d s' Q' \<longleftrightarrow>
     cwf s' Q' \<and> timer_ok s' \<and> active s' c \<and>
     absq s' Q' (pcpu_id s) = dl_insert (c, d) (absq s Q (pcpu_id s)) \<and>
     (\<forall>j < cfg_ncpu s. j \<noteq> pcpu_id s \<longrightarrow> Q' j = Q j \<and> absq s' Q' j = absq s Q j)"

text \<open>Setting an inactive callout succeeds, queues it by its deadline on this CPU and keeps
  every other queue.\<close>

lemma set_ticks_locked_ok:
  assumes wf: "cwf s Q" and tm: "timer_ok s" and crit: "in_critical s"
    and k: "pcpu_id s < cfg_ncpu s" and new: "\<not> active s c" and t: "ticks \<noteq> 0"
    and fit: "set_deadline s ticks < 2 ^ 32"
  shows "\<exists>s' Q'. mdx_callout_set_ticks_locked c ticks f a s = Some (MDX_OK, s') \<and>
     callout_set_post s Q c (set_deadline s ticks) s' Q' \<and>
     c_func (callouts s' c) = f \<and> c_arg (callouts s' c) = a \<and>
     callout_frame s s'"
proof -
  let ?k = "pcpu_id s"
  let ?s = "upd_callout c (\<lambda>r. r\<lparr>c_ticks_orig := ticks, c_ticks := ticks, c_func := f,
      c_arg := a, c_cpuid := ?k\<rparr>) s"
  have tm': "timer_ok ?s" and crit': "in_critical ?s" and k': "?k = pcpu_id ?s"
    using tm crit by simp_all
  have q: "cqueue ?s ?k (Q ?k)" using cwf_queue [OF wf k] by simp
  have notin: "c \<notin> set (Q j)" if "j < cfg_ncpu s" for j
    using cwf_inactive [OF wf] new that by blast
  have sd: "set_deadline ?s (c_ticks (callouts ?s c)) = set_deadline s ticks"
    by (simp add: set_deadline_def)
  have old: "deadlines (ticks_of ?s) 0 (Q j) = absq s Q j" if "j < cfg_ncpu s" for j
    using notin [OF that] by (intro deadlines_cong) auto
  have fit': "set_deadline ?s (c_ticks (callouts ?s c)) < 2 ^ 32" using fit sd by simp
  from mdx_callout_set_one_ok [OF tm' crit' k' q notin [OF k] fit']
  obtain cs' co h m w where one:
    "mdx_callout_set_one c ?s = Some (?s\<lparr>callouts := co, cq := h, mi_tmr := m, hw := w\<rparr>)"
    "timer_ok (?s\<lparr>callouts := co, cq := h, mi_tmr := m, hw := w\<rparr>)"
    "dlist h (Callouts_list ?k) (map C_node cs')" "set cs' = insert c (set (Q ?k))"
    "deadlines (\<lambda>c. unat (c_ticks (co c))) 0 cs' =
       dl_insert (c, set_deadline ?s (c_ticks (callouts ?s c))) (deadlines (ticks_of ?s) 0 (Q ?k))"
    "\<forall>d. (callouts ?s d)\<lparr>c_ticks := c_ticks (co d)\<rparr> = co d"
    "\<forall>d. d \<notin> set cs' \<longrightarrow> co d = callouts ?s d"
    "\<forall>j ds. j \<noteq> ?k \<longrightarrow> dlist (cq ?s) (Callouts_list j) (map C_node ds) \<longrightarrow>
        c \<notin> set ds \<longrightarrow> set ds \<inter> set (Q ?k) = {} \<longrightarrow> dlist h (Callouts_list j) (map C_node ds)"
    by (elim exE conjE) (rule that)
  let ?t = "\<lambda>r. r\<lparr>c_flags := c_flags r OR CALLOUT_FLAG_ACTIVE\<rparr>"
  let ?s' = "upd_callout c ?t (s\<lparr>callouts := co, cq := h, mi_tmr := m, hw := w\<rparr>)"
  let ?Q = "Q(?k := cs')"
  have res: "mdx_callout_set_ticks_locked c ticks f a s = Some (MDX_OK, ?s')"
    using new t crit tm one(1) by (auto simp: mdx_callout_set_ticks_locked_def timer_ok_def)
  have sel: "c_cpuid (callouts ?s' d) = (if d = c then ?k else c_cpuid (callouts s d))"
    "active ?s' d \<longleftrightarrow> d = c \<or> active s d"
    "c_func (callouts ?s' d) = (if d = c then f else c_func (callouts s d))"
    "c_arg (callouts ?s' d) = (if d = c then a else c_arg (callouts s d))"
    "ticks_of ?s' d = unat (c_ticks (co d))" for d
    using arg_cong [OF one(6) [rule_format, of d], of c_cpuid]
      arg_cong [OF one(6) [rule_format, of d], of c_flags]
      arg_cong [OF one(6) [rule_format, of d], of c_func]
      arg_cong [OF one(6) [rule_format, of d], of c_arg]
    by (auto split: if_splits)
  have dj: "dlist h (Callouts_list j) (map C_node (Q j))" if "j < cfg_ncpu s" "j \<noteq> ?k" for j
    using one(8) [rule_format, OF that(2)] cwf_queue [OF wf that(1)] notin [OF that(1)]
      cwf_disjoint [OF wf that(1) k that(2)] by (simp add: cqueue_def)
  have n: "cfg_ncpu ?s' = cfg_ncpu s" by (simp add: upd_callout_def)
  have ab: "absq ?s' ?Q j = (if j = ?k then dl_insert (c, set_deadline s ticks) (absq s Q ?k)
      else absq s Q j)" if "j < cfg_ncpu s" for j
  proof (cases "j = ?k")
    case True
    then show ?thesis unfolding sel using one(5) old [OF k] sd by simp
  next
    case False
    have "unat (c_ticks (co d)) = ticks_of s d" if "d \<in> set (Q j)" for d
    proof -
      have "d \<notin> set cs'" "d \<noteq> c"
        using one(4) that notin [OF \<open>j < cfg_ncpu s\<close>] cwf_disjoint [OF wf \<open>j < cfg_ncpu s\<close> k False] by auto
      then show ?thesis using one(7) by simp
    qed
    then show ?thesis unfolding sel using False by (auto intro: deadlines_cong)
  qed
  have wf': "cwf ?s' ?Q"
  proof (rule cwfI)
    show "cqueue ?s' j (?Q j)" if "j < cfg_ncpu ?s'" for j
      using that one(3) dj unfolding n by (simp add: cqueue_def upd_callout_def)
    show "d \<in> set (?Q j) \<longleftrightarrow> active ?s' d \<and> c_cpuid (callouts ?s' d) = j" if "j < cfg_ncpu ?s'" for j d
      using that one(4) cwf_mem [OF wf, of _ d] new k unfolding n sel by auto
    show "c_cpuid (callouts ?s' d) < cfg_ncpu ?s'" if "active ?s' d" for d
      using that cwf_active [OF wf, of d] k unfolding n sel by auto
    show "snd x < 2 ^ 32" if "j < cfg_ncpu ?s'" "x \<in> set (absq ?s' ?Q j)" for j x
      using that(2) fit cwf_fit [OF wf, of j x] that(1) ab [of j] unfolding n
      by (simp split: if_splits) fastforce
  qed
  have "timer_ok ?s'" "active ?s' c" unfolding sel using one(2) by (simp_all add: timer_ok_def)
  moreover have "absq ?s' ?Q ?k = dl_insert (c, set_deadline s ticks) (absq s Q ?k)"
    using ab [OF k] by simp
  moreover have "?Q j = Q j \<and> absq ?s' ?Q j = absq s Q j" if "j < cfg_ncpu s" "j \<noteq> ?k" for j
    using ab [OF that(1)] that(2) by simp
  ultimately have "callout_set_post s Q c (set_deadline s ticks) ?s' ?Q"
    unfolding callout_set_post_def using wf' by blast
  moreover have "c_func (callouts ?s' c) = f" "c_arg (callouts ?s' c) = a" unfolding sel by simp_all
  moreover have "callout_frame s ?s'" by (simp add: callout_frame_def upd_callout_def)
  ultimately show ?thesis
    using res by (intro exI [of _ ?s'] exI [of _ ?Q]) blast
qed

end
