(* ===== verification/Callout_Ops.thy ===== *)
theory Callout_Ops
  imports Callout_Queue
begin

text \<open>
  The callout operations as the rest of the kernel calls them: locking, setting and
  cancelling a callout, the time a callout has left, and the timer interrupt. Each is shown
  to implement its specification on deadlines.
\<close>

section \<open>States that agree on the callouts\<close>

lemma cwf_cong:
  "callouts t = callouts s \<Longrightarrow> cq t = cq s \<Longrightarrow> cfg_ncpu t = cfg_ncpu s \<Longrightarrow> cwf t Q = cwf s Q"
  by (simp add: cwf_def cqueue_def)

lemma timer_cong:
  assumes "mi_tmr t = mi_tmr s"
  shows "timer_ok t = timer_ok s"
    and "pcpu_id t = pcpu_id s \<Longrightarrow> timer_running t = timer_running s"
    and "pcpu_id t = pcpu_id s \<Longrightarrow> hw t = hw s \<Longrightarrow> elapsed_now t = elapsed_now s"
    and "pcpu_id t = pcpu_id s \<Longrightarrow> hw t = hw s \<Longrightarrow> set_deadline t d = set_deadline s d"
proof -
  show ok: "timer_ok t = timer_ok s" using assms by (simp add: timer_ok_def)
  show run: "timer_running t = timer_running s" if "pcpu_id t = pcpu_id s"
    using assms that by (simp add: timer_running_def)
  show el: "elapsed_now t = elapsed_now s" if "pcpu_id t = pcpu_id s" "hw t = hw s"
    using assms that by (simp add: elapsed_now_def cong: option.case_cong)
  show "set_deadline t d = set_deadline s d" if "pcpu_id t = pcpu_id s" "hw t = hw s"
    using run el that by (simp add: set_deadline_def)
qed

definition callout_free :: "('h, 'x) kstate_scheme \<Rightarrow> cpuid \<Rightarrow> bool" where
  "callout_free s k \<longleftrightarrow> (cfg_smp s \<longrightarrow> c_locks s k = 0)"

text \<open>Taking a free lock changes only the lock word; releasing it puts it back.\<close>

lemma callout_lock_free:
  assumes "callout_free s k"
  obtains l where "callout_lock k s = Some (s\<lparr>c_locks := l\<rparr>)" "cfg_smp s \<Longrightarrow> l = (c_locks s)(k := 1)"
proof (cases "cfg_smp s")
  case True
  then show ?thesis using assms that [of "(c_locks s)(k := 1)"]
    by (simp add: callout_lock_def callout_free_def sl_lock_def)
next
  case False
  then show ?thesis using that [of "c_locks s"] by (simp add: callout_lock_def kstate_upd_same)
qed

lemma callout_unlock_held:
  assumes free: "callout_free s k" and lock: "callout_lock k s = Some s1" and t: "c_locks t = c_locks s1"
    and smp: "cfg_smp t = cfg_smp s"
  shows "callout_unlock k t = Some (t\<lparr>c_locks := c_locks s\<rparr>)"
proof (cases "cfg_smp s")
  case True
  have "c_locks s1 = (c_locks s)(k := 1)" "c_locks s k = 0"
    using True free lock by (auto simp: callout_lock_def callout_free_def sl_lock_def)
  then have "callout_unlock k t = Some (t\<lparr>c_locks := (c_locks s)(k := c_locks s k)\<rparr>)"
    using True smp t by (simp add: callout_unlock_def sl_unlock_def)
  then show ?thesis by (simp only: fun_upd_triv)
next
  case False
  have "s1 = s" using False lock by (simp add: callout_lock_def)
  then have "t\<lparr>c_locks := c_locks s\<rparr> = t" using t by (intro kstate_upd_same) simp
  then show ?thesis using False smp by (simp add: callout_unlock_def)
qed

section \<open>Setting a callout\<close>

lemma callout_set_post_cong:
  assumes "callout_set_post s Q c d s' Q'"
    and "callouts t' = callouts s'" "cq t' = cq s'" "cfg_ncpu t' = cfg_ncpu s'" "mi_tmr t' = mi_tmr s'"
    and "callouts t = callouts s" "cq t = cq s" "cfg_ncpu t = cfg_ncpu s" "pcpu_id t = pcpu_id s"
  shows "callout_set_post t Q c d t' Q'"
  using assms cwf_cong [of t' s' Q'] timer_cong(1) [of t' s'] by (auto simp: callout_set_post_def)

lemma mdx_callout_set_ticks_spec:
  assumes wf: "cwf s Q" and tm: "timer_ok s" and room: "crit_room s" and free: "callout_free s (pcpu_id s)"
    and k: "pcpu_id s < cfg_ncpu s" and new: "\<not> active s c" and t: "ticks \<noteq> 0"
    and fit: "set_deadline s ticks < 2 ^ 32"
  shows "\<exists>s' Q'. mdx_callout_set_ticks c ticks f a s = Some (MDX_OK, s') \<and>
     callout_set_post s Q c (set_deadline s ticks) s' Q' \<and>
     c_func (callouts s' c) = f \<and> c_arg (callouts s' c) = a \<and>
     intr_on s' = intr_on s \<and> c_locks s' = c_locks s"
proof -
  let ?k = "pcpu_id s" and ?s1 = "critical_enter s"
  have "callout_free ?s1 ?k" using free by (simp add: callout_free_def)
  then obtain l where lock: "callout_lock ?k ?s1 = Some (?s1\<lparr>c_locks := l\<rparr>)"
    by (rule callout_lock_free)
  let ?s2 = "?s1\<lparr>c_locks := l\<rparr>"
  have pre: "cwf ?s2 Q" "timer_ok ?s2" "in_critical ?s2" "pcpu_id ?s2 < cfg_ncpu ?s2" "\<not> active ?s2 c"
    "set_deadline ?s2 ticks < 2 ^ 32"
    using wf tm k new fit critical_enter_in [OF room] cwf_cong [of ?s2 s Q] timer_cong [of ?s2 s]
    by (simp_all add: in_critical_def)
  have sd: "set_deadline ?s2 ticks = set_deadline s ticks" by (rule timer_cong) simp_all
  from set_ticks_locked_ok [OF pre(1-5) t pre(6), of f a] obtain s3 Q' where s3:
    "mdx_callout_set_ticks_locked c ticks f a ?s2 = Some (MDX_OK, s3)"
    "callout_set_post ?s2 Q c (set_deadline s ticks) s3 Q'"
    "c_func (callouts s3 c) = f" "c_arg (callouts s3 c) = a" "callout_frame ?s2 s3"
    unfolding sd by (elim exE conjE) (rule that)
  note fr = callout_frame_sel [OF s3(5)]
  have unlock: "callout_unlock ?k s3 = Some (s3\<lparr>c_locks := c_locks s\<rparr>)"
    using callout_unlock_held [OF \<open>callout_free ?s1 ?k\<close> lock] fr by simp
  let ?s4 = "s3\<lparr>c_locks := c_locks s\<rparr>"
  have "mdx_callout_set_ticks c ticks f a s = Some (MDX_OK, critical_exit ?s4)"
    using lock s3(1) unlock by (simp add: mdx_callout_set_ticks_def)
  moreover have "callout_set_post s Q c (set_deadline s ticks) (critical_exit ?s4) Q'"
    using s3(2) by (rule callout_set_post_cong) simp_all
  moreover have "intr_on (critical_exit ?s4) = intr_on s"
    by (rule critical_bracket(1)) (use fr in simp_all)
  ultimately show ?thesis using s3(3,4) by (intro exI [of _ "critical_exit ?s4"] exI [of _ Q']) simp
qed

text \<open>The two cases in which nothing is queued.\<close>

lemma mdx_callout_set_ticks_refuses:
  assumes tm: "timer_ok s" and room: "crit_room s" and free: "callout_free s (pcpu_id s)"
    and no: "active s c \<or> ticks = 0"
  shows "\<exists>s'. mdx_callout_set_ticks c ticks f a s = Some (if active s c then MDX_ERROR else MDX_OK, s') \<and>
     callouts s' = (callouts s)(c := (if active s c then callouts s c
       else (callouts s c)\<lparr>c_state := CALLOUT_STATE_FIRED\<rparr>)) \<and>
     cq s' = cq s \<and> c_locks s' = c_locks s \<and> mi_tmr s' = mi_tmr s \<and> hw s' = hw s \<and> intr_on s' = intr_on s"
proof -
  let ?s1 = "critical_enter s"
  have free1: "callout_free ?s1 (pcpu_id s)" using free by (simp add: callout_free_def)
  then obtain l where lock: "callout_lock (pcpu_id s) ?s1 = Some (?s1\<lparr>c_locks := l\<rparr>)"
    by (rule callout_lock_free)
  let ?s2 = "?s1\<lparr>c_locks := l\<rparr>"
  let ?s3 = "if active s c then ?s2 else upd_callout c (\<lambda>r. r\<lparr>c_state := CALLOUT_STATE_FIRED\<rparr>) ?s2"
  have "in_critical ?s2" using critical_enter_in [OF room] by (simp add: in_critical_def)
  then have r: "mdx_callout_set_ticks_locked c ticks f a ?s2 = Some (if active s c then MDX_ERROR else MDX_OK, ?s3)"
    using tm no by (auto simp: mdx_callout_set_ticks_locked_def timer_ok_def)
  have s3: "threads ?s3 = threads ?s1" "intr_on ?s3 = intr_on ?s1" "pcpu_id ?s3 = pcpu_id s"
    "pc_curthread ?s3 = pc_curthread s" "c_locks ?s3 = l" "cfg_smp ?s3 = cfg_smp s"
    by (simp_all add: upd_callout_def)
  let ?s4 = "?s3\<lparr>c_locks := c_locks s\<rparr>"
  have "callout_unlock (pcpu_id s) ?s3 = Some ?s4"
    using callout_unlock_held [OF free1 lock, of ?s3] s3 by simp
  then have "mdx_callout_set_ticks c ticks f a s = Some (if active s c then MDX_ERROR else MDX_OK, critical_exit ?s4)"
    using lock r by (simp add: mdx_callout_set_ticks_def)
  moreover have "intr_on (critical_exit ?s4) = intr_on s" by (rule critical_bracket) (use s3 in simp_all)
  ultimately show ?thesis by (intro exI [of _ "critical_exit ?s4"]) simp
qed

section \<open>Taking a callout off its queue\<close>

lemma cqueue_remove:
  assumes wf: "cwf s Q" and k: "k < cfg_ncpu s" and Qk: "Q k = xs @ c # ys" and j: "j < cfg_ncpu s"
  shows "dlist (list_remove (C_node c) (cq s)) (Callouts_list j) (map C_node ((Q(k := xs @ ys)) j))"
proof -
  have q: "dlist (cq s) (Callouts_list k) (map C_node xs @ C_node c # map C_node ys)"
    using cwf_queue [OF wf k] Qk by (simp add: cqueue_def)
  show ?thesis
  proof (cases "j = k")
    case True
    then show ?thesis using kl.rep_remove [OF q] by simp
  next
    case False
    have "dlist (list_remove (C_node c) (cq s)) (Callouts_list j) (map C_node (Q j))"
      by (rule kl.remove_other [OF q])
        (use cwf_queue [OF wf j] cwf_disjoint [OF wf j k False] Qk False in \<open>auto simp: cqueue_def\<close>)
    then show ?thesis using False by simp
  qed
qed

lemma cwf_dequeue:
  assumes wf: "cwf s Q" and k: "k < cfg_ncpu s" and Qk: "Q k = xs @ c # ys"
    and cq: "cq s' = list_remove (C_node c) (cq s)" and n: "cfg_ncpu s' = cfg_ncpu s"
    and act: "\<And>e. active s' e \<longleftrightarrow> e \<noteq> c \<and> active s e"
    and cpu: "\<And>e. c_cpuid (callouts s' e) = c_cpuid (callouts s e)"
    and fit: "\<And>j x. j < cfg_ncpu s \<Longrightarrow> x \<in> set (absq s' (Q(k := xs @ ys)) j) \<Longrightarrow> snd x < 2 ^ 32"
  shows "cwf s' (Q(k := xs @ ys))"
proof (rule cwfI)
  show "cqueue s' j ((Q(k := xs @ ys)) j)" if "j < cfg_ncpu s'" for j
    unfolding cqueue_def cq by (rule cqueue_remove) (use assms(1-3) that n in simp_all)
  have "c \<notin> set (xs @ ys)" using cqueue_distinct [OF cwf_queue [OF wf k]] Qk by simp
  moreover have "c_cpuid (callouts s c) = k" using cwf_cpuid [OF wf k] Qk by simp
  ultimately show "e \<in> set ((Q(k := xs @ ys)) j) \<longleftrightarrow> active s' e \<and> c_cpuid (callouts s' e) = j"
    if "j < cfg_ncpu s'" for j e
    using that cwf_mem [OF wf, of j e] Qk unfolding act cpu n by auto
  show "c_cpuid (callouts s' e) < cfg_ncpu s'" if "active s' e" for e
    using that cwf_active [OF wf, of e] unfolding act cpu n by simp
qed (use fit n in simp)

lemma cwf_drop_prefix:
  assumes wf: "cwf s Q" and k: "k < cfg_ncpu s" and Qk: "Q k = ds @ rs"
    and cq: "cq s' = fold list_remove (map C_node ds) (cq s)" and n: "cfg_ncpu s' = cfg_ncpu s"
    and act: "\<And>c. active s' c \<longleftrightarrow> c \<notin> set ds \<and> active s c"
    and cpu: "\<And>c. c_cpuid (callouts s' c) = c_cpuid (callouts s c)"
    and fit: "\<And>j x. j < cfg_ncpu s \<Longrightarrow> x \<in> set (absq s' (Q(k := rs)) j) \<Longrightarrow> snd x < 2 ^ 32"
  shows "cwf s' (Q(k := rs))"
proof (rule cwfI)
  have q: "dlist (cq s) (Callouts_list k) (map C_node ds @ map C_node rs)"
    using cwf_queue [OF wf k] Qk by (simp add: cqueue_def)
  show "cqueue s' j ((Q(k := rs)) j)" if "j < cfg_ncpu s'" for j
  proof (cases "j = k")
    case True
    then show ?thesis using kl.remove_prefix [OF q] by (simp add: cqueue_def cq)
  next
    case False
    have j: "j < cfg_ncpu s" using that n by simp
    have "dlist (fold list_remove (map C_node ds) (cq s)) (Callouts_list j) (map C_node (Q j))"
      by (rule kl.remove_prefix_other [OF q])
        (use cwf_queue [OF wf j] cwf_disjoint [OF wf j k False] Qk False in \<open>auto simp: cqueue_def\<close>)
    then show ?thesis using False by (simp add: cqueue_def cq)
  qed
  have "distinct (ds @ rs)" using cqueue_distinct [OF cwf_queue [OF wf k]] Qk by simp
  then show "c \<in> set ((Q(k := rs)) j) \<longleftrightarrow> active s' c \<and> c_cpuid (callouts s' c) = j"
    if "j < cfg_ncpu s'" for j c
    using that cwf_mem [OF wf, of j c] cwf_cpuid [OF wf k, of c] Qk unfolding act cpu n by auto
  show "c_cpuid (callouts s' c) < cfg_ncpu s'" if "active s' c" for c
    using that cwf_active [OF wf, of c] unfolding act cpu n by simp
qed (use fit n in simp)

section \<open>Cancelling a callout\<close>

text \<open>Removing a callout and giving its ticks to its successor keeps every other deadline.\<close>

lemma deadlines_cancel:
  assumes "c \<notin> set (xs @ ys)" and "distinct ys"
    and "\<And>d. d \<in> set (xs @ tl ys) \<Longrightarrow> g d = f d"
    and "\<And>y zs. ys = y # zs \<Longrightarrow> g y = f y + f c"
  shows "deadlines g a (xs @ ys) = dl_cancel c (deadlines f a (xs @ c # ys))"
proof -
  have keep: "dl_cancel c (deadlines f b zs) = deadlines f b zs" if "c \<notin> set zs" for b zs
    using that by (induction zs arbitrary: b) (auto simp: dl_cancel_def)
  let ?n = "a + sum_list (map f xs)"
  have xs: "deadlines g a xs = deadlines f a xs" "sum_list (map g xs) = sum_list (map f xs)"
    using assms(3) by (auto intro: deadlines_cong arg_cong [of _ _ sum_list])
  have "deadlines g ?n ys = deadlines f (?n + f c) ys"
  proof (cases ys)
    case (Cons y zs)
    have "deadlines g b zs = deadlines f b zs" for b
      using assms(3) Cons by (intro deadlines_cong) auto
    then show ?thesis using assms(4) [OF Cons] Cons by (simp add: add_ac)
  qed simp
  moreover have "dl_cancel c (deadlines f a (xs @ c # ys)) =
      deadlines f a xs @ deadlines f (?n + f c) ys"
    using keep assms(1) unfolding deadlines_append dl_cancel_def by simp
  ultimately show ?thesis using xs by (simp add: deadlines_append)
qed

definition callout_cancel_post :: "('h, 'x) kstate_scheme \<Rightarrow> (cpuid \<Rightarrow> cptr list) \<Rightarrow> cptr \<Rightarrow>
    ('h, 'x) kstate_scheme \<Rightarrow> (cpuid \<Rightarrow> cptr list) \<Rightarrow> bool" where
  "callout_cancel_post s Q c s' Q' \<longleftrightarrow>
     cwf s' Q' \<and> \<not> active s' c \<and>
     (\<forall>j < cfg_ncpu s. absq s' Q' j = dl_cancel c (absq s Q j))"

lemma dl_cancel_notin: "c \<notin> set cs \<Longrightarrow> dl_cancel c (deadlines f a cs) = deadlines f a cs"
  by (induction cs arbitrary: a) (auto simp: dl_cancel_def)

lemma mdx_callout_cancel_locked_inactive:
  assumes "cwf s Q" and "\<not> active s c"
  shows "mdx_callout_cancel_locked c s = (1, s)" and "callout_cancel_post s Q c s Q"
  using assms cwf_inactive [OF assms]
  by (simp_all add: mdx_callout_cancel_locked_def callout_cancel_post_def dl_cancel_notin)

lemma mdx_callout_cancel_locked_active:
  assumes wf: "cwf s Q" and act: "active s c"
  shows "\<exists>s' Q'. mdx_callout_cancel_locked c s = (0, s') \<and> callout_cancel_post s Q c s' Q' \<and>
    callout_frame s s' \<and> mi_tmr s' = mi_tmr s \<and> hw s' = hw s \<and>
    c_cpuid (callouts s' c) = c_cpuid (callouts s c)"
proof -
  define k where "k = c_cpuid (callouts s c)"
  have k: "k < cfg_ncpu s" "c \<in> set (Q k)" using cwf_active [OF wf act] by (simp_all add: k_def)
  then obtain xs ys where Qk: "Q k = xs @ c # ys" by (meson split_list)
  have q: "cqueue s k (xs @ c # ys)" using cwf_queue [OF wf k(1)] Qk by simp
  have d: "distinct (xs @ c # ys)" by (rule cqueue_distinct [OF q])
  define co where "co = (case ys of [] \<Rightarrow> callouts s | n # _ \<Rightarrow>
      (callouts s)(n := (callouts s n)\<lparr>c_ticks := c_ticks (callouts s n) + c_ticks (callouts s c)\<rparr>))"
  define s' where "s' = s\<lparr>callouts := co(c := (co c)\<lparr>c_flags := c_flags (co c) AND NOT CALLOUT_FLAG_ACTIVE\<rparr>),
      cq := list_remove (C_node c) (cq s)\<rparr>"
  let ?Q = "Q(k := xs @ ys)"
  have res: "mdx_callout_cancel_locked c s = (0, s')"
    using act next_cqueue [OF q] unfolding s'_def co_def k_def
    by (cases ys) (simp_all add: mdx_callout_cancel_locked_def upd_callout_def)
  have sel: "active s' e \<longleftrightarrow> e \<noteq> c \<and> active s e" "c_cpuid (callouts s' e) = c_cpuid (callouts s e)" for e
    by (cases ys; simp add: s'_def co_def)+
  have tick: "ticks_of s' e = (if hd_opt ys = Some e then ticks_of s e + ticks_of s c else ticks_of s e)"
    if "e \<noteq> c" for e
  proof (cases ys)
    case (Cons n zs)
    have "(n, sum_list (map (ticks_of s) xs) + ticks_of s c + ticks_of s n) \<in> set (absq s Q k)"
      unfolding Qk Cons by (simp add: deadlines_append)
    from cwf_fit [OF wf k(1) this] have "ticks_of s n + ticks_of s c < 2 ^ LENGTH(32)" by simp
    then have "unat (c_ticks (callouts s n) + c_ticks (callouts s c)) = ticks_of s n + ticks_of s c"
      by (rule unat_add_small)
    then show ?thesis using that Cons by (auto simp: s'_def co_def)
  qed (use that in \<open>simp add: s'_def co_def\<close>)
  have same: "ticks_of s' e = ticks_of s e" if "e \<noteq> c" "hd_opt ys \<noteq> Some e" for e
    using tick that by simp
  have ab: "absq s' ?Q j = dl_cancel c (absq s Q j)" if j: "j < cfg_ncpu s" for j
  proof (cases "j = k")
    case True
    have "ticks_of s' e = ticks_of s e" if "e \<in> set (xs @ tl ys)" for e
      by (rule same) (use that d in \<open>cases ys; auto\<close>)+
    then show ?thesis unfolding True fun_upd_same Qk
      by (rule deadlines_cancel [rotated 2]) (use d tick in auto)
  next
    case False
    have disj: "set (Q j) \<inter> set (Q k) = {}" by (rule cwf_disjoint [OF wf j k(1) False])
    have "ticks_of s' e = ticks_of s e" if "e \<in> set (Q j)" for e
      by (rule same) (use disj that Qk in \<open>cases ys; auto\<close>)+
    then have "absq s' ?Q j = absq s Q j" using False by (auto intro: deadlines_cong)
    then show ?thesis using disj Qk by (simp add: dl_cancel_notin)
  qed
  have "cwf s' ?Q"
  proof (rule cwf_dequeue [OF wf k(1) Qk])
    show "snd x < 2 ^ 32" if "j < cfg_ncpu s" "x \<in> set (absq s' ?Q j)" for j x
      using that ab [of j] cwf_fit [OF wf, of j x] by (simp add: dl_cancel_def)
    show "cq s' = list_remove (C_node c) (cq s)" "cfg_ncpu s' = cfg_ncpu s" by (simp_all add: s'_def)
  qed (simp_all add: sel)
  then have "callout_cancel_post s Q c s' ?Q"
    unfolding callout_cancel_post_def sel using ab by blast
  moreover have "callout_frame s s'" "mi_tmr s' = mi_tmr s" "hw s' = hw s"
    by (simp_all add: callout_frame_def s'_def)
  ultimately show ?thesis using res sel by blast
qed

text \<open>The public operation: inside a critical section, with the queue's lock free, it always
  returns, says whether the callout was queued, and leaves the lock free.\<close>

lemma mdx_callout_cancel_spec:
  assumes wf: "cwf s Q" and tm: "mi_tmr s \<noteq> None" and crit: "in_critical s"
    and free: "callout_free s (c_cpuid (callouts s c))"
  shows "\<exists>s' Q'. mdx_callout_cancel c s = Some (if active s c then 0 else 1, s') \<and>
    callout_cancel_post s Q c s' Q' \<and> c_locks s' = c_locks s \<and> mi_tmr s' = mi_tmr s \<and> hw s' = hw s \<and>
    (\<not> active s c \<longrightarrow> s' = s \<and> Q' = Q)"
proof -
  let ?k = "c_cpuid (callouts s c)"
  obtain l where lock: "callout_lock ?k s = Some (s\<lparr>c_locks := l\<rparr>)"
    using free by (rule callout_lock_free)
  let ?s1 = "s\<lparr>c_locks := l\<rparr>"
  have wf1: "cwf ?s1 Q" using wf cwf_cong [of ?s1 s Q] by simp
  have "\<exists>s2 Q'. mdx_callout_cancel_locked c ?s1 = (if active s c then 0 else 1, s2) \<and>
      callout_cancel_post ?s1 Q c s2 Q' \<and> callout_frame ?s1 s2 \<and> mi_tmr s2 = mi_tmr s \<and> hw s2 = hw s \<and>
      c_cpuid (callouts s2 c) = ?k \<and> (\<not> active s c \<longrightarrow> s2 = ?s1 \<and> Q' = Q)"
  proof (cases "active s c")
    case True
    then show ?thesis using mdx_callout_cancel_locked_active [OF wf1, of c] by simp
  next
    case False
    then show ?thesis using mdx_callout_cancel_locked_inactive [OF wf1, of c]
      by (intro exI [of _ ?s1] exI [of _ Q]) simp
  qed
  then obtain s2 Q' where s2: "mdx_callout_cancel_locked c ?s1 = (if active s c then 0 else 1, s2)"
    "callout_cancel_post ?s1 Q c s2 Q'" "callout_frame ?s1 s2" "mi_tmr s2 = mi_tmr s" "hw s2 = hw s"
    "c_cpuid (callouts s2 c) = ?k" "\<not> active s c \<longrightarrow> s2 = ?s1 \<and> Q' = Q"
    by (elim exE conjE) (rule that)
  let ?s3 = "s2\<lparr>c_locks := c_locks s\<rparr>"
  have "callout_unlock ?k s2 = Some ?s3"
    using callout_unlock_held [OF free lock] callout_frame_sel [OF s2(3)] by simp
  then have "mdx_callout_cancel c s = Some (if active s c then 0 else 1, ?s3)"
    using tm crit lock s2(1,6) by (simp add: mdx_callout_cancel_def)
  moreover have "callout_cancel_post s Q c ?s3 Q'"
    using s2(2) cwf_cong [of ?s3 s2 Q'] by (simp add: callout_cancel_post_def)
  moreover have "\<not> active s c \<longrightarrow> ?s3 = s \<and> Q' = Q" using s2(7) by (auto simp: kstate_upd_same)
  ultimately show ?thesis using s2(4,5) by (intro exI [of _ ?s3] exI [of _ Q']) simp
qed

end
