(* ===== verification/Callout_Intr.thy ===== *)
theory Callout_Intr
  imports Callout_Ops
begin

text \<open>
  The timer interrupt. \<open>quiet_dispatch\<close> is the contract between the interrupt handler and
  the functions it calls: a quiet function leaves the callouts, their queues and the timer
  alone, as the wake-up functions of the scheduler and of semaphores do. For queues of quiet
  callouts the handler calls exactly the functions that are due, in the order of their
  deadlines, and advances the others.
\<close>

section \<open>What is due\<close>

primrec due :: "nat \<Rightarrow> (cptr \<Rightarrow> nat) \<Rightarrow> cptr list \<Rightarrow> cptr list" where
  "due e f [] = []"
| "due e f (c # cs) = (if f c \<le> e then c # due (e - f c) f cs else [])"

definition not_due :: "nat \<Rightarrow> (cptr \<Rightarrow> nat) \<Rightarrow> cptr list \<Rightarrow> cptr list" where
  "not_due e f cs = drop (length (due e f cs)) cs"

lemma not_due_simps [simp]:
  "not_due e f [] = []"
  "not_due e f (c # cs) = (if f c \<le> e then not_due (e - f c) f cs else c # cs)"
  by (simp_all add: not_due_def)

lemma due_not_due: "due e f cs @ not_due e f cs = cs"
  by (induction cs arbitrary: e) simp_all

lemma set_due: "c \<in> set (due e f cs) \<Longrightarrow> c \<in> set cs" "c \<in> set (not_due e f cs) \<Longrightarrow> c \<in> set cs"
  using due_not_due [of e f cs, symmetric] by (metis Un_iff set_append)+

lemma due_cong:
  assumes "\<And>c. c \<in> set cs \<Longrightarrow> f c = g c"
  shows "due e f cs = due e g cs" and "not_due e f cs = not_due e g cs"
  using assms by (induction cs arbitrary: e) simp_all

lemma due_deadlines: "due e f cs = map fst (takeWhile (\<lambda>x. snd x \<le> a + e) (deadlines f a cs))"
proof (induction cs arbitrary: e a)
  case (Cons c cs)
  have "a + f c + (e - f c) = a + e" if "f c \<le> e" using that by simp
  then show ?case using Cons.IH [of "e - f c" "a + f c"] by auto
qed simp

lemma sum_due_le: "sum_list (map f (due e f cs)) \<le> e"
proof (induction cs arbitrary: e)
  case (Cons c cs)
  show ?case using Cons.IH [of "e - f c"] by (cases "f c \<le> e") simp_all
qed simp

lemma not_due_hd: "not_due e f cs = c # rs \<Longrightarrow> e - sum_list (map f (due e f cs)) < f c"
proof (induction cs arbitrary: e)
  case (Cons d cs)
  then show ?case using Cons.IH [of "e - f d"] by (auto split: if_splits)
qed simp

text \<open>Firing what is due and taking the rest of the elapsed time off the next callout
  advances the deadlines.\<close>

lemma deadlines_advance:
  assumes "distinct cs"
    and "\<And>c rs. not_due e f cs = c # rs \<Longrightarrow> g c = f c - (e - sum_list (map f (due e f cs))) \<and>
      (\<forall>d \<in> set rs. g d = f d)"
  shows "deadlines g 0 (not_due e f cs) = dl_advance e (deadlines f 0 cs)"
proof -
  have sub: "deadlines f' b rs = map (\<lambda>(c, d). (c, d - e')) (deadlines f' (b + e') rs)" for f' b e' rs
    by (simp add: deadlines_shift o_def split_def)
  have drop: "dropWhile (\<lambda>x. snd x \<le> a + e') (deadlines f a cs) =
      deadlines f (a + sum_list (map f (due e' f cs))) (not_due e' f cs)" for a e' cs
  proof (induction cs arbitrary: a e')
    case (Cons c cs)
    have "a + f c + (e' - f c) = a + e'" if "f c \<le> e'" using that by simp
    then show ?case using Cons.IH [of "a + f c" "e' - f c"] by (auto simp: add.assoc)
  qed simp
  let ?n = "sum_list (map f (due e f cs))"
  show ?thesis
  proof (cases "not_due e f cs")
    case Nil
    then show ?thesis using drop [of 0 e cs] by (simp add: dl_advance_def)
  next
    case (Cons c rs)
    have g: "g c = f c - (e - ?n)" "deadlines g b rs = deadlines f b rs" for b
      using assms(2) [OF Cons] by (auto intro: deadlines_cong)
    have lt: "e - ?n < f c" by (rule not_due_hd [OF Cons])
    have "dl_advance e (deadlines f 0 cs) = map (\<lambda>(c, d). (c, d - e)) (deadlines f ?n (c # rs))"
      using drop [of 0 e cs] Cons by (simp add: dl_advance_def)
    moreover have "?n + f c = g c + e" using g(1) lt sum_due_le [of f e cs] by simp
    ultimately show ?thesis unfolding Cons using sub [of f "g c" rs e] g by simp
  qed
qed

lemma dl_advance_le: "x \<in> set (dl_advance e ds) \<Longrightarrow> \<exists>y \<in> set ds. snd x \<le> snd y"
  by (force simp: dl_advance_def dest: set_dropWhileD)

section \<open>Firing\<close>

definition run_callout :: "('h, 'x) dispatcher \<Rightarrow> cptr \<Rightarrow> ('h, 'x) kstate_scheme \<Rightarrow>
    ('h, 'x) kstate_scheme option" where
  "run_callout call c s =
     (case c_func (callouts s c) of None \<Rightarrow> Some s | Some f \<Rightarrow> call f (c_arg (callouts s c)) s)"

text \<open>Take the callouts \<open>cs\<close> off the queue one after the other, marking and calling each.\<close>

primrec fire_all :: "('h, 'x) dispatcher \<Rightarrow> cptr list \<Rightarrow> ('h, 'x) kstate_scheme \<Rightarrow>
    ('h, 'x) kstate_scheme option" where
  "fire_all call [] s = Some s"
| "fire_all call (c # cs) s =
     Option.bind (run_callout call c (upd_callout c fire (s\<lparr>cq := list_remove (C_node c) (cq s)\<rparr>)))
       (fire_all call cs)"

definition timer_frame :: "('h, 'x) kstate_scheme \<Rightarrow> ('h, 'x) kstate_scheme \<Rightarrow> bool" where
  "timer_frame s s' \<longleftrightarrow> mi_tmr s' = mi_tmr s \<and> hw s' = hw s \<and> pcpu_id s' = pcpu_id s \<and>
     cfg_ncpu s' = cfg_ncpu s \<and> cfg_smp s' = cfg_smp s \<and> c_locks s' = c_locks s"

definition quiet_callout :: "cfunc set \<Rightarrow> ('h, 'x) kstate_scheme \<Rightarrow> cptr \<Rightarrow> bool" where
  "quiet_callout F s c \<longleftrightarrow> set_option (c_func (callouts s c)) \<subseteq> F"

definition settle :: "cptr list \<Rightarrow> u32 \<Rightarrow> ('h, 'x) kstate_scheme \<Rightarrow> ('h, 'x) kstate_scheme" where
  "settle rs e s = (case rs of [] \<Rightarrow> s | c # _ \<Rightarrow> upd_callout c (\<lambda>r. r\<lparr>c_ticks := c_ticks r - e\<rparr>) s)"

text \<open>After the loop: the queue of this CPU is what was not due, advanced by the elapsed ticks;
  the other queues are as before.\<close>

definition callback_post :: "('h, 'x) kstate_scheme \<Rightarrow> (cpuid \<Rightarrow> cptr list) \<Rightarrow> nat \<Rightarrow>
    ('h, 'x) kstate_scheme \<Rightarrow> (cpuid \<Rightarrow> cptr list) \<Rightarrow> bool" where
  "callback_post s Q e s' Q' \<longleftrightarrow>
     (let k = pcpu_id s; fired = due e (ticks_of s) (Q k) in
      Q' = Q(k := not_due e (ticks_of s) (Q k)) \<and> cwf s' Q' \<and>
      absq s' Q' k = dl_advance e (absq s Q k) \<and>
      (\<forall>j < cfg_ncpu s. j \<noteq> k \<longrightarrow> absq s' Q' j = absq s Q j) \<and>
      (\<forall>c \<in> set fired. c_state (callouts s' c) = CALLOUT_STATE_FIRED \<and> \<not> active s' c))"

lemma callback_post_cong:
  assumes "callback_post s Q e s' Q'"
    and "callouts t' = callouts s'" "cq t' = cq s'" "cfg_ncpu t' = cfg_ncpu s'"
    and "callouts t = callouts s" "cfg_ncpu t = cfg_ncpu s" "pcpu_id t = pcpu_id s"
  shows "callback_post t Q e t' Q'"
  using assms(1) cwf_cong [OF assms(2-4), of Q']
  unfolding callback_post_def assms(2) assms(5-7) by (simp only:)

text \<open>The handler first reads the timer and marks it as being handled. At the end the timer
  runs until the next deadline, at most for its maximal count, or is stopped when the queue
  is empty.\<close>

definition callback_entry :: "('h, 'x) kstate_scheme \<Rightarrow> ('h, 'x) kstate_scheme" where
  "callback_entry s = (case mi_tmr s of None \<Rightarrow> s | Some mt \<Rightarrow> (case mt_count mt of None \<Rightarrow> s
     | Some read \<Rightarrow> s\<lparr>mi_tmr := Some (mt
         \<lparr>mt_count_saved := (mt_count_saved mt)(pcpu_id s := read (pcpu_id s) (hw s)),
          mt_states := (mt_states mt)(pcpu_id s := MI_TIMER_STATE_EXCEPTION)\<rparr>)\<rparr>))"

definition timer_rearmed :: "('h, 'x) kstate_scheme \<Rightarrow> (cptr \<times> nat) list \<Rightarrow> ('h, 'x) kstate_scheme \<Rightarrow> bool" where
  "timer_rearmed s ds s' \<longleftrightarrow>
     (\<exists>mt start stop read. mi_tmr s = Some mt \<and> mt_start mt = Some start \<and> mt_stop mt = Some stop \<and>
        mt_count mt = Some read \<and>
        mi_tmr s' = Some (mt
          \<lparr>mt_count_saved := (mt_count_saved mt)(pcpu_id s := read (pcpu_id s) (hw s)),
           mt_states := (mt_states mt)(pcpu_id s :=
             (if ds = [] then MI_TIMER_STATE_READY else MI_TIMER_STATE_RUNNING))\<rparr>) \<and>
        hw s' = (case ds of [] \<Rightarrow> stop (pcpu_id s) (hw s)
                 | (c, d) # _ \<Rightarrow> start (pcpu_id s) (min (word_of_nat d) (mt_maxcnt mt)) (hw s)))"

locale quiet_dispatch =
  fixes call :: "('h, 'x) dispatcher" and quiet :: "cfunc set"
  assumes quiet: "f \<in> quiet \<Longrightarrow> call f a s = Some s' \<Longrightarrow>
    callouts s' = callouts s \<and> cq s' = cq s \<and> timer_frame s s'"
begin

lemma run_quiet:
  assumes "quiet_callout quiet s c" and "run_callout call c s = Some s'"
  shows "callouts s' = callouts s" and "cq s' = cq s" and "timer_frame s s'"
  using assms quiet
  by (auto simp: quiet_callout_def run_callout_def timer_frame_def split: option.splits)


lemma fire_all_quiet:
  assumes "fire_all call ds s = Some s'" and "distinct ds" and "\<And>c. c \<in> set ds \<Longrightarrow> quiet_callout quiet s c"
  shows "callouts s' = (\<lambda>c. if c \<in> set ds then fire (callouts s c) else callouts s c) \<and>
    cq s' = fold (\<lambda>c. list_remove (C_node c)) ds (cq s) \<and> timer_frame s s'"
  using assms
proof (induction ds arbitrary: s)
  case (Cons c ds)
  let ?s1 = "upd_callout c fire (s\<lparr>cq := list_remove (C_node c) (cq s)\<rparr>)"
  from Cons.prems(1) obtain s2 where s2: "run_callout call c ?s1 = Some s2"
    and rest: "fire_all call ds s2 = Some s'"
    by (auto simp: bind_eq_Some)
  have "quiet_callout quiet ?s1 c" using Cons.prems(3) [of c] by (simp add: quiet_callout_def fire_def)
  note q = run_quiet [OF this s2]
  have ok: "quiet_callout quiet s2 d" if "d \<in> set ds" for d
    using that Cons.prems(2) Cons.prems(3) [of d] q(1) by (auto simp: quiet_callout_def)
  note ih = Cons.IH [OF rest _ ok]
  show ?case using ih Cons.prems(2) q by (auto simp: fun_eq_iff timer_frame_def upd_callout_def)
qed (simp_all add: timer_frame_def)

text \<open>The loop of the handler is: fire what is due, then shorten the next callout.\<close>

lemma callback_loop_eq:
  assumes "cqueue s k cs" and "\<And>c. c \<in> set cs \<Longrightarrow> quiet_callout quiet s c"
  shows "callback_loop call k (hd_opt cs) e s =
    map_option (settle (not_due (unat e) (ticks_of s) cs)
        (e - word_of_nat (sum_list (map (ticks_of s) (due (unat e) (ticks_of s) cs)))))
      (fire_all call (due (unat e) (ticks_of s) cs) s)"
  using assms
proof (induction cs arbitrary: e s)
  case Nil
  show ?case by (simp add: callback_loop.simps settle_def)
next
  case (Cons c cs)
  let ?t = "c_ticks (callouts s c)"
  have nx: "next_c k c s = hd_opt cs" using next_cqueue [of s k "[]" c cs] Cons.prems(1) by simp
  show ?case
  proof (cases "?t \<le> e")
    case False
    then have "\<not> unat ?t \<le> unat e" by (simp add: word_le_unat)
    with False show ?thesis by (simp add: callback_loop.simps settle_def Let_def)
  next
    case True
    let ?s1 = "upd_callout c fire (s\<lparr>cq := list_remove (C_node c) (cq s)\<rparr>)"
    have le: "unat ?t \<le> unat e" "unat (e - ?t) = unat e - unat ?t"
      using True by (simp_all add: word_le_unat unat_diff_le)
    have step: "callback_loop call k (hd_opt (c # cs)) e s =
        Option.bind (run_callout call c ?s1) (callback_loop call k (hd_opt cs) (e - ?t))"
      using True nx by (subst callback_loop.simps) (simp add: Let_def run_callout_def)
    show ?thesis
    proof (cases "run_callout call c ?s1")
      case None
      then show ?thesis using step le by simp
    next
      case (Some s2)
      have "quiet_callout quiet ?s1 c" using Cons.prems(2) [of c] by (simp add: quiet_callout_def fire_def)
      note q = run_quiet [OF this Some]
      have ncs: "c \<notin> set cs" using cqueue_distinct [OF Cons.prems(1)] by simp
      have tk: "ticks_of s2 d = ticks_of s d" if "d \<in> set cs" for d using that ncs q(1) by auto
      have same: "due i (ticks_of s2) cs = due i (ticks_of s) cs"
        "not_due i (ticks_of s2) cs = not_due i (ticks_of s) cs" for i
        using due_cong [of cs "ticks_of s2" "ticks_of s" i] tk by blast+
      have sum: "map (ticks_of s2) (due i (ticks_of s) cs) = map (ticks_of s) (due i (ticks_of s) cs)" for i
        using tk set_due(1) by (intro map_cong) blast+
      have q2: "cqueue s2 k cs"
        using kl.pop(2) [of "cq s" "Callouts_list k" "C_node c" "map C_node cs"] Cons.prems(1) q(2)
        by (simp add: cqueue_def)
      have ok: "quiet_callout quiet s2 d" if "d \<in> set cs" for d
        using that ncs Cons.prems(2) [of d] q(1) by (auto simp: quiet_callout_def)
      show ?thesis
        unfolding step Some using le Some Cons.IH [OF q2 ok, of "e - ?t"]
        by (simp add: same sum diff_diff_eq)
    qed
  qed
qed



lemma settle_frame: "timer_frame s t \<Longrightarrow> timer_frame s (settle rs r t)"
  by (cases rs) (simp_all add: timer_frame_def settle_def upd_callout_def)

lemma fired_rest:
  fixes e r :: u32
  assumes "r = e - word_of_nat (sum_list (map f (due (unat e) f cs)))"
  shows "unat r = unat e - sum_list (map f (due (unat e) f cs))"
proof -
  let ?n = "sum_list (map f (due (unat e) f cs))"
  have le: "?n \<le> unat e" by (rule sum_due_le)
  have "unat (word_of_nat ?n :: u32) = ?n"
    by (intro unat_of_nat_small order.strict_trans1 [OF le]) simp
  then show ?thesis using le unfolding assms by (simp add: unat_diff_le word_le_unat)
qed

lemma settle_ticks:
  assumes "r = e - word_of_nat (sum_list (map (ticks_of s) (due (unat e) (ticks_of s) cs)))"
    and "rs = not_due (unat e) (ticks_of s) cs" and "callouts s2 c = callouts s c"
  shows "ticks_of (settle rs r s2) c = (if hd_opt rs = Some c then ticks_of s c - unat r else ticks_of s c)"
proof (cases "hd_opt rs = Some c")
  case True
  then obtain rs' where rs': "rs = c # rs'" by (cases rs) auto
  have "unat r < ticks_of s c" using not_due_hd [of "unat e" _ cs c rs'] rs' fired_rest [OF assms(1)] assms(2) by simp
  then have "unat (c_ticks (callouts s c) - r) = ticks_of s c - unat r"
    by (intro unat_diff_le) (simp add: word_le_unat)
  then show ?thesis using rs' assms(3) by (simp add: settle_def)
next
  case False
  then show ?thesis using assms(3) by (cases rs) (auto simp: settle_def)
qed

lemma settle_post:
  assumes wf: "cwf s Q" and k: "pcpu_id s < cfg_ncpu s"
    and ok: "\<And>c. c \<in> set (Q (pcpu_id s)) \<Longrightarrow> quiet_callout quiet s c"
    and fired: "fire_all call (due (unat e) (ticks_of s) (Q (pcpu_id s))) s = Some s2"
    and r: "r = e - word_of_nat (sum_list (map (ticks_of s) (due (unat e) (ticks_of s) (Q (pcpu_id s)))))"
  shows "\<exists>Q'. callback_post s Q (unat e) (settle (not_due (unat e) (ticks_of s) (Q (pcpu_id s))) r s2) Q'"
proof -
  let ?k = "pcpu_id s" and ?f = "ticks_of s"
  define ds rs where "ds = due (unat e) ?f (Q ?k)" and "rs = not_due (unat e) ?f (Q ?k)"
  have Qk: "Q ?k = ds @ rs" by (simp add: ds_def rs_def due_not_due)
  have dist: "distinct (ds @ rs)" using cqueue_distinct [OF cwf_queue [OF wf k]] Qk by simp
  have okd: "quiet_callout quiet s c" if "c \<in> set ds" for c using ok that Qk by simp
  from fire_all_quiet [OF fired [folded ds_def] _ okd] dist have s2:
    "callouts s2 = (\<lambda>c. if c \<in> set ds then fire (callouts s c) else callouts s c)"
    "cq s2 = fold list_remove (map C_node ds) (cq s)" "timer_frame s s2"
    by (simp_all add: fold_map o_def)
  let ?s' = "settle rs r s2" and ?Q = "Q(?k := rs)"
  have tk: "ticks_of ?s' c = (if hd_opt rs = Some c then ?f c - unat r else ?f c)" if "c \<notin> set ds" for c
    by (rule settle_ticks [OF r rs_def]) (use that s2(1) in simp)
  have same: "ticks_of ?s' c = ?f c" if "c \<notin> set ds" "c \<notin> set rs \<or> c \<in> set (tl rs)" for c
    using that tk [OF that(1)] dist by (cases rs) auto
  have ab: "absq ?s' ?Q ?k = dl_advance (unat e) (absq s Q ?k)"
    unfolding fun_upd_same rs_def
  proof (rule deadlines_advance)
    show "distinct (Q ?k)" using dist Qk by simp
    fix c rs' assume "not_due (unat e) ?f (Q ?k) = c # rs'"
    then have "rs = c # rs'" by (simp add: rs_def)
    then show "ticks_of (settle (not_due (unat e) ?f (Q ?k)) r s2) c =
        ?f c - (unat e - sum_list (map ?f (due (unat e) ?f (Q ?k)))) \<and>
        (\<forall>d \<in> set rs'. ticks_of (settle (not_due (unat e) ?f (Q ?k)) r s2) d = ?f d)"
      using tk [of c] same dist fired_rest [OF r] by (auto simp: rs_def [symmetric])
  qed
  have other: "absq ?s' ?Q j = absq s Q j" if "j < cfg_ncpu s" "j \<noteq> ?k" for j
  proof -
    have "ticks_of ?s' c = ?f c" if "c \<in> set (Q j)" for c
      using that cwf_disjoint [OF wf \<open>j < cfg_ncpu s\<close> k \<open>j \<noteq> ?k\<close>] Qk by (intro same) auto
    then show ?thesis using that(2) by (auto intro: deadlines_cong)
  qed
  have sel: "active ?s' c \<longleftrightarrow> c \<notin> set ds \<and> active s c" "c_cpuid (callouts ?s' c) = c_cpuid (callouts s c)" for c
    using s2(1) by (cases rs; auto simp: settle_def fire_def)+
  have st: "c_state (callouts ?s' c) = CALLOUT_STATE_FIRED" if "c \<in> set ds" for c
    using that s2(1) dist by (cases rs) (auto simp: settle_def fire_def)
  have "cwf ?s' ?Q"
  proof (rule cwf_drop_prefix [OF wf k Qk])
    show "cfg_ncpu ?s' = cfg_ncpu s" "cq ?s' = fold list_remove (map C_node ds) (cq s)"
      using s2 by (cases rs; simp add: settle_def timer_frame_def upd_callout_def)+
    show "snd x < 2 ^ 32" if "j < cfg_ncpu s" "x \<in> set (absq ?s' ?Q j)" for j x
      using that dl_advance_le [of x "unat e" "absq s Q ?k"] cwf_fit [OF wf k] cwf_fit [OF wf that(1), of x]
        ab other [of j] by (cases "j = ?k") fastforce+
  qed (rule sel)+
  then have "callback_post s Q (unat e) ?s' ?Q"
    unfolding callback_post_def Let_def using ab other sel st by (simp add: rs_def ds_def)
  then show ?thesis unfolding rs_def by blast
qed


lemma callback_loop_spec:
  assumes wf: "cwf s Q" and k: "pcpu_id s < cfg_ncpu s"
    and quiet: "\<forall>c \<in> set (Q (pcpu_id s)). quiet_callout quiet s c"
    and fired: "fire_all call (due (unat e) (ticks_of s) (Q (pcpu_id s))) s = Some s2"
  shows "\<exists>s3 Q'. callback_loop call (pcpu_id s) (first (pcpu_id s) s) e s = Some s3 \<and>
    callback_post s Q (unat e) s3 Q' \<and> timer_frame s s3 \<and> first (pcpu_id s) s3 = hd_opt (Q' (pcpu_id s)) \<and>
    callout_frame s2 s3"
proof -
  let ?k = "pcpu_id s"
  note ok = quiet [rule_format]
  let ?ds = "due (unat e) (ticks_of s) (Q ?k)" and ?rs = "not_due (unat e) (ticks_of s) (Q ?k)"
  have q: "cqueue s ?k (Q ?k)" by (rule cwf_queue [OF wf k])
  define r where "r = e - word_of_nat (sum_list (map (ticks_of s) ?ds))"
  define s3 where "s3 = settle ?rs r s2"
  have loop: "callback_loop call ?k (first ?k s) e s = Some s3"
    using callback_loop_eq [OF q ok, of e] fired first_cqueue [OF q] by (simp add: r_def s3_def)
  obtain Q' where post: "callback_post s Q (unat e) s3 Q'"
    using settle_post [OF wf k ok fired r_def] unfolding s3_def by blast
  have "distinct ?ds"
    using cqueue_distinct [OF q] due_not_due [of "unat e" "ticks_of s" "Q ?k"] distinct_append by metis
  then have "timer_frame s s2" using fire_all_quiet [OF fired] ok set_due(1) by blast
  then have fr: "timer_frame s s3" unfolding s3_def by (rule settle_frame)
  have wf3: "cwf s3 Q'" using post unfolding callback_post_def Let_def by blast
  have "first ?k s3 = hd_opt (Q' ?k)"
    using first_cqueue [OF cwf_queue [OF wf3, of ?k]] k fr by (simp add: timer_frame_def)
  moreover have "callout_frame s2 s3"
    by (cases ?rs) (simp_all add: callout_frame_def s3_def settle_def upd_callout_def)
  ultimately show ?thesis using loop post fr by blast
qed

lemma callback_spec:
  assumes wf: "cwf s Q" and tm: "timer_ok s" and crit: "in_critical s" and k: "pcpu_id s < cfg_ncpu s"
    and ne: "Q (pcpu_id s) \<noteq> []" and free: "callout_free s (pcpu_id s)"
    and ok: "\<forall>c \<in> set (Q (pcpu_id s)). quiet_callout quiet s c"
    and lock: "callout_lock (pcpu_id s) (callback_entry s) = Some s1"
    and fired: "fire_all call (due (unat (elapsed_now s)) (ticks_of s) (Q (pcpu_id s))) s1 = Some s2"
  shows "\<exists>s' Q'. mdx_callout_callback call s = Some (MDX_OK, s') \<and>
    callback_post s Q (unat (elapsed_now s)) s' Q' \<and>
    timer_rearmed s (absq s' Q' (pcpu_id s)) s' \<and>
    callout_frame (s2\<lparr>c_locks := c_locks s\<rparr>) s'"
proof -
  let ?k = "pcpu_id s" and ?e = "elapsed_now s"
  from tm obtain mt start stop read where mt: "mi_tmr s = Some mt" "mt_start mt = Some start"
    "mt_stop mt = Some stop" "mt_count mt = Some read" by (auto simp: timer_ok_def)
  let ?mt = "mt\<lparr>mt_count_saved := (mt_count_saved mt)(?k := read ?k (hw s)),
     mt_states := (mt_states mt)(?k := MI_TIMER_STATE_EXCEPTION)\<rparr>"
  have entry: "callback_entry s = s\<lparr>mi_tmr := Some ?mt\<rparr>" using mt by (simp add: callback_entry_def)
  have free1: "callout_free (callback_entry s) ?k" using free by (simp add: entry callout_free_def)
  obtain l where s1: "s1 = s\<lparr>mi_tmr := Some ?mt, c_locks := l\<rparr>"
    using callout_lock_free [OF free1] lock entry by auto
  have wf1: "cwf s1 Q" using wf cwf_cong [of s1 s Q] by (simp add: s1)
  have k1: "pcpu_id s1 < cfg_ncpu s1" using k by (simp add: s1)
  have ok1: "\<forall>c \<in> set (Q (pcpu_id s1)). quiet_callout quiet s1 c"
    using ok by (simp add: s1 quiet_callout_def)
  have fired1: "fire_all call (due (unat ?e) (ticks_of s1) (Q (pcpu_id s1))) s1 = Some s2"
    using fired by (simp add: s1)
  from callback_loop_spec [OF wf1 k1 ok1 fired1] obtain s3 Q' where
    loop: "callback_loop call (pcpu_id s1) (first (pcpu_id s1) s1) ?e s1 = Some s3"
    "callback_post s1 Q (unat ?e) s3 Q'" "timer_frame s1 s3"
    "first (pcpu_id s1) s3 = hd_opt (Q' (pcpu_id s1))" "callout_frame s2 s3"
    by (elim exE conjE) (rule that)
  have t1: "ticks_of s1 = ticks_of s" "pcpu_id s1 = ?k" "cfg_ncpu s1 = cfg_ncpu s" by (simp_all add: s1)
  note fr = loop(3)
  define w where "w = (case absq s3 Q' ?k of [] \<Rightarrow> stop ?k (hw s)
     | (c, d) # _ \<Rightarrow> start ?k (min (word_of_nat d) (mt_maxcnt mt)) (hw s))"
  define m where "m = mt\<lparr>mt_count_saved := (mt_count_saved mt)(?k := read ?k (hw s)),
     mt_states := (mt_states mt)(?k :=
       (if absq s3 Q' ?k = [] then MI_TIMER_STATE_READY else MI_TIMER_STATE_RUNNING))\<rparr>"
  let ?s4 = "s3\<lparr>mi_tmr := Some m, hw := w\<rparr>"
  have unlock: "callout_unlock ?k ?s4 = Some (?s4\<lparr>c_locks := c_locks s\<rparr>)"
    using callout_unlock_held [OF free1 lock, of ?s4] fr by (simp add: timer_frame_def s1 entry)
  have ge: "get_elapsed s = Some (?e, read ?k (hw s))"
    using crit mt by (simp add: get_elapsed_def elapsed_now_def elapsed_ticks_def Let_def)
  have hd: "\<not> list_empty (Callouts_list ?k) (cq s)"
    using cwf_queue [OF wf k] ne by (simp add: cqueue_def kl.rep_empty)
  have tmr3: "mi_tmr s3 = Some ?mt" "hw s3 = hw s" "pcpu_id s3 = ?k" using fr by (simp_all add: timer_frame_def s1)
  have "mdx_callout_callback call s = Some (MDX_OK, ?s4\<lparr>c_locks := c_locks s\<rparr>)"
  proof (cases "Q' ?k")
    case Nil
    then have "?s4 = s3\<lparr>mi_tmr := Some (?mt\<lparr>mt_states := (mt_states ?mt)(?k := MI_TIMER_STATE_READY)\<rparr>),
        hw := stop ?k (hw s3)\<rparr>" using tmr3 by (simp add: m_def w_def)
    then show ?thesis
      using crit mt hd ge lock entry loop(1,4) t1(2) tmr3 unlock Nil
      by (simp add: mdx_callout_callback_def upd_mt_def Let_def)
  next
    case (Cons c cs)
    have "?s4 = s3\<lparr>mi_tmr := Some (?mt\<lparr>mt_states := (mt_states ?mt)(?k := MI_TIMER_STATE_RUNNING)\<rparr>),
        hw := start ?k (min (c_ticks (callouts s3 c)) (mt_maxcnt mt)) (hw s3)\<rparr>"
      using Cons tmr3 by (simp add: m_def w_def)
    then have "mi_tmr_start (c_ticks (callouts s3 c))
        (s3\<lparr>mi_tmr := Some (?mt\<lparr>mt_states := (mt_states ?mt)(?k := MI_TIMER_STATE_RUNNING)\<rparr>)\<rparr>) = Some ?s4"
      using mt tmr3 by (simp add: mi_tmr_start_def min_def)
    then show ?thesis
      using crit mt hd ge lock entry loop(1,4) t1(2) tmr3 unlock Cons
      by (simp add: mdx_callout_callback_def upd_mt_def Let_def)
  qed
  moreover have "callback_post s Q (unat ?e) (?s4\<lparr>c_locks := c_locks s\<rparr>) Q'"
    using loop(2) by (rule callback_post_cong) (simp_all add: s1)
  moreover have "timer_rearmed s (absq (?s4\<lparr>c_locks := c_locks s\<rparr>) Q' ?k) (?s4\<lparr>c_locks := c_locks s\<rparr>)"
    using mt by (simp add: timer_rearmed_def m_def w_def)
  moreover have "callout_frame (s2\<lparr>c_locks := c_locks s\<rparr>) (?s4\<lparr>c_locks := c_locks s\<rparr>)"
    using loop(5) by (elim callout_frameE) (simp add: callout_frame_def)
  ultimately show ?thesis by blast
qed

end

end
