(* ===== verification/Callout_Time.thy ===== *)
theory Callout_Time
  imports Callout_Intr
begin

text \<open>
  Time in the callout framework: the conversion of microseconds, the elapsed ticks read from
  the counter, the ticks a queued callout has left, and the registration of the timer.
\<close>

section \<open>Conversion of microseconds\<close>

lemma scale_div_bounds:
  fixes f u :: nat
  defines "t \<equiv> (f * 2 ^ 32 div 1000000) * u div 2 ^ 32"
  assumes "u < 2 ^ 32"
  shows "t \<le> f * u div 1000000" and "f * u div 1000000 \<le> t + 1"
proof -
  define F r where "F = f * 2 ^ 32 div 1000000" and "r = f * 2 ^ 32 mod 1000000"
  define q where "q = F * u mod 2 ^ 32"
  have f: "f * 2 ^ 32 = F * 1000000 + r" unfolding F_def r_def by (rule div_mult_mod_eq [symmetric])
  have r: "r < 1000000" by (simp add: r_def)
  have t: "F * u = t * 2 ^ 32 + q" unfolding t_def F_def q_def by (rule div_mult_mod_eq [symmetric])
  have q: "q < 2 ^ 32" by (simp add: q_def)
  have "f * u * 2 ^ 32 = (F * 1000000 + r) * u" by (metis f mult.assoc mult.commute)
  also have "\<dots> = (F * u) * 1000000 + r * u" by (simp add: algebra_simps)
  finally have eq: "f * u * 2 ^ 32 = t * 1000000 * 2 ^ 32 + (q * 1000000 + r * u)"
    unfolding t by (simp add: algebra_simps)
  have "r * u \<le> 1000000 * 2 ^ 32" using r assms(2) by (intro mult_le_mono) auto
  then have "q * 1000000 + r * u < 2 * 1000000 * 2 ^ 32" using q by simp
  then have "f * u * 2 ^ 32 < (t + 2) * 1000000 * 2 ^ 32" using eq by (simp add: algebra_simps)
  then have "f * u < (t + 2) * 1000000" by simp
  then show "f * u div 1000000 \<le> t + 1" using div_less_iff_less_mult [of 1000000 "f * u" "t + 2"] by simp
  have "t * 1000000 * 2 ^ 32 \<le> f * u * 2 ^ 32" using eq by simp
  then show "t \<le> f * u div 1000000" by (simp add: less_eq_div_iff_mult_less_eq)
qed

text \<open>The generic conversion computes in 64 bits with the frequency scaled by \<open>2 ^ 32\<close>.\<close>

lemma cputime_scaled:
  fixes freq :: u32
  shows "unat (push_bit 32 (ucast freq :: u64) div 1000000) = unat freq * 2 ^ 32 div 1000000"
proof -
  have "unat freq * 2 ^ 32 < 2 ^ 64" by simp
  then have "unat (push_bit 32 (ucast freq :: u64)) = unat freq * 2 ^ 32"
    using unat_push_bit [of "ucast freq :: u64" 32] by simp
  then show ?thesis by (simp add: unat_div)
qed

lemma mdx_cputime_usec_to_ticks_eq:
  assumes "(unat freq * 2 ^ 32 div 1000000) * unat usec \<le> (2 ^ 32 - 1) * 2 ^ 32" and "freq \<noteq> 0"
  shows "\<exists>t. mdx_cputime_usec_to_ticks freq usec = Some t \<and>
    unat t = (unat freq * 2 ^ 32 div 1000000) * unat usec div 2 ^ 32"
proof -
  define F where "F = push_bit 32 (ucast freq :: u64) div 1000000"
  have F: "unat F = unat freq * 2 ^ 32 div 1000000" unfolding F_def by (rule cputime_scaled)
  have "unat freq \<ge> 1" using assms(2) by (simp add: unat_eq_zero Suc_le_eq unat_gt_0)
  then have "unat F \<noteq> 0" unfolding F by simp
  then have F0: "F \<noteq> 0" by auto
  have m: "unat (push_bit 32 (0xffffffff :: u64)) = (2 ^ 32 - 1) * 2 ^ 32" by simp
  have "unat usec \<le> unat (push_bit 32 (0xffffffff :: u64) div F)"
    unfolding unat_div m using assms(1) \<open>unat F \<noteq> 0\<close> unfolding F [symmetric]
    by (simp add: less_eq_div_iff_mult_less_eq mult.commute)
  then have ok: "\<not> push_bit 32 (0xffffffff :: u64) div F < ucast usec"
    by (simp add: word_less_unat)
  have "unat F * unat usec < 2 ^ 64" using assms(1) F by simp
  then have p: "unat (F * ucast usec) = unat F * unat usec"
    using unat_mult_small [of F "ucast usec :: u64"] by simp
  have "unat (drop_bit 32 (F * ucast usec)) = unat F * unat usec div 2 ^ 32" by (simp add: unat_drop_bit p)
  moreover have "unat F * unat usec div 2 ^ 32 < 2 ^ 32" using assms(1) F by simp
  ultimately have "unat (ucast (drop_bit 32 (F * ucast usec)) :: u32) = unat F * unat usec div 2 ^ 32"
    using unat_ucast_small [of "drop_bit 32 (F * ucast usec)", where ?'b = 32] by simp
  then show ?thesis
    using ok F0 unfolding mdx_cputime_usec_to_ticks_def Let_def F_def [symmetric] by (simp add: F)
qed

section \<open>Reading the counter\<close>

text \<open>A counter that wraps after \<open>maxcnt\<close> has counted \<open>(count - saved) mod (maxcnt + 1)\<close> ticks.
  The code agrees as long as the counter has not wrapped since it was read, and is one tick
  short when it has.\<close>

lemma elapsed_ticks_wrap:
  assumes "saved \<le> maxcnt" and "count \<le> maxcnt"
  shows "unat (elapsed_ticks maxcnt saved count) + (if count < saved then 1 else 0) =
    (unat count + (unat maxcnt + 1) - unat saved) mod (unat maxcnt + 1)"
proof (cases "count < saved")
  case False
  then have "saved \<le> count" by simp
  then have e: "unat (elapsed_ticks maxcnt saved count) = unat count - unat saved"
    using False by (auto simp: elapsed_ticks_def unat_diff_le)
  have le: "unat count \<le> unat maxcnt" "unat saved \<le> unat count"
    using assms \<open>saved \<le> count\<close> by (simp_all add: word_le_unat)
  then have "unat count + (unat maxcnt + 1) - unat saved = unat count - unat saved + (unat maxcnt + 1)"
    by simp
  moreover have "unat count - unat saved < unat maxcnt + 1" using le by simp
  ultimately show ?thesis using False e by (simp only: mod_add_self2 mod_less) simp
next
  case True
  have le: "unat saved \<le> unat maxcnt" "unat count < unat saved"
    using assms(1) True by (simp_all add: word_le_unat word_less_unat)
  have d: "unat (maxcnt - saved) = unat maxcnt - unat saved" by (rule unat_diff_le [OF assms(1)])
  have "unat maxcnt - unat saved + unat count < 4294967296"
    using le by (intro order.strict_trans1 [OF _ unat_less_u32 [of maxcnt]]) simp
  then have "unat (maxcnt - saved + count) = unat maxcnt - unat saved + unat count"
    unfolding d [symmetric] by (intro unat_add_small) simp
  moreover have "elapsed_ticks maxcnt saved count = maxcnt - saved + count"
    using True by (auto simp: elapsed_ticks_def)
  ultimately show ?thesis using True le by simp
qed

section \<open>The time left\<close>

lemma callout_ticks_loop_spec:
  assumes "cqueue s k (xs @ cs)" and "(c, d) \<in> set (deadlines (ticks_of s) 0 cs)"
    and "unat v + (d - unat e) < 2 ^ 32"
  shows "\<exists>w. callout_ticks_loop k c s (hd_opt cs) e v = Some w \<and> unat w = unat v + (d - unat e)"
  using assms
proof (induction cs arbitrary: xs d e v)
  case (Cons y cs)
  let ?t = "c_ticks (callouts s y)"
  have nx: "next_c k y s = hd_opt cs" by (rule next_cqueue [OF Cons.prems(1)])
  have q: "cqueue s k ((xs @ [y]) @ cs)" using Cons.prems(1) by simp
  have y: "y \<notin> set cs" using cqueue_distinct [OF Cons.prems(1)] by simp
  have cs: "fst ` set (deadlines (ticks_of s) a cs) = set cs" for a
    by (metis deadlines_fst list.set_map)
  have c: "c = y \<and> d = unat ?t \<or> c \<noteq> y \<and> unat ?t \<le> d \<and> (c, d - unat ?t) \<in> set (deadlines (ticks_of s) 0 cs)"
  proof (cases "(c, d) = (y, unat ?t)")
    case False
    then have "(c, d) \<in> set (deadlines (ticks_of s) (0 + unat ?t) cs)" using Cons.prems(2) by auto
    then have im: "(c, d) \<in> (\<lambda>(c, d). (c, d + unat ?t)) ` set (deadlines (ticks_of s) 0 cs)"
      unfolding deadlines_shift by simp
    then have "c \<in> fst ` set (deadlines (ticks_of s) 0 cs)" by force
    then show ?thesis using y im unfolding cs by auto
  qed simp
  show ?case
  proof (cases "?t \<le> e")
    case True
    then have le: "unat ?t \<le> unat e" "unat (e - ?t) = unat e - unat ?t"
      by (simp_all add: word_le_unat unat_diff_le)
    show ?thesis
      using c Cons.IH [OF q, of "d - unat ?t" v "e - ?t"] Cons.prems(3) True le nx
      by (subst callout_ticks_loop.simps) (auto simp: Let_def)
  next
    case False
    then have lt: "unat e < unat ?t" "unat (?t - e) = unat ?t - unat e"
      by (simp_all add: word_le_unat unat_diff_le)
    have "unat (v + (?t - e)) = unat v + (unat ?t - unat e)"
      unfolding lt(2) [symmetric] by (rule unat_add_small) (use c Cons.prems(3) lt in auto)
    then show ?thesis
      using c Cons.IH [OF q, of "d - unat ?t" "v + (?t - e)" 0] Cons.prems(3) False lt nx
      by (subst callout_ticks_loop.simps) (auto simp: Let_def)
  qed
qed simp

text \<open>For a queued callout the operation returns the ticks from now to its deadline, zero when
  the deadline has passed; for an idle one it returns zero.\<close>

lemma mdx_callout_ticks_spec:
  assumes wf: "cwf s Q" and tm: "timer_ok s" and room: "crit_room s"
    and cpu: "c_cpuid (callouts s c) = pcpu_id s"
    and d: "(c, d) \<in> set (absq s Q (pcpu_id s))" and act: "active s c"
  shows "\<exists>v s'. mdx_callout_ticks c s = Some (v, s') \<and> unat v = d - unat (elapsed_now s) \<and>
    intr_on s' = intr_on s"
proof -
  let ?s = "critical_enter s" and ?k = "pcpu_id s"
  have k: "?k < cfg_ncpu s" using cwf_active [OF wf act] cpu by simp
  have q: "cqueue ?s ?k ([] @ Q ?k)" using cwf_queue [OF wf k] by (simp add: cqueue_def)
  obtain count where ge: "get_elapsed ?s = Some (elapsed_now s, count)"
    using get_elapsed_eq [OF critical_enter_in [OF room]] tm timer_cong [of ?s s] by auto
  have "d < 2 ^ 32" using cwf_fit [OF wf k d] by simp
  then have "\<exists>v. callout_ticks_loop ?k c ?s (hd_opt (Q ?k)) (elapsed_now s) 0 = Some v \<and>
      unat v = unat (0 :: u32) + (d - unat (elapsed_now s))"
    by (intro callout_ticks_loop_spec [OF q]) (use d in simp_all)
  then obtain v where v: "callout_ticks_loop ?k c ?s (first ?k ?s) (elapsed_now s) 0 = Some v"
    "unat v = d - unat (elapsed_now s)"
    using first_cqueue [of ?s ?k "Q ?k"] q by auto
  have "mdx_callout_ticks c s = Some (v, critical_exit ?s)"
    using ge v(1) act cpu by (simp add: mdx_callout_ticks_def Let_def)
  moreover have "intr_on (critical_exit ?s) = intr_on s" by (rule critical_bracket) simp_all
  ultimately show ?thesis using v(2) by blast
qed

section \<open>Registration\<close>

lemma register_loop_frame [simp]:
  "callouts (register_loop n s) = callouts s" "cfg_ncpu (register_loop n s) = cfg_ncpu s"
  "cfg_smp (register_loop n s) = cfg_smp s"
  by (induction n) (simp_all add: Let_def upd_mt_def)

lemma register_loop_queue: "i < n \<Longrightarrow> dlist (cq (register_loop n s)) (Callouts_list i) []"
proof (induction n)
  case (Suc n)
  then show ?case
    using kl.init_other [of "cq (register_loop n s)" "Callouts_list i" "[]" "Callouts_list n"]
    by (cases "i = n") (simp_all add: Let_def upd_mt_def kl.rep_init)
qed simp

lemma register_loop_free: "i < n \<Longrightarrow> callout_free (register_loop n s) i"
  by (induction n) (auto simp: Let_def upd_mt_def callout_free_def sl_init_def less_Suc_eq)

lemma register_loop_timer:
  "mi_tmr s = Some mt \<Longrightarrow> \<exists>st sv. mi_tmr (register_loop n s) = Some (mt\<lparr>mt_states := st, mt_count_saved := sv\<rparr>) \<and>
    (\<forall>i < n. st i = MI_TIMER_STATE_READY \<and> sv i = 0)"
proof (induction n)
  case 0
  then show ?case by (intro exI [of _ "mt_states mt"] exI [of _ "mt_count_saved mt"]) simp
next
  case (Suc n)
  then obtain st sv where "mi_tmr (register_loop n s) = Some (mt\<lparr>mt_states := st, mt_count_saved := sv\<rparr>)"
    "\<forall>i < n. st i = MI_TIMER_STATE_READY \<and> sv i = 0" by blast
  then have "mi_tmr (register_loop (Suc n) s) =
      Some (mt\<lparr>mt_states := st(n := MI_TIMER_STATE_READY), mt_count_saved := sv(n := 0)\<rparr>)"
    "\<forall>i < Suc n. (st(n := MI_TIMER_STATE_READY)) i = MI_TIMER_STATE_READY \<and> (sv(n := 0)) i = 0"
    by (simp_all add: Let_def upd_mt_def less_Suc_eq)
  then show ?case by blast
qed

text \<open>The checks of the registration, in the order of the code.\<close>

definition mt_acceptable :: "('h, 'x) kstate_scheme \<Rightarrow> 'h mi_timer \<Rightarrow> bool" where
  "mt_acceptable s mt \<longleftrightarrow> mt_maxcnt mt \<noteq> 0 \<and> mt_start mt \<noteq> None \<and> mt_stop mt \<noteq> None \<and>
     mt_frequency mt \<noteq> 0 \<and> mt_count mt \<noteq> None \<and>
     (mt_usec_to_ticks mt \<noteq> None \<or> (if mt_frequency mt = 1000000 then cfg_usec_1mhz s else cfg_usec s))"

lemma mdx_callout_setup_spec:
  "fst (mdx_callout_setup s mt) =
     (if mt_usec_to_ticks mt \<noteq> None \<or> (if mt_frequency mt = 1000000 then cfg_usec_1mhz s else cfg_usec s)
      then MDX_OK else MDX_ERROR)"
  "mt_start (snd (mdx_callout_setup s mt)) = mt_start mt" "mt_stop (snd (mdx_callout_setup s mt)) = mt_stop mt"
  "mt_count (snd (mdx_callout_setup s mt)) = mt_count mt"
  by (simp_all add: mdx_callout_setup_def)

lemma mdx_callout_register_spec:
  assumes idle: "\<And>c. \<not> active s c" and none: "mi_tmr s = None"
  shows "mt_acceptable s mt \<Longrightarrow> \<exists>s'. mdx_callout_register mt s = (MDX_OK, s') \<and> cwf s' (\<lambda>k. []) \<and> timer_ok s' \<and>
      (\<forall>k < cfg_ncpu s. callout_free s' k)"
    and "\<not> mt_acceptable s mt \<Longrightarrow> mdx_callout_register mt s = (MDX_ERROR, s)"
proof -
  obtain r mt' where su: "mdx_callout_setup s mt = (r, mt')" by fastforce
  show "mdx_callout_register mt s = (MDX_ERROR, s)" if "\<not> mt_acceptable s mt"
    using that none su mdx_callout_setup_spec(1) [of s mt]
    by (auto simp: mdx_callout_register_def mt_acceptable_def split: if_splits)
  show "\<exists>s'. mdx_callout_register mt s = (MDX_OK, s') \<and> cwf s' (\<lambda>k. []) \<and> timer_ok s' \<and>
      (\<forall>k < cfg_ncpu s. callout_free s' k)" if acc: "mt_acceptable s mt"
  proof -
    let ?s = "register_loop (cfg_ncpu s) (s\<lparr>mi_tmr := Some mt'\<rparr>)"
    have "r = MDX_OK" using acc su mdx_callout_setup_spec(1) [of s mt] by (simp add: mt_acceptable_def)
    then have "mdx_callout_register mt s = (MDX_OK, ?s)"
      using acc none su by (simp add: mdx_callout_register_def mt_acceptable_def)
    moreover have "cwf ?s (\<lambda>k. [])" by (rule cwfI) (use idle register_loop_queue in \<open>simp_all add: cqueue_def del: dlist_Nil\<close>)
    moreover have "timer_ok ?s"
      using register_loop_timer [of "s\<lparr>mi_tmr := Some mt'\<rparr>" mt' "cfg_ncpu s"] acc su mdx_callout_setup_spec(2-4) [of s mt]
      by (auto simp: timer_ok_def mt_acceptable_def)
    ultimately show ?thesis using register_loop_free by blast
  qed
qed

end
