(* ===== verification/Callout_Properties.thy ===== *)
theory Callout_Properties
  imports Callout_Time
begin

text \<open>
  The properties of the callout framework, each with a concrete instance: a kernel with two
  CPUs whose timer counts to \<open>0xffffffff\<close> at 1 MHz and whose first CPU has two callouts
  queued, 100 and 150 ticks after the last reading of the counter; 20 ticks have elapsed.
\<close>

section \<open>A concrete kernel\<close>

record demo_hw =
  hw_now :: u32
  hw_armed :: "u32 option"

definition demo_timer :: "demo_hw mi_timer" where
  "demo_timer = \<lparr>mt_start = Some (\<lambda>k t h. h\<lparr>hw_armed := Some t\<rparr>), mt_stop = Some (\<lambda>k h. h\<lparr>hw_armed := None\<rparr>),
     mt_count = Some (\<lambda>k h. hw_now h), mt_count_saved = (\<lambda>k. 10), mt_maxcnt = 0xffffffff,
     mt_frequency = 1000000, mt_usec_to_ticks = Some mdx_cputime_usec_to_ticks_1mhz,
     mt_ticks_to_usec = Some mdx_cputime_ticks_to_usec_1mhz, mt_states = (\<lambda>k. MI_TIMER_STATE_RUNNING)\<rparr>"

definition demo_callout :: "u32 \<Rightarrow> u32 \<Rightarrow> mdx_callout" where
  "demo_callout t fl = \<lparr>c_state = CALLOUT_STATE_READY, c_ticks = t, c_ticks_orig = t, c_func = Some Sem_cb,
     c_arg = Arg_token 0, c_flags = fl, c_cpuid = 0\<rparr>"

definition demo_thread :: thread where
  "demo_thread = \<lparr>td_name = ''demo'', td_saved_ie = True, td_critnest = 0, td_tf = 0, td_stack = 0,
     td_stack_top = 0, td_stack_size = 0, td_quantum = 0, td_idle = False, td_prio = 1, td_flags = 0,
     td_state = TD_STATE_READY\<rparr>"

definition demo_heap :: "'p heap" where
  "demo_heap = \<lparr>nextp = (\<lambda>p. p), prevp = (\<lambda>p. p)\<rparr>"

definition demo_cfg :: kconfig where
  "demo_cfg = \<lparr>dyn_alloc = False, sizeof_thread = 200, sizeof_timer = 48, sizeof_tf = 128, terminate_entry = 64,
     uptime_period = 1000, idle_thread = (\<lambda>k. 100 + k), intr_thread = (\<lambda>k. 200 + k), main_thread = 1\<rparr>"

definition demo :: "demo_hw kstate" where
  "demo = \<lparr>cfg_smp = True, cfg_ncpu = 2, cfg_nprio = 2, cfg_usec_1mhz = True, cfg_usec = True, cfg = demo_cfg, pcpu_id = 0,
     intr_on = (\<lambda>k. True), pc_curthread = (\<lambda>k. 0), threads = (\<lambda>t. demo_thread),
     hw = \<lparr>hw_now = 30, hw_armed = Some 100\<rparr>, mi_tmr = Some demo_timer,
     callouts = (\<lambda>c. if c = User_c 0 then demo_callout 100 1 else if c = User_c 1 then demo_callout 50 1
       else demo_callout 0 0),
     cq = list_append (Callouts_list 0) (C_node (User_c 1))
       (list_append (Callouts_list 0) (C_node (User_c 0)) demo_heap),
     c_locks = (\<lambda>k. 0), tq = demo_heap, sched_l = 0, pcq = demo_heap, pending_ipis = (\<lambda>k. 0), sip = (\<lambda>k. False),
     sems = (\<lambda>i. \<lparr>sem_count = 1, sem_count_initial = 1, sem_l = 0\<rparr>),
     tokens = (\<lambda>t. \<lparr>t_td = 0, t_sem = 0, t_timeout = False\<rparr>),
     timers = (\<lambda>i. \<lparr>count_us = 0, started = 0, period_us = 0\<rparr>),
     trapframes = (\<lambda>i. \<lparr>tf_ra = 0, tf_a0 = 0, tf_epc = 0, tf_status = 0, tf_cause = 0\<rparr>), kzone = 4096,
     kheap = \<lparr>nx = (\<lambda>a. 0), pv = (\<lambda>a. 0), sz = (\<lambda>a. 0), fg = (\<lambda>a. 0), dat = (\<lambda>a. 0)\<rparr>, uptime_initialized = False\<rparr>"

definition demo_q :: "cpuid \<Rightarrow> cptr list" where
  "demo_q = (\<lambda>k. if k = 0 then [User_c 0, User_c 1] else [])"

definition demo_callouts :: "cptr \<Rightarrow> mdx_callout" where
  "demo_callouts c = (if c = User_c 0 then demo_callout 100 1 else if c = User_c 1 then demo_callout 50 1
     else demo_callout 0 0)"

lemma demo_sel [simp]:
  "cfg_smp demo" "cfg_ncpu demo = 2" "pcpu_id demo = 0" "mi_tmr demo = Some demo_timer"
  "hw demo = \<lparr>hw_now = 30, hw_armed = Some 100\<rparr>" "c_locks demo = (\<lambda>k. 0)" "threads demo = (\<lambda>t. demo_thread)"
  "pc_curthread demo = (\<lambda>k. 0)" "cfg_usec_1mhz demo"
  unfolding demo_def kstate.select_convs by simp_all

lemma demo_lists:
  "callouts demo = demo_callouts"
  "cq demo = list_append (Callouts_list 0) (C_node (User_c 1))
       (list_append (Callouts_list 0) (C_node (User_c 0)) demo_heap)"
  unfolding demo_def kstate.select_convs by (simp_all add: demo_callouts_def fun_eq_iff)

lemma demo_empty: "dlist demo_heap l []"
  by (simp add: demo_heap_def)

lemma demo_cwf: "cwf demo demo_q"
proof (rule cwfI)
  have one: "dlist (list_append (Callouts_list 0) (C_node (User_c 0)) demo_heap) (Callouts_list 0) ([] @ [C_node (User_c 0)])"
    by (rule kl.rep_append [OF demo_empty]) simp
  show "cqueue demo j (demo_q j)" if "j < cfg_ncpu demo" for j
  proof (cases "j = 0")
    case True
    have "dlist (cq demo) (Callouts_list 0) (([] @ [C_node (User_c 0)]) @ [C_node (User_c 1)])"
      unfolding demo_lists by (rule kl.rep_append [OF one]) simp
    then show ?thesis using True by (simp add: cqueue_def demo_q_def)
  next
    case False
    have "dlist (list_append (Callouts_list 0) (C_node (User_c 0)) demo_heap) (Callouts_list j) []"
      by (rule kl.append_other [OF demo_empty demo_empty]) (use False in simp_all)
    then have "dlist (cq demo) (Callouts_list j) []"
      unfolding demo_lists by (rule kl.append_other [OF one]) (use False in simp_all)
    then show ?thesis using False by (simp add: cqueue_def demo_q_def)
  qed
qed (auto simp: demo_lists demo_callouts_def demo_q_def demo_callout_def CALLOUT_FLAG_ACTIVE_def split: if_splits)

lemma demo_ok: "timer_ok demo" "crit_room demo" "callout_free demo k"
  by (simp_all add: timer_ok_def demo_timer_def crit_room_def demo_thread_def callout_free_def)

lemma demo_elapsed: "elapsed_now demo = 20" "timer_running demo"
  by (simp_all add: elapsed_now_def timer_running_def demo_timer_def elapsed_ticks_def)

lemma demo_active: "active demo c \<longleftrightarrow> c = User_c 0 \<or> c = User_c 1"
  by (auto simp: demo_lists demo_callouts_def demo_callout_def CALLOUT_FLAG_ACTIVE_def)

lemma demo_cpuid [simp]: "c_cpuid (callouts demo c) = 0"
  by (simp add: demo_lists demo_callouts_def demo_callout_def)

lemma demo_absq: "absq demo demo_q 0 = [(User_c 0, 100), (User_c 1, 150)]"
  by (simp add: demo_q_def demo_lists demo_callouts_def demo_callout_def)

lemma demo_set_deadline: "set_deadline demo t = unat t + 20"
  by (simp add: set_deadline_def demo_elapsed)

section \<open>Setting and cancelling\<close>

text \<open>C11. Setting an idle callout (\<^verbatim>\<open>mdx_callout_set_ticks\<close>) returns without error and implements
  insertion by deadline: the callout is placed behind all callouts of this CPU due no later,
  at its own number of ticks from now, every other deadline of every CPU stays what it was,
  the queues stay well-formed, the given function and argument are recorded, and the lock
  and the interrupt enable are back to what they were.\<close>

theorem callout_set_inserts:
  assumes "cwf s Q" and "timer_ok s" and "crit_room s" and "callout_free s (pcpu_id s)"
    and "pcpu_id s < cfg_ncpu s" and "\<not> active s c" and "ticks \<noteq> 0"
    and "set_deadline s ticks < 2 ^ 32"
  shows "\<exists>s' Q'. mdx_callout_set_ticks c ticks f a s = Some (MDX_OK, s') \<and>
     callout_set_post s Q c (set_deadline s ticks) s' Q' \<and>
     c_func (callouts s' c) = f \<and> c_arg (callouts s' c) = a \<and>
     intr_on s' = intr_on s \<and> c_locks s' = c_locks s"
  using assms by (rule mdx_callout_set_ticks_spec)

theorem callout_set_inserts_witness:
  "\<exists>s' Q'. mdx_callout_set_ticks (User_c 2) 90 (Some Tsleep_cb) Arg_null demo = Some (MDX_OK, s') \<and>
     absq s' Q' 0 = [(User_c 0, 100), (User_c 2, 110), (User_c 1, 150)]"
  using callout_set_inserts [of demo demo_q "User_c 2" 90 "Some Tsleep_cb" Arg_null] demo_cwf
    demo_ok demo_active
  by (auto simp: demo_set_deadline callout_set_post_def demo_absq dl_insert_def)

text \<open>C32. A callout that is already queued is not queued twice: \<^verbatim>\<open>mdx_callout_set_ticks\<close> on it
  returns \<^verbatim>\<open>MDX_ERROR\<close> and changes no callout, no queue, no lock and not the timer. Zero ticks
  on an idle callout mark it fired at once and queue nothing.\<close>

theorem callout_set_refuses:
  assumes "timer_ok s" and "crit_room s" and "callout_free s (pcpu_id s)" and "active s c \<or> ticks = 0"
  shows "\<exists>s'. mdx_callout_set_ticks c ticks f a s = Some (if active s c then MDX_ERROR else MDX_OK, s') \<and>
     callouts s' = (callouts s)(c := (if active s c then callouts s c
       else (callouts s c)\<lparr>c_state := CALLOUT_STATE_FIRED\<rparr>)) \<and>
     cq s' = cq s \<and> c_locks s' = c_locks s \<and> mi_tmr s' = mi_tmr s \<and> hw s' = hw s \<and> intr_on s' = intr_on s"
  using assms by (rule mdx_callout_set_ticks_refuses)

theorem callout_set_refuses_witness:
  "\<exists>s'. mdx_callout_set_ticks (User_c 1) 90 None Arg_null demo = Some (MDX_ERROR, s') \<and> cq s' = cq demo"
  using callout_set_refuses [of demo "User_c 1" 90 None Arg_null] demo_ok demo_active by auto

text \<open>C15. Cancelling a callout (\<^verbatim>\<open>mdx_callout_cancel\<close>) inside a critical section always returns. It
  returns 0 exactly when the callout was queued; then the callout is off its queue, inactive,
  and every other deadline of every CPU is unchanged. When it was not queued, nothing changes.\<close>

theorem callout_cancel_removes:
  assumes "cwf s Q" and "mi_tmr s \<noteq> None" and "in_critical s"
    and "callout_free s (c_cpuid (callouts s c))"
  shows "\<exists>s' Q'. mdx_callout_cancel c s = Some (if active s c then 0 else 1, s') \<and>
    callout_cancel_post s Q c s' Q' \<and> c_locks s' = c_locks s \<and> mi_tmr s' = mi_tmr s \<and> hw s' = hw s \<and>
    (\<not> active s c \<longrightarrow> s' = s \<and> Q' = Q)"
  using assms by (rule mdx_callout_cancel_spec)

theorem callout_cancel_removes_witness:
  "\<exists>s' Q'. mdx_callout_cancel (User_c 0) (critical_enter demo) = Some (0, s') \<and> cwf s' Q' \<and>
     absq s' Q' 0 = [(User_c 1, 150)]"
proof -
  have "cwf (critical_enter demo) demo_q" using demo_cwf cwf_cong [of "critical_enter demo" demo] by simp
  then show ?thesis
    using callout_cancel_removes [of "critical_enter demo" demo_q "User_c 0"] demo_ok demo_active
      critical_enter_in [of demo] demo_absq
    by (force simp: callout_cancel_post_def dl_cancel_def callout_free_def)
qed

section \<open>Time\<close>

text \<open>C30. \<^verbatim>\<open>mdx_callout_ticks\<close> of a callout queued on the calling CPU returns its deadline minus the
  ticks elapsed since the counter was last read, or 0 when the deadline has passed.\<close>

theorem callout_ticks_left:
  assumes "cwf s Q" and "timer_ok s" and "crit_room s" and "c_cpuid (callouts s c) = pcpu_id s"
    and "(c, d) \<in> set (absq s Q (pcpu_id s))" and "active s c"
  shows "\<exists>v s'. mdx_callout_ticks c s = Some (v, s') \<and> unat v = d - unat (elapsed_now s) \<and>
    intr_on s' = intr_on s"
  using assms by (rule mdx_callout_ticks_spec)

theorem callout_ticks_left_witness:
  "\<exists>v s'. mdx_callout_ticks (User_c 1) demo = Some (v, s') \<and> unat v = 130"
  using callout_ticks_left [of demo demo_q "User_c 1" 150] demo_cwf demo_ok demo_active demo_absq demo_elapsed
  by auto

text \<open>C31. \<^verbatim>\<open>mdx_cputime_usec_to_ticks\<close> returns for every frequency and time whose number of ticks
  fits in 32 bits, and the result is that number or one less.\<close>

theorem cputime_usec_to_ticks_close:
  assumes "freq \<noteq> 0" and "unat freq * unat usec \<le> 1000000 * (2 ^ 32 - 1)"
  shows "\<exists>t. mdx_cputime_usec_to_ticks freq usec = Some t \<and>
    unat t \<le> unat freq * unat usec div 1000000 \<and> unat freq * unat usec div 1000000 \<le> unat t + 1"
proof -
  let ?F = "unat freq * 2 ^ 32 div 1000000"
  have "?F * 1000000 \<le> unat freq * 2 ^ 32" by (rule div_times_less_eq_dividend)
  then have "?F * 1000000 * unat usec \<le> unat freq * 2 ^ 32 * unat usec" by (rule mult_le_mono1)
  also have "\<dots> \<le> 1000000 * (2 ^ 32 - 1) * 2 ^ 32"
    using mult_le_mono1 [OF assms(2), of "2 ^ 32"] by (simp add: mult_ac)
  finally have "?F * unat usec \<le> (2 ^ 32 - 1) * 2 ^ 32" by (simp add: mult_ac)
  from mdx_cputime_usec_to_ticks_eq [OF this assms(1)] show ?thesis
    using scale_div_bounds [of "unat usec" "unat freq"] by auto
qed

theorem cputime_usec_to_ticks_close_witness:
  "\<exists>t. mdx_cputime_usec_to_ticks 32768 1000000 = Some t \<and> 32767 \<le> unat t \<and> unat t \<le> 32768"
  using cputime_usec_to_ticks_close [of 32768 1000000] by auto

text \<open>C36. The elapsed time \<^verbatim>\<open>get_elapsed\<close> computes for a counter of period \<open>maxcnt + 1\<close> is exact
  while the counter has not wrapped since it was last read, and one tick short when it has.\<close>

theorem get_elapsed_wrap:
  assumes "in_critical s" and "mi_tmr s = Some mt" and "mt_count mt = Some read"
    and "read (pcpu_id s) (hw s) = count" and "mt_count_saved mt (pcpu_id s) = saved"
    and "saved \<le> mt_maxcnt mt" and "count \<le> mt_maxcnt mt"
  shows "\<exists>e. get_elapsed s = Some (e, count) \<and> unat e + (if count < saved then 1 else 0) =
    (unat count + (unat (mt_maxcnt mt) + 1) - unat saved) mod (unat (mt_maxcnt mt) + 1)"
proof -
  have "get_elapsed s = Some (elapsed_ticks (mt_maxcnt mt) saved count, count)"
    using assms by (simp add: get_elapsed_def elapsed_ticks_def Let_def)
  then show ?thesis using elapsed_ticks_wrap [OF assms(6,7)] by blast
qed

theorem get_elapsed_wrap_witness:
  "\<exists>e. get_elapsed (critical_enter demo\<lparr>hw := \<lparr>hw_now = 4, hw_armed = None\<rparr>\<rparr>) = Some (e, 4) \<and>
     unat e + 1 = 4294967290"
  using get_elapsed_wrap [of "critical_enter demo\<lparr>hw := \<lparr>hw_now = 4, hw_armed = None\<rparr>\<rparr>" demo_timer
      "\<lambda>k h. hw_now h" 4 10] critical_enter_in [of demo] demo_ok
  by (simp add: in_critical_def demo_timer_def)

section \<open>Registration\<close>

text \<open>C38. \<^verbatim>\<open>mdx_callout_register\<close> accepts the first timer that has a maximal count, a frequency, the
  three operations and a time conversion, and leaves well-formed empty queues with free locks;
  it rejects any other first timer without a change, and every second timer.\<close>

theorem callout_register_outcome:
  assumes "\<forall>c. \<not> active s c"
  shows "if mi_tmr s \<noteq> None then mdx_callout_register mt s = (MDX_EEXIST, s)
    else if \<not> mt_acceptable s mt then mdx_callout_register mt s = (MDX_ERROR, s)
    else \<exists>s'. mdx_callout_register mt s = (MDX_OK, s') \<and> cwf s' (\<lambda>k. []) \<and> timer_ok s' \<and>
      (\<forall>k < cfg_ncpu s. callout_free s' k)"
  using mdx_callout_register_spec [of s mt] assms
  by (auto simp: mdx_callout_register_def split del: if_split split: if_splits)

theorem callout_register_outcome_witness:
  "\<exists>s'. mdx_callout_register demo_timer (demo\<lparr>mi_tmr := None, callouts := (\<lambda>c. demo_callout 0 0)\<rparr>) = (MDX_OK, s') \<and>
     cwf s' (\<lambda>k. [])"
  using callout_register_outcome [of "demo\<lparr>mi_tmr := None, callouts := (\<lambda>c. demo_callout 0 0)\<rparr>" demo_timer]
  by (auto simp: demo_callout_def mt_acceptable_def demo_timer_def)

end
