(* ===== verification/Sched.thy ===== *)
theory Sched
  imports Callout
begin

text \<open>
  The round-robin scheduler of \<^verbatim>\<open>kernel/sched/mdx_sched.c\<close>, the inter-processor interrupts of
  \<^verbatim>\<open>arch/riscv/riscv/clint_intr.c\<close>, the kernel's memory allocation of
  \<^verbatim>\<open>kernel/malloc/mdx_malloc_fl.c\<close> and the threads of \<^verbatim>\<open>kernel/thread/\<close>.

  There is one run queue per priority. A thread is in a run queue when it is ready, in the
  list of a semaphore when it waits for it, and in neither when it runs or sleeps.
\<close>

section \<open>Memory allocation\<close>

text \<open>The allocator is called inside a critical section. A null pointer is 0.\<close>

definition k_malloc :: "u32 \<Rightarrow> ('h, 'x) kstate_scheme \<Rightarrow> (nat \<times> ('h, 'x) kstate_scheme) option" where
  "k_malloc n s =
     do { let s = critical_enter s;
          (ret, m) \<leftarrow> mdx_fl_malloc (kzone s) n (kheap s);
          Some (ret, critical_exit (s\<lparr>kheap := m\<rparr>)) }"

definition k_free :: "nat \<Rightarrow> ('h, 'x) kstate_scheme \<Rightarrow> ('h, 'x) kstate_scheme option" where
  "k_free ptr s =
     do { let s = critical_enter s;
          m \<leftarrow> mdx_fl_free (kzone s) ptr (kheap s);
          Some (critical_exit (s\<lparr>kheap := m\<rparr>)) }"

definition zalloc :: "u32 \<Rightarrow> ('h, 'x) kstate_scheme \<Rightarrow> (nat \<times> ('h, 'x) kstate_scheme) option" where
  "zalloc n s =
     do { (ret, s) \<leftarrow> k_malloc n s;
          if ret = 0 then Some (ret, s)
          else Some (ret, s\<lparr>kheap := fl_bzero ret n (kheap s)\<rparr>) }"

definition k_calloc :: "u32 \<Rightarrow> u32 \<Rightarrow> ('h, 'x) kstate_scheme \<Rightarrow> (nat \<times> ('h, 'x) kstate_scheme) option" where
  "k_calloc number n s =
     do { let s = critical_enter s;
          (ret, m) \<leftarrow> mdx_fl_calloc (kzone s) number n (kheap s);
          Some (ret, critical_exit (s\<lparr>kheap := m\<rparr>)) }"

definition k_realloc :: "nat \<Rightarrow> u32 \<Rightarrow> ('h, 'x) kstate_scheme \<Rightarrow> (nat \<times> ('h, 'x) kstate_scheme) option" where
  "k_realloc ptr n s =
     do { let s = critical_enter s;
          (ret, m) \<leftarrow> mdx_fl_realloc (kzone s) (kzone s) ptr n (kheap s);
          Some (ret, critical_exit (s\<lparr>kheap := m\<rparr>)) }"

definition malloc_add_region :: "nat \<Rightarrow> u32 \<Rightarrow> ('h, 'x) kstate_scheme \<Rightarrow> ('h, 'x) kstate_scheme option" where
  "malloc_add_region base n s =
     do { let s = critical_enter s;
          m \<leftarrow> mdx_fl_add_region (kzone s) base n (kheap s);
          Some (critical_exit (s\<lparr>kheap := m\<rparr>)) }"

definition malloc_init :: "('h, 'x) kstate_scheme \<Rightarrow> ('h, 'x) kstate_scheme" where
  "malloc_init s =
     (let s = critical_enter s
      in critical_exit (s\<lparr>kheap := mdx_fl_init (kzone s) (kheap s)\<rparr>))"

section \<open>Allocation and release of threads\<close>

definition TD_FLAGS_DYN_ALLOC_SP :: u32 where
  "TD_FLAGS_DYN_ALLOC_SP = push_bit 0 1"

definition TD_FLAGS_DYN_ALLOC_TD :: u32 where
  "TD_FLAGS_DYN_ALLOC_TD = push_bit 1 1"

text \<open>A \<^verbatim>\<open>struct thread\<close> of zero bytes.\<close>

definition zero_thread :: thread where
  "zero_thread = \<lparr>td_name = [], td_saved_ie = False, td_critnest = 0, td_tf = 0, td_stack = 0,
     td_stack_top = 0, td_stack_size = 0, td_quantum = 0, td_idle = False, td_prio = 0, td_flags = 0,
     td_state = TD_STATE_READY\<rparr>"

definition zero_callout :: mdx_callout where
  "zero_callout = \<lparr>c_state = CALLOUT_STATE_READY, c_ticks = 0, c_ticks_orig = 0, c_func = None,
     c_arg = Arg_null, c_flags = 0, c_cpuid = 0\<rparr>"

definition zero_td :: "tid \<Rightarrow> ('h, 'x) kstate_scheme \<Rightarrow> ('h, 'x) kstate_scheme" where
  "zero_td td s = upd_callout (Td_c td) (\<lambda>_. zero_callout) (upd_thread td (\<lambda>_. zero_thread) s)"

definition mdx_thread_alloc :: "u32 \<Rightarrow> ('h, 'x) kstate_scheme \<Rightarrow> (tid \<times> ('h, 'x) kstate_scheme) option" where
  "mdx_thread_alloc stack_size s =
     do { (td, s) \<leftarrow> zalloc (sizeof_thread (cfg s)) s;
          if td = 0 then Some (0, s)
          else do {
            let s = zero_td td s;
            let s = upd_thread td (\<lambda>t. t\<lparr>td_flags := TD_FLAGS_DYN_ALLOC_TD\<rparr>) s;
            if stack_size = 0 then Some (td, s)
            else do {
              (sp, s) \<leftarrow> zalloc stack_size s;
              let s = upd_thread td (\<lambda>t. t\<lparr>td_stack := sp\<rparr>) s;
              if sp = 0 then do { s \<leftarrow> k_free td s; Some (0, s) }
              else Some (td, upd_thread td (\<lambda>t. t\<lparr>td_flags := td_flags t OR TD_FLAGS_DYN_ALLOC_SP,
                                                     td_stack_size := stack_size\<rparr>) s) } } }"

definition mdx_thread_free :: "tid \<Rightarrow> ('h, 'x) kstate_scheme \<Rightarrow> ('h, 'x) kstate_scheme option" where
  "mdx_thread_free td s =
     do { s \<leftarrow> (if td_flags (threads s td) AND TD_FLAGS_DYN_ALLOC_SP \<noteq> 0
                then k_free (td_stack (threads s td)) s else Some s);
          if td_flags (threads s td) AND TD_FLAGS_DYN_ALLOC_TD \<noteq> 0 then k_free td s else Some s }"

definition mdx_thread_terminate_cleanup :: "tid \<Rightarrow> ('h, 'x) kstate_scheme \<Rightarrow> ('h, 'x) kstate_scheme option" where
  "mdx_thread_terminate_cleanup td s =
     do { KASSERT (td_state (threads s td) = TD_STATE_TERMINATING);
          if dyn_alloc (cfg s) then mdx_thread_free td s else Some s }"

section \<open>Inter-processor interrupts\<close>

definition IPI_IPI :: u32 where
  "IPI_IPI = push_bit 0 1"

definition IPI_TRYST :: u32 where
  "IPI_TRYST = push_bit 1 1"

definition clint_set_sip :: "cpuid \<Rightarrow> ('h, 'x) kstate_scheme \<Rightarrow> ('h, 'x) kstate_scheme" where
  "clint_set_sip k s = s\<lparr>sip := (sip s)(k := True)\<rparr>"

partial_function (option) send_ipi_loop :: "u32 \<Rightarrow> u32 \<Rightarrow> cpuid \<Rightarrow> ('h, 'x) kstate_scheme \<Rightarrow>
    ('h, 'x) kstate_scheme option" where
  "send_ipi_loop cpumask ipi p s =
     (let s = (if cpumask AND push_bit p 1 \<noteq> 0 then
                 clint_set_sip p (s\<lparr>pending_ipis := (pending_ipis s)(p := pending_ipis s p OR ipi)\<rparr>)
               else s)
      in if nextp (pcq s) (Pc_all p) = Pcpu_all then Some s
         else do { q \<leftarrow> container_pc (nextp (pcq s) (Pc_all p)); send_ipi_loop cpumask ipi q s })"

definition send_ipi :: "u32 \<Rightarrow> u32 \<Rightarrow> ('h, 'x) kstate_scheme \<Rightarrow> ('h, 'x) kstate_scheme option" where
  "send_ipi cpumask ipi s =
     do { KASSERT (cfg_ncpu s \<le> 32);
          KASSERT (\<not> list_empty Pcpu_all (pcq s));
          p \<leftarrow> container_pc (nextp (pcq s) Pcpu_all);
          send_ipi_loop cpumask ipi p s }"

section \<open>The run queue\<close>

definition mdx_sched_lock :: "('h, 'x) kstate_scheme \<Rightarrow> ('h, 'x) kstate_scheme option" where
  "mdx_sched_lock s =
     (if cfg_smp s then do { v \<leftarrow> sl_lock (sched_l s); Some (s\<lparr>sched_l := v\<rparr>) } else Some s)"

definition mdx_sched_unlock :: "('h, 'x) kstate_scheme \<Rightarrow> ('h, 'x) kstate_scheme option" where
  "mdx_sched_unlock s =
     (if cfg_smp s then do { v \<leftarrow> sl_unlock (sched_l s); Some (s\<lparr>sched_l := v\<rparr>) } else Some s)"

text \<open>The loop from the highest priority down to 0; not finding a thread is a panic.\<close>

primrec pick_loop :: "nat \<Rightarrow> ('h, 'x) kstate_scheme \<Rightarrow> (tid \<times> ('h, 'x) kstate_scheme) option" where
  "pick_loop 0 s = None"
| "pick_loop (Suc i) s =
     (if list_empty (Runq i) (tq s) then pick_loop i s
      else do { td \<leftarrow> container_td (nextp (tq s) (Runq i));
                Some (td, s\<lparr>tq := list_remove (Td_node td) (tq s)\<rparr>) })"

definition mdx_sched_pick :: "('h, 'x) kstate_scheme \<Rightarrow> (tid \<times> ('h, 'x) kstate_scheme) option" where
  "mdx_sched_pick s = pick_loop (cfg_nprio s) s"

definition mdx_sched_cb :: "tid \<Rightarrow> ('h, 'x) kstate_scheme \<Rightarrow> ('h, 'x) kstate_scheme option" where
  "mdx_sched_cb td s =
     do { KASSERT (in_critical s);
          s \<leftarrow> mdx_sched_lock s;
          KASSERT (td_state (threads s td) = TD_STATE_RUNNING);
          mdx_sched_unlock (set_td_state td TD_STATE_READY s) }"

definition mdx_sched_cpu_notify :: "('h, 'x) kstate_scheme \<Rightarrow> ('h, 'x) kstate_scheme option" where
  "mdx_sched_cpu_notify s =
     (if \<not> list_empty Pcpu_list (pcq s) then
        do { p \<leftarrow> container_pc (nextp (pcq s) Pcpu_list);
             KASSERT (pcpu_id s \<noteq> p);
             send_ipi (push_bit p 1) IPI_IPI s }
      else Some s)"

text \<open>A negative priority passes the assertion; the access before the array has no meaning.\<close>

definition mdx_sched_add :: "tid \<Rightarrow> ('h, 'x) kstate_scheme \<Rightarrow> ('h, 'x) kstate_scheme option" where
  "mdx_sched_add td s =
     do { let s = critical_enter s;
          s \<leftarrow> mdx_sched_lock s;
          KASSERT (td_prio (threads s td) < int (cfg_nprio s));
          s \<leftarrow> (if td_prio (threads s td) < 0 then None
                else Some (s\<lparr>tq := list_append (Runq (nat (td_prio (threads s td)))) (Td_node td) (tq s)\<rparr>));
          s \<leftarrow> (if cfg_smp s \<and> \<not> td_idle (threads s td) then mdx_sched_cpu_notify s else Some s);
          s \<leftarrow> mdx_sched_unlock s;
          Some (critical_exit s) }"

definition mdx_sched_ack :: "tid \<Rightarrow> ('h, 'x) kstate_scheme \<Rightarrow> (bool \<times> ('h, 'x) kstate_scheme) option" where
  "mdx_sched_ack td s =
     (case td_state (threads s td) of
        TD_STATE_TERMINATING \<Rightarrow> do { s \<leftarrow> mdx_thread_terminate_cleanup td s; Some (True, s) }
      | TD_STATE_SEM_WAIT \<Rightarrow> Some (True, set_td_state td TD_STATE_ACK s)
      | TD_STATE_SLEEPING \<Rightarrow> Some (True, set_td_state td TD_STATE_ACK s)
      | _ \<Rightarrow> Some (False, s))"

definition mdx_sched_park :: "tid \<Rightarrow> ('h, 'x) kstate_scheme \<Rightarrow> (bool \<times> ('h, 'x) kstate_scheme) option" where
  "mdx_sched_park td s =
     (case td_state (threads s td) of
        TD_STATE_RUNNING \<Rightarrow> Some (False, s)
      | TD_STATE_YIELDING \<Rightarrow> do { s \<leftarrow> mdx_sched_add td s; Some (True, s) }
      | TD_STATE_READY \<Rightarrow> do { s \<leftarrow> mdx_sched_add td s; Some (True, s) }
      | _ \<Rightarrow> None)"

definition mdx_sched_next :: "('h, 'x) kstate_scheme \<Rightarrow> (tid \<times> ('h, 'x) kstate_scheme) option" where
  "mdx_sched_next s =
     do { KASSERT (in_critical s);
          s \<leftarrow> mdx_sched_lock s;
          (td, s) \<leftarrow> mdx_sched_pick s;
          let s = (if cfg_smp s \<and> td_idle (threads s td)
                   then s\<lparr>pcq := list_append Pcpu_list (Pc_avail (pcpu_id s)) (pcq s)\<rparr> else s);
          s \<leftarrow> mdx_sched_unlock s;
          let s = (if \<not> td_idle (threads s td) then set_td_state td TD_STATE_RUNNING s else s);
          s \<leftarrow> (if td_quantum (threads s td) \<noteq> 0 then
                 do { KASSERT (\<not> td_idle (threads s td));
                      let s = mdx_callout_init (Td_c td) s;
                      (_, s) \<leftarrow> mdx_callout_set_ticks (Td_c td) (td_quantum (threads s td))
                                (Some Sched_cb) (Arg_thread td) s;
                      Some s }
               else Some s);
          Some (td, s) }"

definition mdx_sched_cpu_avail :: "cpuid \<Rightarrow> bool \<Rightarrow> ('h, 'x) kstate_scheme \<Rightarrow> ('h, 'x) kstate_scheme option" where
  "mdx_sched_cpu_avail k available s =
     do { let s = critical_enter s;
          s \<leftarrow> mdx_sched_lock s;
          let s = (if available then s\<lparr>pcq := list_append Pcpu_list (Pc_avail k) (pcq s)\<rparr>
                   else s\<lparr>pcq := list_remove (Pc_avail k) (pcq s)\<rparr>);
          s \<leftarrow> mdx_sched_unlock s;
          Some (critical_exit s) }"

definition mdx_sched_cpu_add :: "cpuid \<Rightarrow> ('h, 'x) kstate_scheme \<Rightarrow> ('h, 'x) kstate_scheme option" where
  "mdx_sched_cpu_add k s =
     do { let s = critical_enter s;
          s \<leftarrow> mdx_sched_lock s;
          let s = s\<lparr>pcq := list_append Pcpu_all (Pc_all k) (pcq s)\<rparr>;
          s \<leftarrow> mdx_sched_unlock s;
          Some (critical_exit s) }"

primrec sched_init_loop :: "nat \<Rightarrow> ('h, 'x) kstate_scheme \<Rightarrow> ('h, 'x) kstate_scheme" where
  "sched_init_loop 0 s = s"
| "sched_init_loop (Suc i) s =
     (let s = sched_init_loop i s in s\<lparr>tq := list_init (Runq i) (tq s)\<rparr>)"

definition mdx_sched_init :: "('h, 'x) kstate_scheme \<Rightarrow> ('h, 'x) kstate_scheme" where
  "mdx_sched_init s =
     (let s = sched_init_loop (cfg_nprio s) s
      in if cfg_smp s then s\<lparr>sched_l := sl_init\<rparr> else s)"

end
