(* ===== verification/Thread.thy ===== *)
theory Thread
  imports Sched
begin

text \<open>
  Threads (\<^verbatim>\<open>kernel/thread/\<close>), semaphores, sleeping and software timers (\<^verbatim>\<open>kernel/sched/mdx_sem.c\<close>,
  \<^verbatim>\<open>mdx_tsleep.c\<close>, \<^verbatim>\<open>kernel/timer/\<close>).

  An operation that gives up the CPU is modelled by what it does before \<^verbatim>\<open>md_thread_yield\<close> (suffix
  \<open>_enter\<close>) and what it does when the thread runs again (suffix \<open>_resume\<close>); the trap between
  them is \<open>riscv_exception\<close> of \<open>Trap\<close>.
\<close>

section \<open>Thread life cycle\<close>

definition MSTATUS_THREAD :: u32 where
  "MSTATUS_THREAD = push_bit 7 1 OR push_bit 11 3"

definition md_setup_frame :: "nat \<Rightarrow> u32 \<Rightarrow> u32 \<Rightarrow> u32 \<Rightarrow> ('h, 'x) kstate_scheme \<Rightarrow> ('h, 'x) kstate_scheme" where
  "md_setup_frame tf entry arg terminate s =
     s\<lparr>trapframes := (trapframes s)(tf :=
        \<lparr>tf_ra = terminate, tf_a0 = arg, tf_epc = entry, tf_status = MSTATUS_THREAD, tf_cause = 0\<rparr>)\<rparr>"

text \<open>\<^verbatim>\<open>td\<close> 0 is the null pointer.\<close>

definition mdx_thread_setup :: "tid \<Rightarrow> string \<Rightarrow> int \<Rightarrow> u32 \<Rightarrow> u32 \<Rightarrow> u32 \<Rightarrow>
    ('h, 'x) kstate_scheme \<Rightarrow> (mdx_result \<times> ('h, 'x) kstate_scheme) option" where
  "mdx_thread_setup td name prio quantum_usec entry arg s =
     (if td = 0 \<or> td_stack (threads s td) = 0 then Some (MDX_ERROR, s)
      else if td_stack_size (threads s td) = 0 then Some (MDX_ERROR, s)
      else if entry = 0 then Some (MDX_ERROR, s)
      else do {
        let s = upd_thread td (\<lambda>t. t\<lparr>td_stack_top := td_stack t + unat (td_stack_size t)\<rparr>) s;
        quantum \<leftarrow> (if quantum_usec \<noteq> 0 then mdx_callout_usec_to_ticks quantum_usec s else Some 0);
        let s = upd_thread td (\<lambda>t. t\<lparr>td_name := name, td_quantum := quantum, td_state := TD_STATE_READY,
                                     td_tf := td_stack_top t - unat (sizeof_tf (cfg s)), td_prio := prio\<rparr>) s;
        let s = md_setup_frame (td_tf (threads s td)) entry arg (terminate_entry (cfg s)) s;
        Some (MDX_OK, s) })"

definition mdx_thread_create :: "string \<Rightarrow> int \<Rightarrow> u32 \<Rightarrow> u32 \<Rightarrow> u32 \<Rightarrow> u32 \<Rightarrow>
    ('h, 'x) kstate_scheme \<Rightarrow> (tid \<times> ('h, 'x) kstate_scheme) option" where
  "mdx_thread_create name prio quantum_usec stack_size entry arg s =
     do { (td, s) \<leftarrow> mdx_thread_alloc stack_size s;
          if td = 0 then Some (0, s)
          else do {
            (ret, s) \<leftarrow> mdx_thread_setup td name prio quantum_usec entry arg s;
            if ret \<noteq> MDX_OK then
              do { s \<leftarrow> k_free (td_stack (threads s td)) s;
                   s \<leftarrow> k_free td s;
                   Some (0, s) }
            else Some (td, s) } }"

definition mdx_thread_init :: "cpuid \<Rightarrow> ('h, 'x) kstate_scheme \<Rightarrow> ('h, 'x) kstate_scheme" where
  "mdx_thread_init k s =
     (let td = idle_thread (cfg s) k;
          s = zero_td td s;
          s = upd_thread td (\<lambda>t. t\<lparr>td_name := ''idle'', td_quantum := 0, td_prio := 0, td_idle := True,
                                   td_state := TD_STATE_READY\<rparr>) s
      in s\<lparr>pc_curthread := (pc_curthread s)(pcpu_id s := td)\<rparr>)"

text \<open>\<^verbatim>\<open>mdx_thread_main\<close> up to \<^verbatim>\<open>mdx_sched_enter\<close>, with the constants \<^verbatim>\<open>MDX_THREAD_PRIO\<close>,
  \<^verbatim>\<open>MDX_THREAD_QUANTUM\<close>, \<^verbatim>\<open>MDX_THREAD_STACK_SIZE\<close>, the static stack and the address of
  \<^verbatim>\<open>main\<close> as arguments. \<^verbatim>\<open>mdx_sched_enter\<close> asserts that it is called from an idle thread, yields and
  then idles forever.\<close>

definition mdx_thread_main :: "int \<Rightarrow> u32 \<Rightarrow> u32 \<Rightarrow> nat \<Rightarrow> u32 \<Rightarrow> ('h, 'x) kstate_scheme \<Rightarrow>
    ('h, 'x) kstate_scheme option" where
  "mdx_thread_main prio quantum stack_size stack main s =
     do { (td, s) \<leftarrow>
            (if \<not> dyn_alloc (cfg s) then
               do { let td = main_thread (cfg s);
                    let s = upd_thread td (\<lambda>t. t\<lparr>td_stack := stack, td_stack_size := stack_size\<rparr>) s;
                    (_, s) \<leftarrow> mdx_thread_setup td ''main'' prio quantum main 0 s;
                    Some (td, s) }
             else
               do { (td, s) \<leftarrow> mdx_thread_create ''main'' prio quantum stack_size main 0 s;
                    if td = 0 then None else Some (td, s) });
          s \<leftarrow> mdx_sched_add td s;
          KASSERT (td_idle (curtd s));
          Some s }"

definition mdx_thread_yield_enter :: "('h, 'x) kstate_scheme \<Rightarrow> ('h, 'x) kstate_scheme" where
  "mdx_thread_yield_enter s =
     (let td = curthread s; s = critical_enter s
      in critical_exit (set_td_state td TD_STATE_YIELDING s))"

text \<open>Returning from the yield is a panic.\<close>

definition mdx_thread_terminate_enter :: "('h, 'x) kstate_scheme \<Rightarrow> ('h, 'x) kstate_scheme option" where
  "mdx_thread_terminate_enter s =
     do { let td = curthread s;
          let s = critical_enter s;
          let s = set_td_state td TD_STATE_TERMINATING s;
          (_, s) \<leftarrow> mdx_callout_cancel (Td_c td) s;
          Some (critical_exit s) }"

section \<open>Semaphores\<close>

definition sem_lock :: "semid \<Rightarrow> ('h, 'x) kstate_scheme \<Rightarrow> ('h, 'x) kstate_scheme option" where
  "sem_lock i s = do { v \<leftarrow> sl_lock (sem_l (sems s i)); Some (upd_sem i (\<lambda>r. r\<lparr>sem_l := v\<rparr>) s) }"

definition sem_unlock :: "semid \<Rightarrow> ('h, 'x) kstate_scheme \<Rightarrow> ('h, 'x) kstate_scheme option" where
  "sem_unlock i s = do { v \<leftarrow> sl_unlock (sem_l (sems s i)); Some (upd_sem i (\<lambda>r. r\<lparr>sem_l := v\<rparr>) s) }"

definition mdx_sem_init :: "semid \<Rightarrow> int \<Rightarrow> ('h, 'x) kstate_scheme \<Rightarrow> ('h, 'x) kstate_scheme" where
  "mdx_sem_init i count s =
     (let s = upd_sem i (\<lambda>r. r\<lparr>sem_count := count, sem_count_initial := count\<rparr>) s;
          s = s\<lparr>tq := list_init (Sem_td_list i) (tq s)\<rparr>
      in upd_sem i (\<lambda>r. r\<lparr>sem_l := sl_init\<rparr>) s)"

text \<open>The argument is the token on the stack of the waiting thread \<open>td\<close>.\<close>

definition mdx_sem_cb :: "tid \<Rightarrow> ('h, 'x) kstate_scheme \<Rightarrow> ('h, 'x) kstate_scheme option" where
  "mdx_sem_cb w s =
     do { let i = t_sem (tokens s w);
          let td = t_td (tokens s w);
          KASSERT (in_critical s);
          s \<leftarrow> sem_lock i s;
          if td_state (threads s td) = TD_STATE_SEM_UNLOCK then
            sem_unlock i (set_td_state td TD_STATE_SEM_UNLOCK_ACK s)
          else do {
            let s = s\<lparr>tokens := (tokens s)(w := (tokens s w)\<lparr>t_timeout := True\<rparr>)\<rparr>;
            KASSERT (td_state (threads s td) = TD_STATE_ACK);
            let s = s\<lparr>tq := list_remove (Td_node td) (tq s)\<rparr>;
            let s = set_td_state td TD_STATE_WAKEUP s;
            s \<leftarrow> mdx_sched_add td s;
            sem_unlock i s } }"

datatype wait_result = Acquired | Blocked

text \<open>The timeout of the wait, if there is one.\<close>

definition sem_set_timeout :: "tid \<Rightarrow> semid \<Rightarrow> u32 \<Rightarrow> ('h, 'x) kstate_scheme \<Rightarrow> ('h, 'x) kstate_scheme option" where
  "sem_set_timeout td i usec s =
     (if usec \<noteq> 0 then do {
        let s = s\<lparr>tokens := (tokens s)(td := \<lparr>t_td = td, t_sem = i, t_timeout = False\<rparr>)\<rparr>;
        let s = mdx_callout_init (Td_c td) s;
        (_, s) \<leftarrow> mdx_callout_set (Td_c td) usec (Some Sem_cb) (Arg_token td) s;
        Some s }
      else Some s)"

definition mdx_sem_timedwait_enter :: "semid \<Rightarrow> u32 \<Rightarrow> ('h, 'x) kstate_scheme \<Rightarrow>
    (wait_result \<times> ('h, 'x) kstate_scheme) option" where
  "mdx_sem_timedwait_enter i usec s =
     do { let td = curthread s;
          KASSERT (\<not> td_idle (threads s td));
          KASSERT (td_critnest (threads s td) = 0);
          let s = critical_enter s;
          s \<leftarrow> sem_lock i s;
          if sem_count (sems s i) > 0 then do {
            let s = upd_sem i (\<lambda>r. r\<lparr>sem_count := sem_count r - 1\<rparr>) s;
            s \<leftarrow> sem_unlock i s;
            Some (Acquired, critical_exit s) }
          else do {
            (_, s) \<leftarrow> mdx_callout_cancel (Td_c td) s;
            s \<leftarrow> sem_set_timeout td i usec s;
            let s = set_td_state td TD_STATE_SEM_WAIT s;
            let s = s\<lparr>tq := list_append (Sem_td_list i) (Td_node td) (tq s)\<rparr>;
            s \<leftarrow> sem_unlock i s;
            Some (Blocked, critical_exit s) } }"

definition mdx_sem_timedwait_resume :: "tid \<Rightarrow> u32 \<Rightarrow> ('h, 'x) kstate_scheme \<Rightarrow> int" where
  "mdx_sem_timedwait_resume td usec s = (if usec \<noteq> 0 \<and> t_timeout (tokens s td) then 0 else 1)"

definition mdx_sem_wait_enter :: "semid \<Rightarrow> ('h, 'x) kstate_scheme \<Rightarrow>
    (wait_result \<times> ('h, 'x) kstate_scheme) option" where
  "mdx_sem_wait_enter i s = mdx_sem_timedwait_enter i 0 s"

definition mdx_sem_trywait :: "semid \<Rightarrow> ('h, 'x) kstate_scheme \<Rightarrow> (int \<times> ('h, 'x) kstate_scheme) option" where
  "mdx_sem_trywait i s =
     do { let s = critical_enter s;
          s \<leftarrow> sem_lock i s;
          let (ret, s) = (if sem_count (sems s i) > 0
                          then (1, upd_sem i (\<lambda>r. r\<lparr>sem_count := sem_count r - 1\<rparr>) s) else (0, s));
          s \<leftarrow> sem_unlock i s;
          Some (ret, critical_exit s) }"

text \<open>\<^verbatim>\<open>mdx_sem_post\<close> up to the release of the semaphore's lock, and after it: in between another CPU
  may run the timeout function. The first part returns the thread to wake. It waits until
  that thread has left its CPU; on the code of one CPU alone that is forever when it has not.\<close>

definition mdx_sem_post_take :: "semid \<Rightarrow> ('h, 'x) kstate_scheme \<Rightarrow>
    (tid option \<times> ('h, 'x) kstate_scheme) option" where
  "mdx_sem_post_take i s =
     do { let s = critical_enter s;
          s \<leftarrow> sem_lock i s;
          if list_empty (Sem_td_list i) (tq s) then do {
            let s = upd_sem i (\<lambda>r. r\<lparr>sem_count := int_wrap (sem_count r + 1)\<rparr>) s;
            s \<leftarrow> sem_unlock i s;
            Some (None, critical_exit s) }
          else do {
            td \<leftarrow> container_td (nextp (tq s) (Sem_td_list i));
            let s = s\<lparr>tq := list_remove (Td_node td) (tq s)\<rparr>;
            if td_state (threads s td) \<noteq> TD_STATE_ACK then None
            else do {
              let s = set_td_state td TD_STATE_SEM_UNLOCK s;
              s \<leftarrow> sem_unlock i s;
              Some (Some td, s) } } }"

definition mdx_sem_post_wake :: "tid \<Rightarrow> ('h, 'x) kstate_scheme \<Rightarrow> ('h, 'x) kstate_scheme option" where
  "mdx_sem_post_wake td s =
     do { (_, s) \<leftarrow> mdx_callout_cancel (Td_c td) s;
          KASSERT (td_state (threads s td) = TD_STATE_SEM_UNLOCK \<or>
                   td_state (threads s td) = TD_STATE_SEM_UNLOCK_ACK);
          let s = set_td_state td TD_STATE_WAKEUP s;
          s \<leftarrow> mdx_sched_add td s;
          Some (critical_exit s) }"

definition mdx_sem_post :: "semid \<Rightarrow> ('h, 'x) kstate_scheme \<Rightarrow> (int \<times> ('h, 'x) kstate_scheme) option" where
  "mdx_sem_post i s =
     do { (w, s) \<leftarrow> mdx_sem_post_take i s;
          (case w of None \<Rightarrow> Some (1, s)
           | Some td \<Rightarrow> do { s \<leftarrow> mdx_sem_post_wake td s; Some (1, s) }) }"

section \<open>Sleeping\<close>

definition mdx_tsleep_cb :: "tid \<Rightarrow> ('h, 'x) kstate_scheme \<Rightarrow> ('h, 'x) kstate_scheme option" where
  "mdx_tsleep_cb td s =
     do { KASSERT (in_critical s);
          KASSERT (td_state (threads s td) = TD_STATE_ACK);
          mdx_sched_add td s }"

definition mdx_tsleep_enter :: "u32 \<Rightarrow> ('h, 'x) kstate_scheme \<Rightarrow> ('h, 'x) kstate_scheme option" where
  "mdx_tsleep_enter ticks s =
     do { KASSERT (ticks > 0);
          let td = curthread s;
          KASSERT (\<not> td_idle (threads s td));
          KASSERT (td_critnest (threads s td) = 0);
          let s = mdx_callout_init (Stack_c td) s;
          let s = critical_enter s;
          let s = set_td_state td TD_STATE_SLEEPING s;
          (_, s) \<leftarrow> mdx_callout_cancel (Td_c td) s;
          (_, s) \<leftarrow> mdx_callout_set_ticks (Stack_c td) ticks (Some Tsleep_cb) (Arg_thread td) s;
          Some (critical_exit s) }"

definition mdx_usleep_enter :: "u32 \<Rightarrow> ('h, 'x) kstate_scheme \<Rightarrow> ('h, 'x) kstate_scheme option" where
  "mdx_usleep_enter usec s =
     do { ticks \<leftarrow> mdx_callout_usec_to_ticks usec s;
          mdx_tsleep_enter ticks s }"

section \<open>Software timers\<close>

text \<open>The callout of timer \<open>i\<close> is \<open>Timer_c i\<close>. The address of an allocated timer is its identifier;
  timer 0 is the static \<^verbatim>\<open>uptime_timer\<close>.\<close>

definition mdx_timer_tick :: "nat \<Rightarrow> ('h, 'x) kstate_scheme \<Rightarrow> ('h, 'x) kstate_scheme option" where
  "mdx_timer_tick i s =
     do { KASSERT (in_critical s);
          let s = s\<lparr>timers := (timers s)(i := (timers s i)\<lparr>count_us := count_us (timers s i) + ucast (period_us (timers s i))\<rparr>)\<rparr>;
          (_, s) \<leftarrow> mdx_callout_set_locked (Timer_c i) (period_us (timers s i)) (Some Timer_tick) (Arg_timer i) s;
          Some s }"

definition mdx_timer_create :: "('h, 'x) kstate_scheme \<Rightarrow> (nat \<times> ('h, 'x) kstate_scheme) option" where
  "mdx_timer_create s =
     do { (i, s) \<leftarrow> k_malloc (sizeof_timer (cfg s)) s;
          if i = 0 then Some (0, s) else Some (i, mdx_callout_init (Timer_c i) s) }"

definition mdx_timer_start :: "nat \<Rightarrow> u32 \<Rightarrow> ('h, 'x) kstate_scheme \<Rightarrow>
    (mdx_result \<times> ('h, 'x) kstate_scheme) option" where
  "mdx_timer_start i period s =
     (if started (timers s i) \<noteq> 0 then Some (MDX_ERROR, s)
      else do {
        let s = s\<lparr>timers := (timers s)(i := (timers s i)\<lparr>started := 1, period_us := period\<rparr>)\<rparr>;
        (_, s) \<leftarrow> mdx_callout_set (Timer_c i) period (Some Timer_tick) (Arg_timer i) s;
        Some (MDX_OK, s) })"

definition mdx_timer_count :: "nat \<Rightarrow> ('h, 'x) kstate_scheme \<Rightarrow> u64" where
  "mdx_timer_count i s = count_us (timers s i)"

definition mdx_uptime_init :: "('h, 'x) kstate_scheme \<Rightarrow> (mdx_result \<times> ('h, 'x) kstate_scheme) option" where
  "mdx_uptime_init s =
     (if uptime_initialized s then Some (MDX_ERROR, s)
      else do {
        let s = s\<lparr>timers := (timers s)(0 := \<lparr>count_us = 0, started = 0, period_us = 0\<rparr>)\<rparr>;
        let s = upd_callout (Timer_c 0) (\<lambda>_. zero_callout) s;
        let s = mdx_callout_init (Timer_c 0) s;
        mdx_timer_start 0 (uptime_period (cfg s)) s })"

definition mdx_uptime :: "('h, 'x) kstate_scheme \<Rightarrow> u64" where
  "mdx_uptime s = mdx_timer_count 0 s"

definition mdx_uptime_sysinit :: "('h, 'x) kstate_scheme \<Rightarrow> ('h, 'x) kstate_scheme option" where
  "mdx_uptime_sysinit s =
     do { (_, s) \<leftarrow> mdx_uptime_init s;
          Some (s\<lparr>uptime_initialized := True\<rparr>) }"

section \<open>The functions callouts call\<close>

fun kernel_call :: "(nat \<Rightarrow> carg \<Rightarrow> ('h, 'x) kstate_scheme \<Rightarrow> ('h, 'x) kstate_scheme option) \<Rightarrow>
    ('h, 'x) dispatcher" where
  "kernel_call user Sched_cb (Arg_thread td) s = mdx_sched_cb td s"
| "kernel_call user Sem_cb (Arg_token td) s = mdx_sem_cb td s"
| "kernel_call user Tsleep_cb (Arg_thread td) s = mdx_tsleep_cb td s"
| "kernel_call user Timer_tick (Arg_timer i) s = mdx_timer_tick i s"
| "kernel_call user (User_cb n) a s = user n a s"
| "kernel_call user _ _ s = None"

end
