(* ===== verification/Critical.thy ===== *)
theory Critical
  imports Kernel_State
begin

text \<open>
  Critical sections as brackets. Entering and leaving commute with every update of a field
  that is not part of the nesting count or the interrupt enable, so that an operation
  that runs between \<^verbatim>\<open>critical_enter\<close> and \<^verbatim>\<open>critical_exit\<close> is its body on the state \<open>bracketed s\<close>,
  in which only the saved interrupt enable of an outermost section differs from \<open>s\<close>.
\<close>

named_theorems crit_simps

definition bracketed :: "('h, 'x) kstate_scheme \<Rightarrow> ('h, 'x) kstate_scheme" where
  "bracketed s =
     (if td_critnest (curtd s) = 0
      then upd_thread (curthread s) (\<lambda>t. t\<lparr>td_saved_ie := intr_on s (pcpu_id s)\<rparr>) s else s)"

lemma critical_exit_upd [crit_simps]:
  "critical_exit (s\<lparr>tq := a\<rparr>) = (critical_exit s)\<lparr>tq := a\<rparr>"
  "critical_exit (s\<lparr>sched_l := b\<rparr>) = (critical_exit s)\<lparr>sched_l := b\<rparr>"
  "critical_exit (s\<lparr>pcq := c\<rparr>) = (critical_exit s)\<lparr>pcq := c\<rparr>"
  "critical_exit (s\<lparr>pending_ipis := d\<rparr>) = (critical_exit s)\<lparr>pending_ipis := d\<rparr>"
  "critical_exit (s\<lparr>sip := e\<rparr>) = (critical_exit s)\<lparr>sip := e\<rparr>"
  "critical_exit (s\<lparr>sems := f\<rparr>) = (critical_exit s)\<lparr>sems := f\<rparr>"
  "critical_exit (s\<lparr>tokens := g\<rparr>) = (critical_exit s)\<lparr>tokens := g\<rparr>"
  "critical_exit (s\<lparr>kheap := h\<rparr>) = (critical_exit s)\<lparr>kheap := h\<rparr>"
  "critical_exit (s\<lparr>callouts := i\<rparr>) = (critical_exit s)\<lparr>callouts := i\<rparr>"
  "critical_exit (s\<lparr>cq := j\<rparr>) = (critical_exit s)\<lparr>cq := j\<rparr>"
  "critical_exit (s\<lparr>mi_tmr := k\<rparr>) = (critical_exit s)\<lparr>mi_tmr := k\<rparr>"
  "critical_exit (s\<lparr>hw := l\<rparr>) = (critical_exit s)\<lparr>hw := l\<rparr>"
  "critical_exit (s\<lparr>c_locks := m\<rparr>) = (critical_exit s)\<lparr>c_locks := m\<rparr>"
  by (simp_all add: critical_exit_def upd_thread_def Let_def)

lemma upd_state_twist:
  "r\<lparr>td_state := st, td_critnest := n\<rparr> = r\<lparr>td_critnest := n, td_state := st\<rparr>"
  "r\<lparr>td_state := st, td_saved_ie := i\<rparr> = r\<lparr>td_saved_ie := i, td_state := st\<rparr>"
  "s\<lparr>intr_on := io, threads := th\<rparr> = s\<lparr>threads := th, intr_on := io\<rparr>"
  by (cases r, simp)+

lemma critical_exit_state [crit_simps]:
  "critical_exit (set_td_state t st s) = set_td_state t st (critical_exit s)"
  by (cases "t = curthread s") (simp_all add: critical_exit_def upd_thread_def Let_def fun_upd_twist upd_state_twist)

lemma critical_enter_state [crit_simps]:
  "critical_enter (set_td_state t st s) = set_td_state t st (critical_enter s)"
  by (cases "t = curthread s") (simp_all add: critical_enter_def upd_thread_def Let_def fun_upd_twist upd_state_twist)

lemma saved_ie_critnest: "td_critnest r = 0 \<Longrightarrow> r\<lparr>td_saved_ie := i, td_critnest := 0\<rparr> = r\<lparr>td_saved_ie := i\<rparr>"
  by (cases r) simp

lemma critical_enter_exit [crit_simps]: "critical_exit (critical_enter s) = bracketed s"
  by (cases "td_critnest (curtd s) = 0")
    (simp_all add: critical_exit_def critical_enter_def bracketed_def upd_thread_def Let_def fun_upd_idem saved_ie_critnest)

lemma in_critical_bracketed: "in_critical s \<Longrightarrow> bracketed s = s"
  by (auto simp: bracketed_def in_critical_def)

lemma bracketed_sel [simp]:
  "callouts (bracketed s) = callouts s" "cq (bracketed s) = cq s" "mi_tmr (bracketed s) = mi_tmr s"
  "hw (bracketed s) = hw s" "pcpu_id (bracketed s) = pcpu_id s" "pc_curthread (bracketed s) = pc_curthread s"
  "intr_on (bracketed s) = intr_on s" "cfg_smp (bracketed s) = cfg_smp s" "cfg_ncpu (bracketed s) = cfg_ncpu s"
  "cfg_nprio (bracketed s) = cfg_nprio s" "c_locks (bracketed s) = c_locks s" "tq (bracketed s) = tq s"
  "sched_l (bracketed s) = sched_l s" "pcq (bracketed s) = pcq s" "pending_ipis (bracketed s) = pending_ipis s"
  "sip (bracketed s) = sip s" "trapframes (bracketed s) = trapframes s" "kzone (bracketed s) = kzone s"
  "kheap (bracketed s) = kheap s" "cfg (bracketed s) = cfg s" "sems (bracketed s) = sems s"
  "tokens (bracketed s) = tokens s" "timers (bracketed s) = timers s"
  by (simp_all add: bracketed_def)

text \<open>No field of a thread but the saved interrupt enable changes, in either direction.\<close>

lemma bracketed_thread [simp]:
  "td_state (threads (bracketed s) t) = td_state (threads s t)"
  "td_prio (threads (bracketed s) t) = td_prio (threads s t)"
  "td_idle (threads (bracketed s) t) = td_idle (threads s t)"
  "td_quantum (threads (bracketed s) t) = td_quantum (threads s t)"
  "td_critnest (threads (bracketed s) t) = td_critnest (threads s t)"
  "td_tf (threads (bracketed s) t) = td_tf (threads s t)"
  by (simp_all add: bracketed_def)

lemma critical_enter_thread [simp]:
  "td_state (threads (critical_enter s) t) = td_state (threads s t)"
  "td_prio (threads (critical_enter s) t) = td_prio (threads s t)"
  "td_idle (threads (critical_enter s) t) = td_idle (threads s t)"
  "td_quantum (threads (critical_enter s) t) = td_quantum (threads s t)"
  "td_tf (threads (critical_enter s) t) = td_tf (threads s t)"
  by (simp_all add: critical_enter_def Let_def)

lemma in_critical_crit_room:
  "in_critical (set_td_state t st s) = in_critical s" "crit_room (set_td_state t st s) = crit_room s"
  "in_critical (bracketed s) = in_critical s" "crit_room (bracketed s) = crit_room s"
  by (auto simp: in_critical_def crit_room_def)

end
