(* ===== verification/Callout_Frame.thy ===== *)
theory Callout_Frame
  imports Callout_Intr Critical
begin

text \<open>
  What the callout operations leave alone, whenever they return: of the state, everything
  but the callouts, their queues and the timer; of the other callouts, everything but
  their ticks.
\<close>

definition untick :: "mdx_callout \<Rightarrow> mdx_callout" where
  "untick r = r\<lparr>c_ticks := 0\<rparr>"

definition callout_only :: "cptr set \<Rightarrow> ('h, 'x) kstate_scheme \<Rightarrow> ('h, 'x) kstate_scheme \<Rightarrow> bool" where
  "callout_only C s s' \<longleftrightarrow> callout_frame s s' \<and> (\<forall>d. d \<notin> C \<longrightarrow> untick (callouts s' d) = untick (callouts s d))"

lemma untick_eq:
  assumes "untick r = untick r'"
  shows "c_state r = c_state r'" "c_func r = c_func r'" "c_arg r = c_arg r'" "c_flags r = c_flags r'"
    "c_cpuid r = c_cpuid r'"
  using assms by (cases r; cases r'; simp add: untick_def)+

lemma untick_ticks [simp]: "untick (r\<lparr>c_ticks := n\<rparr>) = untick r"
  by (simp add: untick_def)

lemma callout_only_frame: "callout_only C s s' \<Longrightarrow> callout_frame s s'"
  by (simp add: callout_only_def)

lemma callout_only_untick: "callout_only C s s' \<Longrightarrow> d \<notin> C \<Longrightarrow> untick (callouts s' d) = untick (callouts s d)"
  by (simp add: callout_only_def)

lemma callout_only_refl [simp]: "callout_only C s s"
  by (simp add: callout_only_def)

lemma callout_only_trans: "callout_only C s t \<Longrightarrow> callout_only C t u \<Longrightarrow> callout_only C s u"
  unfolding callout_only_def by (metis callout_frame_trans)

lemma callout_only_mono: "callout_only C s t \<Longrightarrow> C \<subseteq> D \<Longrightarrow> callout_only D s t"
  by (auto simp: callout_only_def)

text \<open>Updates that do not matter, on either side.\<close>

lemma callout_frame_sym: "callout_frame s t \<Longrightarrow> callout_frame t s"
  by (elim callout_frameE) (simp add: callout_frame_def)

lemma callout_only_left:
  assumes "callout_only C s s1"
  shows "callout_only C s1 t \<longleftrightarrow> callout_only C s t"
  using assms unfolding callout_only_def by (metis callout_frame_trans callout_frame_sym)

lemma callout_only_right:
  assumes "callout_only C t t1"
  shows "callout_only C s t1 \<longleftrightarrow> callout_only C s t"
  using assms unfolding callout_only_def by (metis callout_frame_trans callout_frame_sym)

lemma callout_only_step:
  "callout_only C s (upd_callout d (\<lambda>r. r\<lparr>c_ticks := g r\<rparr>) s)"
  "c \<in> C \<Longrightarrow> callout_only C s (upd_callout c f s)"
  "callout_only C s (s\<lparr>cq := a\<rparr>)" "callout_only C s (s\<lparr>hw := b\<rparr>)" "callout_only C s (upd_mt m s)"
  by (auto simp: callout_only_def callout_frame_def upd_callout_def upd_mt_def)

lemmas callout_only_simps [simp] =
  callout_only_step [THEN callout_only_left] callout_only_step [THEN callout_only_right]

lemma callout_only_active:
  assumes "callout_only C s s'" and "d \<notin> C"
  shows "active s' d = active s d" and "c_func (callouts s' d) = c_func (callouts s d)"
    and "c_arg (callouts s' d) = c_arg (callouts s d)" and "c_cpuid (callouts s' d) = c_cpuid (callouts s d)"
  using untick_eq [OF callout_only_untick [OF assms]] by simp_all

section \<open>Setting\<close>

lemma set_one_loop_only:
  assumes "set_one_loop k c co s = Some (r, s')"
  shows "callout_only {} s s'"
proof -
  have "case (r, s') of (r, s') \<Rightarrow> callout_only {} s s'"
    using assms
  proof (rule set_one_loop.raw_induct [of "\<lambda>k c co s y. case y of (r, s') \<Rightarrow> callout_only {} s s'", rotated])
    fix loop k c co and s :: "('a, 'b) kstate_scheme" and y
    assume ih: "\<And>k c co s y. loop k c co s = Some y \<Longrightarrow> case y of (r, s') \<Rightarrow> callout_only {} s s'"
      and eq: "(case co of None \<Rightarrow> Some (None, s)
        | Some d \<Rightarrow> if c_ticks (callouts s c) < c_ticks (callouts s d)
            then let s = upd_callout d (\<lambda>r. r\<lparr>c_ticks := c_ticks r - c_ticks (callouts s c)\<rparr>) s
                 in Some (Some d, s\<lparr>cq := list_insert (C_node d) (C_node c) (cq s)\<rparr>)
            else let s = upd_callout c (\<lambda>r. r\<lparr>c_ticks := c_ticks r - c_ticks (callouts s d)\<rparr>) s
                 in loop k c (next_c k d s) s) = Some y"
    show "case y of (r, s') \<Rightarrow> callout_only {} s s'"
    proof (cases co)
      case (Some d)
      show ?thesis
      proof (cases "c_ticks (callouts s c) < c_ticks (callouts s d)")
        case True
        then show ?thesis using eq Some by (auto simp: Let_def)
      next
        case False
        let ?s = "upd_callout c (\<lambda>r. r\<lparr>c_ticks := c_ticks r - c_ticks (callouts s d)\<rparr>) s"
        have "loop k c (next_c k d ?s) ?s = Some y" using eq Some False by (simp add: Let_def)
        from ih [OF this] show ?thesis by (auto split: prod.splits)
      qed
    qed (use eq in auto)
  qed
  then show ?thesis by simp
qed

lemma mi_tmr_start_only: "mi_tmr_start n s = Some s' \<Longrightarrow> callout_only C s s'"
  by (auto simp: mi_tmr_start_def bind_eq_Some split: if_splits)

lemma callout_insert_only:
  assumes "callout_insert k c s = Some s'"
  shows "callout_only {} s s'"
proof -
  from assms obtain r s1 where "set_one_loop k c (first k s) s = Some (r, s1)"
    and s': "s' = (if r = None then s1\<lparr>cq := list_append (Callouts_list k) (C_node c) (cq s1)\<rparr> else s1)"
    unfolding callout_insert_def bind_eq_Some by (auto simp del: callout_only_simps)
  then show ?thesis using set_one_loop_only [of k c "first k s" s r s1] by simp
qed

lemma set_one_only:
  assumes "mdx_callout_set_one c s = Some s'"
  shows "callout_only {} s s'"
  using assms
  by (auto simp: mdx_callout_set_one_def bind_eq_Some Let_def dest!: callout_insert_only
      mi_tmr_start_only [where C = "{}"] intro: callout_only_trans split: if_splits mt_state.splits)
    (metis mt_state.exhaust)

lemma set_ticks_locked_only:
  assumes "mdx_callout_set_ticks_locked c n f a s = Some (e, s')"
  shows "callout_only {c} s s'"
  using assms
  by (auto simp: mdx_callout_set_ticks_locked_def bind_eq_Some Let_def
      dest!: set_one_only [THEN callout_only_mono, of _ _ _ "{c}"] split: if_splits)

text \<open>Locking and unlocking cancel out.\<close>

lemma callout_lock_only:
  assumes "callout_lock k s = Some s1" and "callout_only C s1 s2" and "callout_unlock k s2 = Some s'"
  shows "callout_only C s s'"
proof (cases "cfg_smp s")
  case True
  obtain co h m w where s2: "s2 = s1\<lparr>callouts := co, cq := h, mi_tmr := m, hw := w\<rparr>"
    by (rule callout_frameE [OF callout_only_frame [OF assms(2)]])
  have l: "c_locks s k = 0" and s1: "s1 = s\<lparr>c_locks := (c_locks s)(k := 1)\<rparr>"
    using True assms(1) by (auto simp: callout_lock_def sl_lock_def bind_eq_Some split: if_splits)
  have [simp]: "(c_locks s)(k := 0) = c_locks s" using l by (rule fun_upd_idem)
  have "s' = s2\<lparr>c_locks := c_locks s\<rparr>"
    using True assms(3) s1 s2 by (simp add: callout_unlock_def sl_unlock_def)
  then show ?thesis using assms(2) s2 s1 by (simp add: callout_only_def callout_frame_def)
qed (use assms callout_frame_sel(3) [OF callout_only_frame [OF assms(2)]] in \<open>simp add: callout_lock_def callout_unlock_def\<close>)

lemma set_ticks_only:
  assumes "mdx_callout_set_ticks c n f a s = Some (e, s')"
  shows "callout_only {c} (bracketed s) s'"
proof -
  from assms obtain s1 s2 s3 where 1: "callout_lock (pcpu_id s) (critical_enter s) = Some s1"
    "mdx_callout_set_ticks_locked c n f a s1 = Some (e, s2)" "callout_unlock (pcpu_id s) s2 = Some s3"
    "s' = critical_exit s3"
    by (auto simp: mdx_callout_set_ticks_def bind_eq_Some Let_def)
  have only: "callout_only {c} (critical_enter s) s3"
    using callout_lock_only [OF 1(1) set_ticks_locked_only [OF 1(2)] 1(3)] .
  obtain co h m w where s3: "s3 = (critical_enter s)\<lparr>callouts := co, cq := h, mi_tmr := m, hw := w\<rparr>"
    by (rule callout_frameE [OF callout_only_frame [OF only]])
  show ?thesis using only unfolding 1(4) s3 crit_simps by (simp add: callout_only_def callout_frame_def)
qed

section \<open>Cancelling\<close>

lemma cancel_only:
  assumes "mdx_callout_cancel c s = Some (e, s')"
  shows "callout_only {c} s s'"
proof -
  from assms obtain s1 s2 where 1: "callout_lock (c_cpuid (callouts s c)) s = Some s1"
    "mdx_callout_cancel_locked c s1 = (e, s2)" "callout_unlock (c_cpuid (callouts s2 c)) s2 = Some s'"
    by (auto simp: mdx_callout_cancel_def bind_eq_Some case_prod_unfold Let_def prod_eq_iff split: if_splits)
  have "callout_only {c} s1 s2" and "c_cpuid (callouts s2 c) = c_cpuid (callouts s1 c)"
    using 1(2) by (auto simp: mdx_callout_cancel_locked_def Let_def split: if_splits option.splits)
  moreover have "callouts s1 = callouts s"
    using 1(1) by (auto simp: callout_lock_def bind_eq_Some split: if_splits)
  ultimately show ?thesis using callout_lock_only [OF 1(1), of "{c}" s2 s'] 1(3) by simp
qed

end
