(* ===== verification/Queues.thy ===== *)
theory Queues
  imports Entry_List
begin

text \<open>
  Families of intrusive lists that share one heap: the run queues and the waiting lists of
  semaphores, which move the same nodes between many heads. \<open>queues h H q\<close> says that every
  head in \<open>H\<close> has the well-formed list \<open>q\<close> gives it and that no node is in two lists. Its
  lemmas rest on the contract \<open>entry_list\<close> alone.
\<close>

definition queues :: "'p heap \<Rightarrow> 'p set \<Rightarrow> ('p \<Rightarrow> 'p list) \<Rightarrow> bool" where
  "queues h H q \<longleftrightarrow>
     (\<forall>l \<in> H. dlist h l (q l) \<and> set (q l) \<inter> H = {}) \<and>
     (\<forall>l \<in> H. \<forall>k \<in> H. l \<noteq> k \<longrightarrow> set (q l) \<inter> set (q k) = {})"

lemma queuesI:
  assumes "\<And>l. l \<in> H \<Longrightarrow> dlist h l (q l)" and "\<And>l. l \<in> H \<Longrightarrow> set (q l) \<inter> H = {}"
    and "\<And>l k. l \<in> H \<Longrightarrow> k \<in> H \<Longrightarrow> l \<noteq> k \<Longrightarrow> set (q l) \<inter> set (q k) = {}"
  shows "queues h H q"
  using assms by (simp add: queues_def)

lemma queues_list: "queues h H q \<Longrightarrow> l \<in> H \<Longrightarrow> dlist h l (q l)"
  by (simp add: queues_def)

lemma queues_heads: "queues h H q \<Longrightarrow> l \<in> H \<Longrightarrow> set (q l) \<inter> H = {}"
  by (simp add: queues_def)

lemma queues_disjoint: "queues h H q \<Longrightarrow> l \<in> H \<Longrightarrow> k \<in> H \<Longrightarrow> l \<noteq> k \<Longrightarrow> set (q l) \<inter> set (q k) = {}"
  by (simp add: queues_def)

lemma queues_cong: "(\<And>l. l \<in> H \<Longrightarrow> q l = q' l) \<Longrightarrow> queues h H q = queues h H q'"
  by (simp add: queues_def)

lemma queues_empty: "queues h H q \<Longrightarrow> l \<in> H \<Longrightarrow> list_empty l h \<longleftrightarrow> q l = []"
  by (rule kl.rep_empty [OF queues_list])

lemma queues_head: "queues h H q \<Longrightarrow> l \<in> H \<Longrightarrow> q l = e # xs \<Longrightarrow> nextp h l = e"
  using kl.rep_head [OF queues_list, of h H q l] by simp

lemma queues_append:
  assumes q: "queues h H q" and l: "l \<in> H" and e: "e \<notin> H" and new: "\<forall>k \<in> H. e \<notin> set (q k)"
  shows "queues (list_append l e h) H (q(l := q l @ [e]))"
proof (rule queuesI)
  note dl = queues_list [OF q]
  fix k assume k: "k \<in> H"
  show "dlist (list_append l e h) k ((q(l := q l @ [e])) k)"
  proof (cases "k = l")
    case True
    then show ?thesis using kl.rep_append [OF dl [OF l], of e] e new l by auto
  next
    case False
    then show ?thesis
      using kl.append_other [OF dl [OF l] dl [OF k], of e] e new l k queues_disjoint [OF q k l]
        queues_heads [OF q l] queues_heads [OF q k] by auto
  qed
  show "set ((q(l := q l @ [e])) k) \<inter> H = {}" using queues_heads [OF q] k e by auto
next
  fix k j assume "k \<in> H" "j \<in> H" "k \<noteq> j"
  then show "set ((q(l := q l @ [e])) k) \<inter> set ((q(l := q l @ [e])) j) = {}"
    using queues_disjoint [OF q, of k j] new by auto
qed

lemma queues_insert:
  assumes q: "queues h H q" and l: "l \<in> H" and ql: "q l = xs @ y # ys" and e: "e \<notin> H"
    and new: "\<forall>k \<in> H. e \<notin> set (q k)"
  shows "queues (list_insert y e h) H (q(l := xs @ e # y # ys))"
proof (rule queuesI)
  note dl = queues_list [OF q]
  have dll: "dlist h l (xs @ y # ys)" using dl [OF l] ql by simp
  have el: "e \<notin> set (l # xs @ y # ys)" using e l new ql by auto
  fix k assume k: "k \<in> H"
  show "dlist (list_insert y e h) k ((q(l := xs @ e # y # ys)) k)"
  proof (cases "k = l")
    case True
    then show ?thesis using kl.rep_insert [OF dll el] by simp
  next
    case False
    have "set (k # q k) \<inter> set (e # l # xs @ y # ys) = {}"
      using False l k e new queues_disjoint [OF q k l] queues_heads [OF q l] queues_heads [OF q k] ql by auto
    then show ?thesis using False kl.insert_other [OF dll dl [OF k]] by simp
  qed
  show "set ((q(l := xs @ e # y # ys)) k) \<inter> H = {}" using queues_heads [OF q k] queues_heads [OF q l] ql e by auto
next
  fix k j assume "k \<in> H" "j \<in> H" "k \<noteq> j"
  then show "set ((q(l := xs @ e # y # ys)) k) \<inter> set ((q(l := xs @ e # y # ys)) j) = {}"
    using queues_disjoint [OF q, of k j] new ql by auto
qed

lemma queues_remove:
  assumes q: "queues h H q" and l: "l \<in> H" and ql: "q l = xs @ e # ys"
  shows "queues (list_remove e h) H (q(l := xs @ ys))"
proof (rule queuesI)
  note dl = queues_list [OF q]
  have dll: "dlist h l (xs @ e # ys)" using dl [OF l] ql by simp
  fix k assume k: "k \<in> H"
  show "dlist (list_remove e h) k ((q(l := xs @ ys)) k)"
  proof (cases "k = l")
    case True
    then show ?thesis using kl.rep_remove [OF dll] by simp
  next
    case False
    have "set (k # q k) \<inter> set (l # xs @ e # ys) = {}"
      using False l k queues_disjoint [OF q k l] queues_heads [OF q l] queues_heads [OF q k] ql by auto
    then show ?thesis using False kl.remove_other [OF dll dl [OF k]] by simp
  qed
  show "set ((q(l := xs @ ys)) k) \<inter> H = {}" using queues_heads [OF q k] queues_heads [OF q l] ql by auto
next
  fix k j assume "k \<in> H" "j \<in> H" "k \<noteq> j"
  then show "set ((q(l := xs @ ys)) k) \<inter> set ((q(l := xs @ ys)) j) = {}"
    using queues_disjoint [OF q, of k j] ql by auto
qed

lemma queues_drop:
  assumes "queues h H q" and "l \<in> H" and "q l = xs @ ys"
  shows "queues (fold list_remove xs h) H (q(l := ys))"
  using assms
proof (induction xs arbitrary: h q)
  case Nil
  then show ?case by (simp add: fun_upd_idem)
next
  case (Cons x xs)
  have "queues (list_remove x h) H (q(l := [] @ xs @ ys))"
    by (rule queues_remove [OF Cons.prems(1,2)]) (use Cons.prems(3) in simp)
  from Cons.IH [OF this Cons.prems(2)] show ?case by (simp only: fun_upd_same fun_upd_upd append_Nil fold.simps o_apply)
qed

lemma queues_distinct: "queues h H q \<Longrightarrow> l \<in> H \<Longrightarrow> distinct (q l)"
  using kl.rep_distinct [OF queues_list] by fastforce

text \<open>The list of a node is unique.\<close>

lemma queues_unique: "queues h H q \<Longrightarrow> l \<in> H \<Longrightarrow> k \<in> H \<Longrightarrow> e \<in> set (q l) \<Longrightarrow> e \<in> set (q k) \<Longrightarrow> l = k"
  using queues_disjoint by fastforce

end
