(* ===== verification/Callout_Struct.thy ===== *)
theory Callout_Struct
  imports Callout_Frame Queues
begin

text \<open>
  The structure of the callout queues alone, without deadlines: whatever the timer hardware
  returns and however the ticks wrap, the queues stay well-formed lists of exactly the
  active callouts.
\<close>

definition cheads :: "nat \<Rightarrow> cnode set" where
  "cheads n = Callouts_list ` {..<n}"

fun cnodes :: "(cpuid \<Rightarrow> cptr list) \<Rightarrow> cnode \<Rightarrow> cnode list" where
  "cnodes Q (Callouts_list k) = map C_node (Q k)"
| "cnodes Q (C_node c) = []"

definition cstruct :: "('h, 'x) kstate_scheme \<Rightarrow> (cpuid \<Rightarrow> cptr list) \<Rightarrow> bool" where
  "cstruct s Q \<longleftrightarrow>
     queues (cq s) (cheads (cfg_ncpu s)) (cnodes Q) \<and>
     (\<forall>k < cfg_ncpu s. \<forall>c. c \<in> set (Q k) \<longleftrightarrow> active s c \<and> c_cpuid (callouts s c) = k) \<and>
     (\<forall>c. active s c \<longrightarrow> c_cpuid (callouts s c) < cfg_ncpu s)"

lemma cheads_simps [simp]: "Callouts_list k \<in> cheads n \<longleftrightarrow> k < n" "C_node c \<notin> cheads n"
  by (auto simp: cheads_def)

lemma cnodes_upd: "cnodes (Q(k := xs)) = (cnodes Q)(Callouts_list k := map C_node xs)"
proof
  show "cnodes (Q(k := xs)) l = ((cnodes Q)(Callouts_list k := map C_node xs)) l" for l by (cases l) auto
qed

lemma cstruct_queue: "cstruct s Q \<Longrightarrow> k < cfg_ncpu s \<Longrightarrow> cqueue s k (Q k)"
  using queues_list [of "cq s" "cheads (cfg_ncpu s)" "cnodes Q" "Callouts_list k"] by (simp add: cstruct_def cqueue_def)

lemma cstruct_mem: "cstruct s Q \<Longrightarrow> k < cfg_ncpu s \<Longrightarrow> c \<in> set (Q k) \<longleftrightarrow> active s c \<and> c_cpuid (callouts s c) = k"
  by (simp add: cstruct_def)

lemma cstruct_active:
  "cstruct s Q \<Longrightarrow> active s c \<Longrightarrow> c_cpuid (callouts s c) < cfg_ncpu s"
  by (simp add: cstruct_def)

lemma cstruct_cong:
  "callouts t = callouts s \<Longrightarrow> cq t = cq s \<Longrightarrow> cfg_ncpu t = cfg_ncpu s \<Longrightarrow> cstruct t Q = cstruct s Q"
  by (simp add: cstruct_def)

text \<open>Well-formed queues have the structure.\<close>

lemma cwf_cstruct:
  assumes "cwf s Q"
  shows "cstruct s Q"
proof -
  have "queues (cq s) (cheads (cfg_ncpu s)) (cnodes Q)"
  proof (rule queuesI)
    show "dlist (cq s) l (cnodes Q l)" "set (cnodes Q l) \<inter> cheads (cfg_ncpu s) = {}" if "l \<in> cheads (cfg_ncpu s)" for l
      using that cwf_queue [OF assms] by (auto simp: cheads_def cqueue_def)
    show "set (cnodes Q l) \<inter> set (cnodes Q m) = {}"
      if "l \<in> cheads (cfg_ncpu s)" "m \<in> cheads (cfg_ncpu s)" "l \<noteq> m" for l m
      using that cwf_disjoint [OF assms] by (fastforce simp: cheads_def)
  qed
  then show ?thesis using cwf_mem [OF assms] cwf_active [OF assms] by (simp add: cstruct_def)
qed

section \<open>Setting\<close>

lemma set_one_loop_struct:
  assumes "cqueue s k (xs @ ys)" and "c \<notin> set ys"
  shows "\<exists>r s'. set_one_loop k c (hd_opt ys) s = Some (r, s') \<and> mi_tmr s' = mi_tmr s \<and>
    (case r of None \<Rightarrow> cq s' = cq s
     | Some d \<Rightarrow> d \<in> set ys \<and> cq s' = list_insert (C_node d) (C_node c) (cq s))"
  using assms
proof (induction ys arbitrary: xs s)
  case Nil
  show ?case by (simp add: set_one_loop.simps)
next
  case (Cons d ys)
  show ?case
  proof (cases "c_ticks (callouts s c) < c_ticks (callouts s d)")
    case True
    then show ?thesis by (subst set_one_loop.simps) (simp add: Let_def)
  next
    case False
    let ?s = "upd_callout c (\<lambda>r. r\<lparr>c_ticks := c_ticks r - c_ticks (callouts s d)\<rparr>) s"
    have "next_c k d ?s = hd_opt ys" using next_cqueue [of ?s k xs d ys] Cons.prems(1) by simp
    then have "set_one_loop k c (hd_opt (d # ys)) s = set_one_loop k c (hd_opt ys) ?s"
      using False by (subst set_one_loop.simps) (simp add: Let_def)
    moreover have "\<exists>r s'. set_one_loop k c (hd_opt ys) ?s = Some (r, s') \<and> mi_tmr s' = mi_tmr ?s \<and>
        (case r of None \<Rightarrow> cq s' = cq ?s | Some d \<Rightarrow> d \<in> set ys \<and> cq s' = list_insert (C_node d) (C_node c) (cq ?s))"
      by (rule Cons.IH [of _ "xs @ [d]"]) (use Cons.prems in simp_all)
    ultimately show ?thesis by (fastforce split: option.splits)
  qed
qed

lemma callout_insert_struct:
  assumes q: "queues (cq s) (cheads (cfg_ncpu s)) (cnodes Q)" and k: "k < cfg_ncpu s"
    and new: "\<forall>j < cfg_ncpu s. c \<notin> set (Q j)"
  shows "\<exists>s' xs ys. callout_insert k c s = Some s' \<and> Q k = xs @ ys \<and> mi_tmr s' = mi_tmr s \<and>
    queues (cq s') (cheads (cfg_ncpu s)) (cnodes (Q(k := xs @ c # ys)))"
proof -
  have cq: "cqueue s k ([] @ Q k)" using queues_list [OF q, of "Callouts_list k"] k by (simp add: cqueue_def)
  have fresh: "\<forall>l \<in> cheads (cfg_ncpu s). C_node c \<notin> set (cnodes Q l)" using new by (auto simp: cheads_def)
  from set_one_loop_struct [OF cq, of c] new k obtain r s1 where
    loop: "set_one_loop k c (first k s) s = Some (r, s1)" "mi_tmr s1 = mi_tmr s"
    "case r of None \<Rightarrow> cq s1 = cq s | Some d \<Rightarrow> d \<in> set (Q k) \<and> cq s1 = list_insert (C_node d) (C_node c) (cq s)"
    using first_cqueue [OF cq] by auto
  show ?thesis
  proof (cases r)
    case None
    then show ?thesis
      using loop queues_append [OF q _ _ fresh, of "Callouts_list k"] k
      by (intro exI [of _ "s1\<lparr>cq := list_append (Callouts_list k) (C_node c) (cq s1)\<rparr>"] exI [of _ "Q k"] exI [of _ "[]"])
        (simp add: callout_insert_def cnodes_upd del: fun_upd_apply)
  next
    case (Some d)
    then obtain xs ys where Qk: "Q k = xs @ d # ys" using loop(3) by (auto simp: in_set_conv_decomp)
    have "queues (list_insert (C_node d) (C_node c) (cq s)) (cheads (cfg_ncpu s))
        ((cnodes Q)(Callouts_list k := map C_node xs @ C_node c # C_node d # map C_node ys))"
      by (rule queues_insert [OF q _ _ _ fresh]) (use k Qk in simp_all)
    then show ?thesis using loop Some Qk
      by (intro exI [of _ s1] exI [of _ xs] exI [of _ "d # ys"]) (simp add: callout_insert_def cnodes_upd del: fun_upd_apply)
  qed
qed

lemma timer_ok_upd_mt:
  "(\<And>m. mt_start (f m) = mt_start m) \<Longrightarrow> (\<And>m. mt_stop (f m) = mt_stop m) \<Longrightarrow> (\<And>m. mt_count (f m) = mt_count m) \<Longrightarrow>
   timer_ok (upd_mt f s) = timer_ok s"
  by (auto simp: timer_ok_def upd_mt_def)

lemma mi_tmr_start_same:
  assumes "timer_ok s"
  shows "\<exists>w. mi_tmr_start n s = Some (s\<lparr>hw := w\<rparr>)"
  using assms by (auto simp: timer_ok_def mi_tmr_start_def)

text \<open>What an operation that changes the queues guarantees besides: a usable timer.\<close>

definition timer_same :: "('h, 'x) kstate_scheme \<Rightarrow> ('h, 'x) kstate_scheme \<Rightarrow> bool" where
  "timer_same s s' \<longleftrightarrow> cq s' = cq s \<and> callouts s' = callouts s \<and> timer_ok s'"

lemma set_one_tail:
  assumes tm: "timer_ok s" and ne: "first k s \<noteq> None" and mt: "mt_count mt \<noteq> None"
  shows "\<exists>s'. (case mt_states mt k of
             MI_TIMER_STATE_RUNNING \<Rightarrow>
               if first k s = Some c0 then mi_tmr_start (c_ticks (callouts s c0) - elapsed) s
               else Some s
           | MI_TIMER_STATE_EXCEPTION \<Rightarrow> Some s
           | MI_TIMER_STATE_READY \<Rightarrow>
               do { let s = upd_mt (\<lambda>m. m\<lparr>mt_states := (mt_states m)(k := MI_TIMER_STATE_RUNNING)\<rparr>) s;
                    read \<leftarrow> mt_count mt;
                    let s = upd_mt (\<lambda>m. m\<lparr>mt_count_saved := (mt_count_saved m)(k := read k (hw s))\<rparr>) s;
                    f \<leftarrow> first k s;
                    mi_tmr_start (c_ticks (callouts s f)) s }) = Some s' \<and> timer_same s s'"
proof -
  have start: "\<exists>s'. mi_tmr_start n u = Some s' \<and> timer_same s s'"
    if "timer_ok u" "cq u = cq s" "callouts u = callouts s" for n and u :: "('a, 'b) kstate_scheme"
    using mi_tmr_start_same [OF that(1), of n] that by (auto simp: timer_same_def timer_ok_def)
  from ne obtain f where f: "first k s = Some f" by auto
  from mt obtain read where read: "mt_count mt = Some read" by auto
  show ?thesis
  proof (cases "mt_states mt k")
    case MI_TIMER_STATE_READY
    let ?u = "upd_mt (\<lambda>m. m\<lparr>mt_count_saved := (mt_count_saved m)(k := read k (hw s))\<rparr>)
      (upd_mt (\<lambda>m. m\<lparr>mt_states := (mt_states m)(k := MI_TIMER_STATE_RUNNING)\<rparr>) s)"
    have "timer_ok ?u" using tm by (simp add: timer_ok_upd_mt)
    moreover have "cq ?u = cq s" "callouts ?u = callouts s" "hw (upd_mt g s) = hw s" "first k ?u = Some f" for g
      using f by (simp_all add: upd_mt_def first_def split: if_splits)
    ultimately show ?thesis using MI_TIMER_STATE_READY read start [of ?u] by (simp add: Let_def)
  qed (use tm start in \<open>auto simp: timer_same_def\<close>)
qed

lemma set_one_struct:
  assumes q: "queues (cq s) (cheads (cfg_ncpu s)) (cnodes Q)" and k: "pcpu_id s < cfg_ncpu s"
    and new: "\<forall>j < cfg_ncpu s. c \<notin> set (Q j)" and tm: "timer_ok s" and crit: "in_critical s"
  shows "\<exists>s' xs ys. mdx_callout_set_one c s = Some s' \<and> Q (pcpu_id s) = xs @ ys \<and>
    queues (cq s') (cheads (cfg_ncpu s)) (cnodes (Q(pcpu_id s := xs @ c # ys))) \<and> timer_ok s'"
proof -
  let ?k = "pcpu_id s"
  from tm obtain mt read where mt: "mi_tmr s = Some mt" "mt_count mt = Some read" by (auto simp: timer_ok_def)
  obtain e s1 where head: "(if mt_states mt ?k = MI_TIMER_STATE_RUNNING then
               do { (elapsed, _) \<leftarrow> get_elapsed s;
                    Some (elapsed, upd_callout c (\<lambda>r. r\<lparr>c_ticks := c_ticks r + elapsed\<rparr>) s) }
             else Some (0, s)) = Some (e, s1)" and s1: "cq s1 = cq s" "cfg_ncpu s1 = cfg_ncpu s" "mi_tmr s1 = mi_tmr s"
    using crit mt by (cases "mt_states mt ?k = MI_TIMER_STATE_RUNNING") (auto simp: get_elapsed_def Let_def upd_callout_def)
  from callout_insert_struct [of s1 Q ?k c] q k new s1 obtain s2 xs ys where
    ins: "callout_insert ?k c s1 = Some s2" "Q ?k = xs @ ys" "mi_tmr s2 = mi_tmr s"
    "queues (cq s2) (cheads (cfg_ncpu s)) (cnodes (Q(?k := xs @ c # ys)))" by auto
  have "dlist (cq s2) (Callouts_list ?k) (map C_node (xs @ c # ys))"
    using queues_list [OF ins(4), of "Callouts_list ?k"] k by simp
  then have "first ?k s2 = hd_opt (xs @ c # ys)" by (intro first_cqueue) (simp add: cqueue_def)
  then have ne: "first ?k s2 \<noteq> None" by simp
  have tm2: "timer_ok s2" using tm ins(3) by (simp add: timer_ok_def)
  obtain s3 where "mdx_callout_set_one c s = Some s3" "timer_same s2 s3"
    using set_one_tail [OF tm2 ne, of mt c e] mt head ins(1) crit
    unfolding mdx_callout_set_one_def Let_def by auto
  then show ?thesis using ins by (auto simp: timer_same_def)
qed

text \<open>The public operation. With a nonzero number of ticks it arms the callout.\<close>

definition armed :: "('h, 'x) kstate_scheme \<Rightarrow> cptr \<Rightarrow> (cfunc option \<times> carg) option" where
  "armed s c = (if active s c then Some (c_func (callouts s c), c_arg (callouts s c)) else None)"

lemma armed_only: "callout_only C s s' \<Longrightarrow> d \<notin> C \<Longrightarrow> armed s' d = armed s d"
  using callout_only_active [of C s s' d] by (simp add: armed_def)

lemma armed_cong: "callouts t = callouts s \<Longrightarrow> armed t = armed s"
  by (simp add: armed_def fun_eq_iff)

definition csound :: "('h, 'x) kstate_scheme \<Rightarrow> bool" where
  "csound s \<longleftrightarrow> (\<exists>Q. cstruct s Q) \<and> timer_ok s \<and> pcpu_id s < cfg_ncpu s"

lemma csound_cong:
  "callouts t = callouts s \<Longrightarrow> cq t = cq s \<Longrightarrow> cfg_ncpu t = cfg_ncpu s \<Longrightarrow> mi_tmr t = mi_tmr s \<Longrightarrow>
   pcpu_id t = pcpu_id s \<Longrightarrow> csound t = csound s"
  by (simp add: csound_def cstruct_def timer_ok_def)

lemma csound_flags:
  "(\<And>c. active t c = active s c) \<Longrightarrow> (\<And>c. c_cpuid (callouts t c) = c_cpuid (callouts s c)) \<Longrightarrow> cq t = cq s \<Longrightarrow>
   cfg_ncpu t = cfg_ncpu s \<Longrightarrow> mi_tmr t = mi_tmr s \<Longrightarrow> pcpu_id t = pcpu_id s \<Longrightarrow> csound t = csound s"
  by (simp add: csound_def cstruct_def timer_ok_def)

lemma set_ticks_locked_struct:
  assumes cs: "csound s" and crit: "in_critical s" and new: "\<not> active s c" and n: "n \<noteq> 0"
  shows "\<exists>s'. mdx_callout_set_ticks_locked c n f a s = Some (MDX_OK, s') \<and> csound s' \<and> armed s' c = Some (f, a)"
proof -
  from cs obtain Q where Q: "cstruct s Q" and tm: "timer_ok s" and k: "pcpu_id s < cfg_ncpu s"
    by (auto simp: csound_def)
  let ?s = "upd_callout c (\<lambda>r. r\<lparr>c_ticks_orig := n, c_ticks := n, c_func := f, c_arg := a, c_cpuid := pcpu_id s\<rparr>) s"
  have un: "cq ?s = cq s" "cfg_ncpu ?s = cfg_ncpu s" "pcpu_id ?s = pcpu_id s" "mi_tmr ?s = mi_tmr s"
    "threads ?s = threads s" "pc_curthread ?s = pc_curthread s"
    by (simp_all add: upd_callout_def)
  have notin: "\<forall>j < cfg_ncpu s. c \<notin> set (Q j)" using cstruct_mem [OF Q] new by auto
  have "\<exists>s' xs ys. mdx_callout_set_one c ?s = Some s' \<and> Q (pcpu_id ?s) = xs @ ys \<and>
    queues (cq s') (cheads (cfg_ncpu ?s)) (cnodes (Q(pcpu_id ?s := xs @ c # ys))) \<and> timer_ok s'"
    by (rule set_one_struct) (use Q tm crit k notin un in \<open>simp_all add: cstruct_def timer_ok_def in_critical_def\<close>)
  then obtain s1 xs ys where s1: "mdx_callout_set_one c ?s = Some s1" "Q (pcpu_id s) = xs @ ys"
    "queues (cq s1) (cheads (cfg_ncpu s)) (cnodes (Q(pcpu_id s := xs @ c # ys)))" "timer_ok s1"
    using un by auto
  let ?s' = "upd_callout c (\<lambda>r. r\<lparr>c_flags := c_flags r OR CALLOUT_FLAG_ACTIVE\<rparr>) s1"
  have only1: "callout_only {} ?s s1" by (rule set_one_only [OF s1(1)])
  have only: "callout_only {c} s s1" using callout_only_mono [OF only1, of "{c}"] by simp
  note fr = callout_frame_sel [OF callout_only_frame [OF only]]
  have co: "active s1 d = active s d" "c_cpuid (callouts s1 d) = c_cpuid (callouts s d)" if "d \<noteq> c" for d
    using callout_only_active [OF only, of d] that by simp_all
  have self: "c_func (callouts s1 c) = f" "c_arg (callouts s1 c) = a" "c_cpuid (callouts s1 c) = pcpu_id s"
    using callout_only_active [OF only1, of c] by simp_all
  have sel: "active ?s' d = (d = c \<or> active s d)"
    "c_cpuid (callouts ?s' d) = (if d = c then pcpu_id s else c_cpuid (callouts s d))" for d
    using co [of d] self by simp_all
  have "cstruct ?s' (Q(pcpu_id s := xs @ c # ys))"
    unfolding cstruct_def
  proof (intro conjI allI impI)
    show "queues (cq ?s') (cheads (cfg_ncpu ?s')) (cnodes (Q(pcpu_id s := xs @ c # ys)))"
      using s1(3) fr(2) by (simp add: upd_callout_def)
    fix j d assume j: "j < cfg_ncpu ?s'"
    show "d \<in> set ((Q(pcpu_id s := xs @ c # ys)) j) \<longleftrightarrow> active ?s' d \<and> c_cpuid (callouts ?s' d) = j"
      unfolding sel using cstruct_mem [OF Q, of j d] cstruct_mem [OF Q, of "pcpu_id s" d] j k fr(2) s1(2) new
      by (auto simp: upd_callout_def)
  next
    fix d assume "active ?s' d"
    then show "c_cpuid (callouts ?s' d) < cfg_ncpu ?s'"
      unfolding sel using cstruct_active [OF Q, of d] k fr(2) by (auto simp: upd_callout_def)
  qed
  moreover have "armed ?s' c = Some (f, a)" using self by (simp add: armed_def)
  moreover have "timer_ok ?s'" "pcpu_id ?s' < cfg_ncpu ?s'"
    using s1(4) k fr by (simp_all add: timer_ok_def upd_callout_def)
  ultimately have "csound ?s' \<and> armed ?s' c = Some (f, a)" unfolding csound_def by blast
  moreover have "mdx_callout_set_ticks_locked c n f a s = Some (MDX_OK, ?s')"
    using tm crit new n s1(1) by (auto simp: mdx_callout_set_ticks_locked_def timer_ok_def)
  ultimately show ?thesis by blast
qed

lemma set_ticks_struct:
  assumes cs: "csound s" and room: "crit_room s" and free: "callout_free s (pcpu_id s)" and new: "\<not> active s c"
  shows "\<exists>s'. mdx_callout_set_ticks c n f a s = Some (MDX_OK, s') \<and> csound s' \<and>
    armed s' c = (if n = 0 then None else Some (f, a))"
proof -
  let ?k = "pcpu_id s" and ?s1 = "critical_enter s"
  have free1: "callout_free ?s1 ?k" using free by (simp add: callout_free_def)
  then obtain l where lock: "callout_lock ?k ?s1 = Some (?s1\<lparr>c_locks := l\<rparr>)" by (rule callout_lock_free)
  let ?s2 = "?s1\<lparr>c_locks := l\<rparr>"
  have cs2: "csound ?s2" using cs csound_cong [of ?s2 s] by simp
  have crit: "in_critical ?s2" using critical_enter_in [OF room] by (simp add: in_critical_def)
  have new2: "\<not> active ?s2 c" using new by simp
  have "\<exists>s3. mdx_callout_set_ticks_locked c n f a ?s2 = Some (MDX_OK, s3) \<and> csound s3 \<and>
      armed s3 c = (if n = 0 then None else Some (f, a))"
  proof (cases "n = 0")
    case True
    let ?s3 = "upd_callout c (\<lambda>r. r\<lparr>c_state := CALLOUT_STATE_FIRED\<rparr>) ?s2"
    have "mdx_callout_set_ticks_locked c n f a ?s2 = Some (MDX_OK, ?s3)"
      using True cs2 crit new2 by (auto simp: mdx_callout_set_ticks_locked_def csound_def timer_ok_def)
    moreover have "csound ?s3 = csound ?s2"
      by (rule csound_flags) (simp_all add: upd_callout_def)
    ultimately show ?thesis using True cs2 new2 by (auto simp: armed_def)
  next
    case False
    then show ?thesis using set_ticks_locked_struct [OF cs2 crit new2, of n f a] by simp
  qed
  then obtain s3 where s3: "mdx_callout_set_ticks_locked c n f a ?s2 = Some (MDX_OK, s3)" "csound s3"
    "armed s3 c = (if n = 0 then None else Some (f, a))" by (elim exE conjE) (rule that)
  note fr = callout_frame_sel [OF callout_only_frame [OF set_ticks_locked_only [OF s3(1)]]]
  let ?s4 = "s3\<lparr>c_locks := c_locks s\<rparr>"
  have unlock: "callout_unlock ?k s3 = Some ?s4" using callout_unlock_held [OF free1 lock] fr by simp
  have "mdx_callout_set_ticks c n f a s = Some (MDX_OK, critical_exit ?s4)"
    using lock s3(1) unlock by (simp add: mdx_callout_set_ticks_def)
  moreover have "csound (critical_exit ?s4)" using s3(2) csound_cong [of "critical_exit ?s4" s3] by simp
  moreover have "armed (critical_exit ?s4) = armed s3" by (rule armed_cong) simp
  ultimately show ?thesis using s3(3) by auto
qed

section \<open>Cancelling\<close>

lemma cancel_struct:
  assumes cs: "csound s" and crit: "in_critical s" and free: "\<forall>k. callout_free s k"
  shows "\<exists>e s'. mdx_callout_cancel c s = Some (e, s') \<and> csound s' \<and> armed s' c = None \<and> mi_tmr s' = mi_tmr s"
proof -
  from cs obtain Q where Q: "cstruct s Q" and tm: "timer_ok s" and k: "pcpu_id s < cfg_ncpu s"
    by (auto simp: csound_def)
  let ?k = "c_cpuid (callouts s c)"
  from free obtain l where lock: "callout_lock ?k s = Some (s\<lparr>c_locks := l\<rparr>)" using callout_lock_free by blast
  let ?s1 = "s\<lparr>c_locks := l\<rparr>"
  obtain e s2 where s2: "mdx_callout_cancel_locked c ?s1 = (e, s2)" by (cases "mdx_callout_cancel_locked c ?s1")
  have only: "callout_only {c} ?s1 s2" and cpu: "c_cpuid (callouts s2 c) = ?k" and tmr: "mi_tmr s2 = mi_tmr s"
    and cq: "cq s2 = (if active s c then list_remove (C_node c) (cq s) else cq s)" and off: "\<not> active s2 c"
    using s2 by (auto simp: mdx_callout_cancel_locked_def Let_def split: if_splits option.splits)
  note fr = callout_frame_sel [OF callout_only_frame [OF only]]
  have co: "active s2 d = (d \<noteq> c \<and> active s d)" "c_cpuid (callouts s2 d) = c_cpuid (callouts s d)" for d
    using callout_only_active [OF only, of d] off cpu by (cases "d = c"; simp)+
  have "\<exists>Q'. cstruct s2 Q'"
  proof (cases "active s c")
    case False
    then have "cstruct s2 Q" using Q fr(2) co cq unfolding cstruct_def by auto
    then show ?thesis by blast
  next
    case True
    then have kk: "?k < cfg_ncpu s" and "c \<in> set (Q ?k)" using cstruct_active [OF Q] cstruct_mem [OF Q] by auto
    then obtain xs ys where Qk: "Q ?k = xs @ c # ys" by (auto simp: in_set_conv_decomp)
    have dist: "distinct (Q ?k)" by (rule cqueue_distinct [OF cstruct_queue [OF Q kk]])
    have "queues (cq s2) (cheads (cfg_ncpu s)) (cnodes (Q(?k := xs @ ys)))"
      using queues_remove [of "cq s" "cheads (cfg_ncpu s)" "cnodes Q" "Callouts_list ?k" "map C_node xs" "C_node c" "map C_node ys"]
        Q kk Qk cq True by (simp add: cstruct_def cnodes_upd)
    moreover have "d \<in> set ((Q(?k := xs @ ys)) j) \<longleftrightarrow> active s2 d \<and> c_cpuid (callouts s2 d) = j"
      if "j < cfg_ncpu s" for j d
      unfolding co using cstruct_mem [OF Q that, of d] cstruct_mem [OF Q kk, of d] Qk dist by auto
    ultimately have "cstruct s2 (Q(?k := xs @ ys))"
      using cstruct_active [OF Q] fr(2) co by (simp add: cstruct_def)
    then show ?thesis by blast
  qed
  then have "csound s2" using tm k tmr fr by (simp add: csound_def timer_ok_def)
  let ?s3 = "s2\<lparr>c_locks := c_locks s\<rparr>"
  have "callout_unlock ?k s2 = Some ?s3" using callout_unlock_held [OF free [rule_format] lock] fr by simp
  then have "mdx_callout_cancel c s = Some (e, ?s3)"
    using tm crit lock s2 cpu by (auto simp: mdx_callout_cancel_def timer_ok_def)
  moreover have "csound ?s3" using \<open>csound s2\<close> csound_cong [of ?s3 s2] by simp
  moreover have "armed ?s3 c = None" "mi_tmr ?s3 = mi_tmr s" using off tmr by (simp_all add: armed_def)
  ultimately show ?thesis by blast
qed

section \<open>The timer interrupt\<close>

text \<open>The callouts that are due at the interrupt.\<close>

definition due_now :: "('h, 'x) kstate_scheme \<Rightarrow> (cpuid \<Rightarrow> cptr list) \<Rightarrow> cptr list" where
  "due_now s Q = due (unat (elapsed_now s)) (ticks_of s) (Q (pcpu_id s))"

lemma cstruct_fired:
  assumes Q: "cstruct s Q" and k: "k < cfg_ncpu s" and Qk: "Q k = ds @ rs"
    and cq: "cq t = fold list_remove (map C_node ds) (cq s)" and n: "cfg_ncpu t = cfg_ncpu s"
    and act: "\<And>c. active t c \<longleftrightarrow> c \<notin> set ds \<and> active s c"
    and cpu: "\<And>c. c_cpuid (callouts t c) = c_cpuid (callouts s c)"
  shows "cstruct t (Q(k := rs))"
proof -
  have "queues (cq t) (cheads (cfg_ncpu s)) (cnodes (Q(k := rs)))"
    unfolding cq cnodes_upd using Q k Qk by (intro queues_drop) (simp_all add: cstruct_def)
  moreover have "d \<in> set ((Q(k := rs)) j) \<longleftrightarrow> active t d \<and> c_cpuid (callouts t d) = j" if "j < cfg_ncpu s" for j d
    unfolding act cpu
    using cstruct_mem [OF Q that, of d] cstruct_mem [OF Q k, of d] cqueue_distinct [OF cstruct_queue [OF Q k]] Qk
    by auto
  ultimately show ?thesis using cstruct_active [OF Q] act cpu n by (simp add: cstruct_def)
qed

context quiet_dispatch
begin

lemma callback_struct:
  assumes Q: "cstruct s Q" and tm: "timer_ok s" and k: "pcpu_id s < cfg_ncpu s" and crit: "in_critical s"
    and up: "\<not> cfg_smp s" and ok: "\<forall>c \<in> set (Q (pcpu_id s)). quiet_callout quiet s c"
    and ne: "Q (pcpu_id s) \<noteq> []" and fired: "fire_all call (due_now s Q) (callback_entry s) = Some s2"
  shows "\<exists>s'. mdx_callout_callback call s = Some (MDX_OK, s') \<and> csound s' \<and> callout_frame s2 s' \<and>
    (\<forall>c. armed s' c = (if c \<in> set (due_now s Q) then None else armed s c))"
proof -
  let ?k = "pcpu_id s" and ?e = "elapsed_now s"
  from tm obtain mt start stop read where mt: "mi_tmr s = Some mt" "mt_start mt = Some start"
    "mt_stop mt = Some stop" "mt_count mt = Some read" by (auto simp: timer_ok_def)
  let ?s1 = "callback_entry s"
  let ?mt = "mt\<lparr>mt_count_saved := (mt_count_saved mt)(?k := read ?k (hw s)),
     mt_states := (mt_states mt)(?k := MI_TIMER_STATE_EXCEPTION)\<rparr>"
  have s1: "?s1 = s\<lparr>mi_tmr := Some ?mt\<rparr>" using mt by (simp add: callback_entry_def)
  define ds rs where "ds = due_now s Q" and "rs = not_due (unat ?e) (ticks_of s) (Q ?k)"
  have Qk: "Q ?k = ds @ rs" by (simp add: ds_def rs_def due_now_def due_not_due)
  have q: "cqueue s ?k (Q ?k)" by (rule cstruct_queue [OF Q k])
  have q1: "cqueue ?s1 ?k (Q ?k)" using q by (simp add: s1 cqueue_def)
  have dist: "distinct ds" using cqueue_distinct [OF q] Qk by simp
  have ok1: "quiet_callout quiet ?s1 c" if "c \<in> set (Q ?k)" for c using ok that by (simp add: s1 quiet_callout_def)
  define r where "r = ?e - word_of_nat (sum_list (map (ticks_of s) ds))"
  define s3 where "s3 = settle rs r s2"
  have fire: "fire_all call (due (unat ?e) (ticks_of ?s1) (Q ?k)) ?s1 = Some s2"
    using fired by (simp add: due_now_def s1)
  have loop: "callback_loop call ?k (first ?k ?s1) ?e ?s1 = Some s3"
    using callback_loop_eq [OF q1 ok1, of ?e] fire first_cqueue [OF q1]
    by (simp add: r_def s3_def rs_def ds_def due_now_def s1)
  have okd: "quiet_callout quiet ?s1 c" if "c \<in> set ds" for c using ok1 that Qk by simp
  from fire_all_quiet [OF fired [folded ds_def] dist okd] have s2:
    "callouts s2 = (\<lambda>c. if c \<in> set ds then fire (callouts s c) else callouts s c)"
    "cq s2 = fold list_remove (map C_node ds) (cq s)" "timer_frame ?s1 s2"
    by (simp_all add: fold_map o_def s1 cong: if_cong)
  have fr23: "callout_frame s2 s3" by (cases rs) (simp_all add: callout_frame_def s3_def settle_def upd_callout_def)
  have s3: "mi_tmr s3 = Some ?mt" "pcpu_id s3 = ?k" "cfg_ncpu s3 = cfg_ncpu s" "cfg_smp s3 = cfg_smp s" "cq s3 = cq s2"
    using s2(3) by (cases rs; simp add: s3_def settle_def timer_frame_def s1 upd_callout_def)+
  have sel: "active s3 c \<longleftrightarrow> c \<notin> set ds \<and> active s c" "c_cpuid (callouts s3 c) = c_cpuid (callouts s c)"
    "c \<notin> set ds \<Longrightarrow> c_func (callouts s3 c) = c_func (callouts s c) \<and> c_arg (callouts s3 c) = c_arg (callouts s c)" for c
    using s2(1) by (cases rs; auto simp: s3_def settle_def fire_def)+
  have Q3: "cstruct s3 (Q(?k := rs))"
    by (rule cstruct_fired [OF Q k Qk]) (use s2 s3 sel in simp_all)
  have first: "first ?k s3 = hd_opt rs" using first_cqueue [OF cstruct_queue [OF Q3, of ?k]] k s3 by simp
  have ge: "get_elapsed s = Some (?e, read ?k (hw s))"
    using crit mt by (simp add: get_elapsed_def elapsed_now_def elapsed_ticks_def Let_def)
  have hd: "\<not> list_empty (Callouts_list ?k) (cq s)" using q ne by (simp add: cqueue_def kl.rep_empty)
  have "\<exists>m w. mdx_callout_callback call s = Some (MDX_OK, s3\<lparr>mi_tmr := Some m, hw := w\<rparr>) \<and>
      timer_ok (s3\<lparr>mi_tmr := Some m, hw := w\<rparr>)"
    using crit mt hd ge loop first s3 up s1
    by (cases rs) (auto simp: mdx_callout_callback_def upd_mt_def Let_def callout_lock_def callout_unlock_def
        mi_tmr_start_def timer_ok_def)
  then obtain m w where fin: "mdx_callout_callback call s = Some (MDX_OK, s3\<lparr>mi_tmr := Some m, hw := w\<rparr>)"
    "timer_ok (s3\<lparr>mi_tmr := Some m, hw := w\<rparr>)" by blast
  let ?s' = "s3\<lparr>mi_tmr := Some m, hw := w\<rparr>"
  have "csound ?s'"
    unfolding csound_def using fin(2) Q3 k s3 cstruct_cong [of ?s' s3 "Q(?k := rs)"] by auto
  moreover have "callout_frame s2 ?s'" using fr23 by (elim callout_frameE) (simp add: callout_frame_def)
  moreover have "armed ?s' c = (if c \<in> set ds then None else armed s c)" for c
    using sel [of c] by (simp add: armed_def)
  ultimately show ?thesis using fin(1) unfolding ds_def by blast
qed

end

end
