(* ===== verification/Sched_Queue.thy ===== *)
theory Sched_Queue
  imports Sched Queues Critical
begin

text \<open>
  What the scheduler does to well-formed queues: picking, adding and notifying, on one CPU
  and with \<^verbatim>\<open>MDX_SCHED_SMP\<close>.
\<close>

section \<open>The queues of threads\<close>

text \<open>The heads in use: one run queue per priority and the list of every initialised
  semaphore in \<open>S\<close>.\<close>

definition heads :: "nat \<Rightarrow> semid set \<Rightarrow> tnode set" where
  "heads n S = Runq ` {..<n} \<union> Sem_td_list ` S"

definition tqueues :: "('h, 'x) kstate_scheme \<Rightarrow> semid set \<Rightarrow> (tnode \<Rightarrow> tid list) \<Rightarrow> bool" where
  "tqueues s S q \<longleftrightarrow> queues (tq s) (heads (cfg_nprio s) S) (\<lambda>l. map Td_node (q l))"

definition unqueued :: "('h, 'x) kstate_scheme \<Rightarrow> semid set \<Rightarrow> (tnode \<Rightarrow> tid list) \<Rightarrow> tid \<Rightarrow> bool" where
  "unqueued s S q t \<longleftrightarrow> (\<forall>l \<in> heads (cfg_nprio s) S. t \<notin> set (q l))"

lemma heads_simps [simp]:
  "Runq i \<in> heads n S \<longleftrightarrow> i < n" "Sem_td_list j \<in> heads n S \<longleftrightarrow> j \<in> S" "Td_node t \<notin> heads n S"
  by (auto simp: heads_def)

lemma tqueues_cong: "tq t = tq s \<Longrightarrow> cfg_nprio t = cfg_nprio s \<Longrightarrow> tqueues t S q = tqueues s S q"
  by (simp add: tqueues_def)

lemma map_Td_node_upd: "(\<lambda>l. map Td_node ((q(k := xs)) l)) = (\<lambda>l. map Td_node (q l))(k := map Td_node xs)"
  by (simp add: fun_eq_iff)

lemma tqueues_append:
  assumes "tqueues s S q" and "l \<in> heads (cfg_nprio s) S" and "unqueued s S q t"
    and "tq s' = list_append l (Td_node t) (tq s)" and "cfg_nprio s' = cfg_nprio s"
  shows "tqueues s' S (q(l := q l @ [t]))"
  unfolding tqueues_def map_Td_node_upd assms(4,5) map_append
  using queues_append [of "tq s" "heads (cfg_nprio s) S" "\<lambda>l. map Td_node (q l)" l "Td_node t"] assms
  by (auto simp: tqueues_def unqueued_def)

lemma tqueues_remove:
  assumes "tqueues s S q" and "l \<in> heads (cfg_nprio s) S" and "q l = xs @ t # ys"
    and "tq s' = list_remove (Td_node t) (tq s)" and "cfg_nprio s' = cfg_nprio s"
  shows "tqueues s' S (q(l := xs @ ys))"
  unfolding tqueues_def map_Td_node_upd assms(4,5)
  using queues_remove [of "tq s" _ "\<lambda>l. map Td_node (q l)" l "map Td_node xs" "Td_node t" "map Td_node ys"] assms
  by (simp add: tqueues_def)

lemma tqueues_empty:
  "tqueues s S q \<Longrightarrow> l \<in> heads (cfg_nprio s) S \<Longrightarrow> list_empty l (tq s) \<longleftrightarrow> q l = []"
  using queues_empty [of "tq s" _ "\<lambda>l. map Td_node (q l)" l] by (simp add: tqueues_def)

lemma tqueues_head:
  "tqueues s S q \<Longrightarrow> l \<in> heads (cfg_nprio s) S \<Longrightarrow> q l = t # ts \<Longrightarrow> nextp (tq s) l = Td_node t"
  using queues_head [of "tq s" _ "\<lambda>l. map Td_node (q l)" l] by (simp add: tqueues_def)

lemma tqueues_distinct: "tqueues s S q \<Longrightarrow> l \<in> heads (cfg_nprio s) S \<Longrightarrow> distinct (q l)"
  using queues_distinct [of "tq s" _ "\<lambda>l. map Td_node (q l)" l] by (simp add: tqueues_def distinct_map)

lemma tqueues_unique:
  "tqueues s S q \<Longrightarrow> l \<in> heads (cfg_nprio s) S \<Longrightarrow> k \<in> heads (cfg_nprio s) S \<Longrightarrow>
   t \<in> set (q l) \<Longrightarrow> t \<in> set (q k) \<Longrightarrow> l = k"
  using queues_unique [of "tq s" _ "\<lambda>l. map Td_node (q l)" l k "Td_node t"] by (simp add: tqueues_def image_iff)

text \<open>A thread taken off its queue is in none.\<close>

lemma tqueues_removed:
  assumes "tqueues s S q" and "l \<in> heads (cfg_nprio s) S" and "q l = xs @ t # ys"
  shows "unqueued s S (q(l := xs @ ys)) t"
proof -
  have "t \<notin> set (q k)" if "k \<in> heads (cfg_nprio s) S" "k \<noteq> l" for k
    using that assms tqueues_unique [OF assms(1,2), of k t] by auto
  moreover have "t \<notin> set (xs @ ys)" using tqueues_distinct [OF assms(1,2)] assms(3) by auto
  ultimately show ?thesis by (simp add: unqueued_def)
qed

section \<open>Picking a thread\<close>

lemma pick_loop_spec:
  assumes q: "tqueues s S q" and n: "n \<le> cfg_nprio s"
  shows "if \<forall>i < n. q (Runq i) = [] then pick_loop n s = None
    else \<exists>i t ts. i < n \<and> q (Runq i) = t # ts \<and> (\<forall>j. i < j \<and> j < n \<longrightarrow> q (Runq j) = []) \<and>
      pick_loop n s = Some (t, s\<lparr>tq := list_remove (Td_node t) (tq s)\<rparr>)"
  using n
proof (induction n)
  case (Suc n)
  have n: "Runq n \<in> heads (cfg_nprio s) S" using Suc.prems by simp
  show ?case
  proof (cases "q (Runq n)")
    case Nil
    then have "pick_loop (Suc n) s = pick_loop n s" using tqueues_empty [OF q n] by simp
    then show ?thesis using Suc Nil by (auto simp: less_Suc_eq split: if_splits)
  next
    case (Cons t ts)
    then have "pick_loop (Suc n) s = Some (t, s\<lparr>tq := list_remove (Td_node t) (tq s)\<rparr>)"
      using tqueues_empty [OF q n] tqueues_head [OF q n Cons] by simp
    then show ?thesis using Cons by (auto intro!: exI [of _ n] dest: spec [of _ n])
  qed
qed simp

section \<open>Inter-processor interrupts\<close>

text \<open>The CPUs in the list of all CPUs and those waiting for work.\<close>

definition cpus_ok :: "('h, 'x) kstate_scheme \<Rightarrow> cpuid list \<Rightarrow> cpuid list \<Rightarrow> bool" where
  "cpus_ok s P A \<longleftrightarrow> dlist (pcq s) Pcpu_all (map Pc_all P) \<and> dlist (pcq s) Pcpu_list (map Pc_avail A) \<and>
     P \<noteq> [] \<and> cfg_ncpu s \<le> 32"

definition notified :: "cpuid set \<Rightarrow> u32 \<Rightarrow> ('h, 'x) kstate_scheme \<Rightarrow> ('h, 'x) kstate_scheme" where
  "notified K ipi s = s\<lparr>pending_ipis := (\<lambda>k. if k \<in> K then pending_ipis s k OR ipi else pending_ipis s k),
     sip := (\<lambda>k. k \<in> K \<or> sip s k)\<rparr>"

lemma notified_sel [simp]:
  "pcq (notified K ipi s) = pcq s" "tq (notified K ipi s) = tq s" "cfg_nprio (notified K ipi s) = cfg_nprio s"
  "threads (notified K ipi s) = threads s" "sched_l (notified K ipi s) = sched_l s"
  "cfg_smp (notified K ipi s) = cfg_smp s"
  by (simp_all add: notified_def)

lemma notified_empty [simp]: "notified {} ipi s = s"
  by (simp add: notified_def)

lemma notified_insert:
  "k \<notin> K \<Longrightarrow> notified K ipi (clint_set_sip k (s\<lparr>pending_ipis := (pending_ipis s)(k := pending_ipis s k OR ipi)\<rparr>)) =
    notified (insert k K) ipi s"
  by (cases s) (auto simp: notified_def clint_set_sip_def fun_eq_iff)

lemma send_ipi_loop_spec:
  assumes "dlist (pcq s) Pcpu_all (map Pc_all (xs @ k # ks))"
  shows "send_ipi_loop m ipi k s = Some (notified {j \<in> set (k # ks). m AND push_bit j 1 \<noteq> 0} ipi s)"
  using assms
proof (induction ks arbitrary: xs k s)
  case Nil
  then have nx: "nextp (pcq s) (Pc_all k) = Pcpu_all" using kl.rep_succ [of "pcq s" Pcpu_all "map Pc_all xs"] by simp
  show ?case
    by (subst send_ipi_loop.simps)
      (auto simp: nx Let_def clint_set_sip_def notified_def fun_eq_iff Collect_conv_if)
next
  case (Cons j js)
  have nx: "nextp (pcq s) (Pc_all k) = Pc_all j"
    using kl.rep_succ [of "pcq s" Pcpu_all "map Pc_all xs" "Pc_all k"] Cons.prems by simp
  have nk: "k \<notin> set (j # js)" using kl.rep_distinct [OF Cons.prems] by (auto simp: distinct_map)
  let ?s = "if m AND push_bit k 1 \<noteq> 0 then
      clint_set_sip k (s\<lparr>pending_ipis := (pending_ipis s)(k := pending_ipis s k OR ipi)\<rparr>) else s"
  have pq: "pcq ?s = pcq s" by (simp add: clint_set_sip_def)
  have "send_ipi_loop m ipi k s = send_ipi_loop m ipi j ?s"
    by (subst send_ipi_loop.simps) (simp add: nx Let_def clint_set_sip_def)
  also have "\<dots> = Some (notified {i \<in> set (j # js). m AND push_bit i 1 \<noteq> 0} ipi ?s)"
    by (rule Cons.IH [of _ "xs @ [k]"]) (use Cons.prems pq in simp)
  also have "notified {i \<in> set (j # js). m AND push_bit i 1 \<noteq> 0} ipi ?s =
      notified {i \<in> set (k # j # js). m AND push_bit i 1 \<noteq> 0} ipi s"
  proof (cases "m AND push_bit k 1 = 0")
    case True
    then have "{i \<in> set (k # j # js). m AND push_bit i 1 \<noteq> 0} = {i \<in> set (j # js). m AND push_bit i 1 \<noteq> 0}" by auto
    then show ?thesis using True by simp
  next
    case False
    then have "{i \<in> set (k # j # js). m AND push_bit i 1 \<noteq> 0} =
        insert k {i \<in> set (j # js). m AND push_bit i 1 \<noteq> 0}" by auto
    then show ?thesis using False nk notified_insert [of k "{i \<in> set (j # js). m AND push_bit i 1 \<noteq> 0}" ipi s] by simp
  qed
  finally show ?case .
qed

lemma send_ipi_spec:
  assumes "cpus_ok s P A"
  shows "send_ipi m ipi s = Some (notified {k \<in> set P. m AND push_bit k 1 \<noteq> 0} ipi s)"
proof -
  from assms obtain p ps where P: "P = p # ps" by (cases P) (auto simp: cpus_ok_def)
  have dl: "dlist (pcq s) Pcpu_all (Pc_all p # map Pc_all ps)" and n: "cfg_ncpu s \<le> 32"
    using assms P by (auto simp: cpus_ok_def)
  show ?thesis
    using n kl.rep_empty [OF dl] kl.rep_head [OF dl] send_ipi_loop_spec [of s "[]" p ps m ipi] dl P
    by (simp add: send_ipi_def)
qed

section \<open>Adding a thread\<close>

definition sched_free :: "('h, 'x) kstate_scheme \<Rightarrow> bool" where
  "sched_free s \<longleftrightarrow> (cfg_smp s \<longrightarrow> sched_l s = 0)"

definition prio_ok :: "('h, 'x) kstate_scheme \<Rightarrow> tid \<Rightarrow> bool" where
  "prio_ok s t \<longleftrightarrow> 0 \<le> td_prio (threads s t) \<and> td_prio (threads s t) < int (cfg_nprio s)"

abbreviation runq_of :: "('h, 'x) kstate_scheme \<Rightarrow> tid \<Rightarrow> tnode" where
  "runq_of s t \<equiv> Runq (nat (td_prio (threads s t)))"

lemma prio_ok_head: "prio_ok s t \<Longrightarrow> runq_of s t \<in> heads (cfg_nprio s) S"
  by (auto simp: prio_ok_def)

text \<open>Taking a free lock changes the lock word at most; releasing it puts it back.\<close>

lemma sched_lock_free:
  fixes s :: "('h, 'x) kstate_scheme"
  assumes "sched_free s"
  obtains l where "mdx_sched_lock s = Some (s\<lparr>sched_l := l\<rparr>)"
    and "\<And>t :: ('h, 'x) kstate_scheme. cfg_smp t = cfg_smp s \<Longrightarrow> sched_l t = l \<Longrightarrow> mdx_sched_unlock t = Some (t\<lparr>sched_l := sched_l s\<rparr>)"
proof (cases "cfg_smp s")
  case True
  then show ?thesis using assms
    by (intro that [of 1]) (simp_all add: mdx_sched_lock_def mdx_sched_unlock_def sched_free_def sl_lock_def sl_unlock_def)
next
  case False
  then show ?thesis
    by (intro that [of "sched_l s"]) (simp_all add: mdx_sched_lock_def mdx_sched_unlock_def)
qed

text \<open>The CPUs a newly ready thread is announced to: the first one that waits for work.\<close>

definition to_notify :: "('h, 'x) kstate_scheme \<Rightarrow> cpuid list \<Rightarrow> cpuid list \<Rightarrow> tid \<Rightarrow> cpuid set" where
  "to_notify s P A t =
     (if cfg_smp s \<and> \<not> td_idle (threads s t) then (case A of [] \<Rightarrow> {} | k # _ \<Rightarrow> {k} \<inter> set P) else {})"

lemma push_bit_one_and: "push_bit k 1 AND push_bit j 1 \<noteq> (0 :: u32) \<longleftrightarrow> j = k \<and> k < 32"
proof -
  have "push_bit k 1 AND push_bit j 1 \<noteq> (0 :: u32) \<longleftrightarrow> (\<exists>n. bit (push_bit k 1 AND push_bit j 1 :: u32) n)"
    using bit_eqI [of "push_bit k 1 AND push_bit j 1 :: u32" 0] by auto
  also have "\<dots> \<longleftrightarrow> j = k \<and> k < 32" by (auto simp: bit_simps)
  finally show ?thesis .
qed

lemma cpu_notify_spec:
  assumes c: "cpus_ok s P A" and small: "\<forall>k \<in> set P. k < 32" and me: "pcpu_id s \<notin> set A"
  shows "mdx_sched_cpu_notify s = Some (notified (case A of [] \<Rightarrow> {} | k # _ \<Rightarrow> {k} \<inter> set P) IPI_IPI s)"
proof (cases A)
  case Nil
  then show ?thesis using c kl.rep_empty [of "pcq s" Pcpu_list "[]"]
    by (simp add: mdx_sched_cpu_notify_def cpus_ok_def)
next
  case (Cons k ks)
  have dl: "dlist (pcq s) Pcpu_list (Pc_avail k # map Pc_avail ks)" using c Cons by (simp add: cpus_ok_def)
  have "{j \<in> set P. push_bit k 1 AND push_bit j 1 \<noteq> (0 :: u32)} = {k} \<inter> set P"
    unfolding push_bit_one_and using small by auto
  then show ?thesis
    using kl.rep_empty [OF dl] kl.rep_head [OF dl] me Cons send_ipi_spec [OF c, of "push_bit k 1" IPI_IPI]
    by (simp add: mdx_sched_cpu_notify_def)
qed

definition smp_ok :: "('h, 'x) kstate_scheme \<Rightarrow> cpuid list \<Rightarrow> cpuid list \<Rightarrow> bool" where
  "smp_ok s P A \<longleftrightarrow>
     (cfg_smp s \<longrightarrow> cpus_ok s P A \<and> (\<forall>k \<in> set P. k < 32) \<and> pcpu_id s \<notin> set A)"

text \<open>The whole effect of \<^verbatim>\<open>mdx_sched_add\<close>.\<close>

definition added :: "tid \<Rightarrow> cpuid set \<Rightarrow> ('h, 'x) kstate_scheme \<Rightarrow> ('h, 'x) kstate_scheme" where
  "added t K s = notified K IPI_IPI (s\<lparr>tq := list_append (runq_of s t) (Td_node t) (tq s)\<rparr>)"

lemma sched_l_restore: "s\<lparr>sched_l := l, tq := a, sched_l := sched_l s\<rparr> = s\<lparr>tq := a\<rparr>"
  by simp

lemma sched_l_commute:
  "notified K i (s\<lparr>sched_l := l\<rparr>) = (notified K i s)\<lparr>sched_l := l\<rparr>"
  "critical_exit (notified K i s) = notified K i (critical_exit s)"
  by (cases s, simp add: notified_def cong: if_cong) (simp add: notified_def crit_simps cong: if_cong)

lemma sched_add_spec:
  fixes s :: "('h, 'x) kstate_scheme"
  assumes p: "prio_ok s t" and free: "sched_free s" and smp: "smp_ok s P A"
  shows "mdx_sched_add t s = Some (added t (to_notify s P A t) (bracketed s))"
proof -
  let ?s1 = "critical_enter s"
  have free1: "sched_free ?s1" using free by (simp add: sched_free_def)
  obtain l where lock: "mdx_sched_lock ?s1 = Some (?s1\<lparr>sched_l := l\<rparr>)"
    and unlock: "\<And>u :: ('h, 'x) kstate_scheme. cfg_smp u = cfg_smp ?s1 \<Longrightarrow> sched_l u = l \<Longrightarrow>
      mdx_sched_unlock u = Some (u\<lparr>sched_l := sched_l ?s1\<rparr>)"
    by (rule sched_lock_free [OF free1]) (rule that)
  define s3 where "s3 = ?s1\<lparr>sched_l := l, tq := list_append (runq_of s t) (Td_node t) (tq s)\<rparr>"
  let ?s4 = "notified (to_notify s P A t) IPI_IPI s3"
  have s3: "cfg_smp s3 = cfg_smp s" "td_idle (threads s3 t) = td_idle (threads s t)" "sched_l s3 = l"
    "pcq s3 = pcq s" "cfg_ncpu s3 = cfg_ncpu s" "pcpu_id s3 = pcpu_id s"
    by (simp_all add: s3_def)
  have nt: "(if cfg_smp s3 \<and> \<not> td_idle (threads s3 t) then mdx_sched_cpu_notify s3 else Some s3) = Some ?s4"
  proof (cases "cfg_smp s \<and> \<not> td_idle (threads s t)")
    case True
    then have "cpus_ok s3 P A" "\<forall>k \<in> set P. k < 32" "pcpu_id s3 \<notin> set A"
      using smp s3 by (auto simp: smp_ok_def cpus_ok_def)
    from cpu_notify_spec [OF this] show ?thesis using True s3 by (simp add: to_notify_def)
  next
    case False
    then show ?thesis using s3 by (auto simp: to_notify_def)
  qed
  have "mdx_sched_unlock ?s4 = Some (?s4\<lparr>sched_l := sched_l s\<rparr>)" using unlock [of ?s4] s3 by simp
  also have "?s4\<lparr>sched_l := sched_l s\<rparr> = notified (to_notify s P A t) IPI_IPI (s3\<lparr>sched_l := sched_l s\<rparr>)"
    by (simp only: sched_l_commute)
  also have "s3\<lparr>sched_l := sched_l s\<rparr> = ?s1\<lparr>tq := list_append (runq_of s t) (Td_node t) (tq s)\<rparr>"
    using sched_l_restore [of ?s1] by (simp add: s3_def)
  finally have un: "mdx_sched_unlock ?s4 = Some (notified (to_notify s P A t) IPI_IPI
      (?s1\<lparr>tq := list_append (runq_of s t) (Td_node t) (tq s)\<rparr>))" .
  have "mdx_sched_add t s = Some (critical_exit (notified (to_notify s P A t) IPI_IPI
      (?s1\<lparr>tq := list_append (runq_of s t) (Td_node t) (tq s)\<rparr>)))"
    using p nt un unfolding mdx_sched_add_def Let_def lock s3_def by (simp add: prio_ok_def)
  then show ?thesis by (simp add: added_def sched_l_commute crit_simps)
qed

end
