(* ===== verification/Kernel_Quiet.thy ===== *)
theory Kernel_Quiet
  imports Thread Callout_Struct Sched_Queue
begin

text \<open>
  The kernel's own callout functions \<^verbatim>\<open>mdx_sched_cb\<close>, \<^verbatim>\<open>mdx_sem_cb\<close> and \<^verbatim>\<open>mdx_tsleep_cb\<close> fulfil
  the contract \<open>quiet_dispatch\<close>: they wake threads but touch neither the callouts nor the timer.
  \<^verbatim>\<open>mdx_timer_tick\<close> sets its callout again and is not of this kind.
\<close>

definition quiet_frame :: "('h, 'x) kstate_scheme \<Rightarrow> ('h, 'x) kstate_scheme \<Rightarrow> bool" where
  "quiet_frame s s' \<longleftrightarrow> callouts s' = callouts s \<and> cq s' = cq s \<and> timer_frame s s'"

named_theorems quiet_intros

lemma quiet_frame_refl [simp, intro]: "quiet_frame s s"
  by (simp add: quiet_frame_def timer_frame_def)

lemma quiet_frame_trans [trans]: "quiet_frame s t \<Longrightarrow> quiet_frame t u \<Longrightarrow> quiet_frame s u"
  by (simp add: quiet_frame_def timer_frame_def)

lemma quiet_frame_upd [simp]:
  "quiet_frame s (t\<lparr>tq := a\<rparr>) = quiet_frame s t" "quiet_frame s (t\<lparr>sched_l := b\<rparr>) = quiet_frame s t"
  "quiet_frame s (t\<lparr>pending_ipis := c\<rparr>) = quiet_frame s t" "quiet_frame s (t\<lparr>sip := d\<rparr>) = quiet_frame s t"
  "quiet_frame s (t\<lparr>tokens := e\<rparr>) = quiet_frame s t" "quiet_frame s (upd_sem i f t) = quiet_frame s t"
  "quiet_frame s (upd_thread td g t) = quiet_frame s t" "quiet_frame s (critical_enter t) = quiet_frame s t"
  "quiet_frame s (critical_exit t) = quiet_frame s t"
  by (simp_all add: quiet_frame_def timer_frame_def upd_sem_def)

lemma send_ipi_loop_quiet:
  assumes "send_ipi_loop m ipi p s = Some s'"
  shows "quiet_frame s s'"
  using assms
proof (rule send_ipi_loop.raw_induct [of "\<lambda>m ipi p. quiet_frame", rotated])
  fix loop p and m ipi :: u32 and s s' :: "('a, 'b) kstate_scheme"
  assume ih: "\<And>m ipi p s s'. loop m ipi p s = Some s' \<Longrightarrow> quiet_frame s s'"
    and eq: "(let s = (if m AND push_bit p 1 \<noteq> 0 then
                 clint_set_sip p (s\<lparr>pending_ipis := (pending_ipis s)(p := pending_ipis s p OR ipi)\<rparr>)
               else s)
      in if nextp (pcq s) (Pc_all p) = Pcpu_all then Some s
         else do { q \<leftarrow> container_pc (nextp (pcq s) (Pc_all p)); loop m ipi q s }) = Some s'"
  let ?s = "if m AND push_bit p 1 \<noteq> 0 then
      clint_set_sip p (s\<lparr>pending_ipis := (pending_ipis s)(p := pending_ipis s p OR ipi)\<rparr>) else s"
  have q: "quiet_frame s ?s" by (simp add: clint_set_sip_def)
  from eq have "s' = ?s \<or> (\<exists>q. loop m ipi q ?s = Some s')"
    unfolding Let_def by (auto simp: bind_eq_Some split: if_split_asm)
  then show "quiet_frame s s'" using q quiet_frame_trans [OF q] ih by blast
qed

lemma sched_lock_quiet: "mdx_sched_lock s = Some s' \<Longrightarrow> quiet_frame s s'"
  by (auto simp: mdx_sched_lock_def bind_eq_Some split: if_splits)

lemma sched_unlock_quiet: "mdx_sched_unlock s = Some s' \<Longrightarrow> quiet_frame s s'"
  by (auto simp: mdx_sched_unlock_def bind_eq_Some split: if_splits)

lemma sem_lock_quiet: "sem_lock i s = Some s' \<Longrightarrow> quiet_frame s s'"
  by (auto simp: sem_lock_def bind_eq_Some)

lemma sem_unlock_quiet: "sem_unlock i s = Some s' \<Longrightarrow> quiet_frame s s'"
  by (auto simp: sem_unlock_def bind_eq_Some)

lemma cpu_notify_quiet: "mdx_sched_cpu_notify s = Some s' \<Longrightarrow> quiet_frame s s'"
  by (auto simp: mdx_sched_cpu_notify_def send_ipi_def bind_eq_Some split: if_split_asm intro: send_ipi_loop_quiet)

lemma sched_add_quiet:
  assumes "mdx_sched_add t s = Some s'"
  shows "quiet_frame s s'"
proof -
  from assms obtain s1 s2 s3 s4 where 1: "mdx_sched_lock (critical_enter s) = Some s1"
    and 2: "(if td_prio (threads s1 t) < 0 then None
      else Some (s1\<lparr>tq := list_append (runq_of s1 t) (Td_node t) (tq s1)\<rparr>)) = Some s2"
    and 3: "(if cfg_smp s2 \<and> \<not> td_idle (threads s2 t) then mdx_sched_cpu_notify s2 else Some s2) = Some s3"
    and 4: "mdx_sched_unlock s3 = Some s4" and s': "Some (critical_exit s4) = Some s'"
    unfolding mdx_sched_add_def Let_def bind_eq_Some by (elim exE conjE) (rule that)
  note sched_lock_quiet [OF 1]
  also have "quiet_frame s1 s2" using 2 by (auto split: if_split_asm)
  also have "quiet_frame s2 s3" using 3 cpu_notify_quiet by (auto split: if_split_asm)
  also have "quiet_frame s3 s'" using sched_unlock_quiet [OF 4] s' by auto
  finally show ?thesis by (simp add: quiet_frame_def timer_frame_def)
qed

lemma sched_cb_quiet:
  assumes "mdx_sched_cb t s = Some s'"
  shows "quiet_frame s s'"
proof -
  from assms obtain s1 where 1: "mdx_sched_lock s = Some s1" "mdx_sched_unlock (set_td_state t TD_STATE_READY s1) = Some s'"
    by (auto simp: mdx_sched_cb_def bind_eq_Some split: if_splits)
  show ?thesis using quiet_frame_trans [OF sched_lock_quiet [OF 1(1)]] sched_unlock_quiet [OF 1(2)]
    by (simp add: quiet_frame_def timer_frame_def)
qed

lemma tsleep_cb_quiet: "mdx_tsleep_cb t s = Some s' \<Longrightarrow> quiet_frame s s'"
  by (auto simp: mdx_tsleep_cb_def split: if_splits dest: sched_add_quiet)

lemma sem_cb_quiet:
  assumes "mdx_sem_cb w s = Some s'"
  shows "quiet_frame s s'"
proof -
  define i td where "i = t_sem (tokens s w)" and "td = t_td (tokens s w)"
  let ?u = "\<lambda>s1. set_td_state td TD_STATE_WAKEUP
    (s1\<lparr>tokens := (tokens s1)(w := (tokens s1 w)\<lparr>t_timeout := True\<rparr>), tq := list_remove (Td_node td) (tq s1)\<rparr>)"
  have "\<exists>s1. sem_lock i s = Some s1 \<and>
      (sem_unlock i (set_td_state td TD_STATE_SEM_UNLOCK_ACK s1) = Some s' \<or>
       (\<exists>s2. mdx_sched_add td (?u s1) = Some s2 \<and> sem_unlock i s2 = Some s'))"
    using assms unfolding mdx_sem_cb_def Let_def bind_eq_Some i_def td_def
    by (auto simp: bind_eq_Some split: if_split_asm)
  then obtain s1 where 1: "quiet_frame s s1"
    and 2: "sem_unlock i (set_td_state td TD_STATE_SEM_UNLOCK_ACK s1) = Some s' \<or>
       (\<exists>s2. mdx_sched_add td (?u s1) = Some s2 \<and> sem_unlock i s2 = Some s')"
    using sem_lock_quiet by blast
  have "quiet_frame s (set_td_state td TD_STATE_SEM_UNLOCK_ACK s1)" "quiet_frame s (?u s1)" using 1 by simp_all
  then show ?thesis using 2 sched_add_quiet sem_unlock_quiet quiet_frame_trans by blast
qed

interpretation kq: quiet_dispatch "kernel_call user" "{Sched_cb, Sem_cb, Tsleep_cb}" for user
proof
  fix f a and s s' :: "('a, 'b) kstate_scheme"
  assume f: "f \<in> {Sched_cb, Sem_cb, Tsleep_cb}" and c: "kernel_call user f a s = Some s'"
  have "quiet_frame s s'"
    using f c by (cases a) (auto dest: sched_cb_quiet sem_cb_quiet tsleep_cb_quiet)
  then show "callouts s' = callouts s \<and> cq s' = cq s \<and> timer_frame s s'" by (simp add: quiet_frame_def)
qed

end
