(* ===== verification/Kernel_Inv.thy ===== *)
theory Kernel_Inv
  imports Kernel_Quiet
begin

text \<open>
  The invariant of a kernel on one CPU. Of the threads \<open>T\<close> every one is in exactly one place:
  in the run queue of its priority, in the list of the semaphore it waits for, asleep with a
  callout that will wake it, or in the set \<open>U\<close> of threads that are in no queue because they
  run or are just being moved. The functions of the callouts match: a waiting thread has at
  most the callout of its timeout, a sleeping thread has its wake-up, a running thread at
  most the end of its quantum, and a ready thread none.
\<close>

lemma armed_upd [simp]:
  "armed (s\<lparr>tq := a\<rparr>) = armed s" "armed (s\<lparr>tokens := b\<rparr>) = armed s" "armed (s\<lparr>sems := d\<rparr>) = armed s"
  "armed (upd_thread t f s) = armed s" "armed (notified K i s) = armed s" "armed (upd_sem j g s) = armed s"
  "armed (critical_enter s) = armed s" "armed (critical_exit s) = armed s" "armed (bracketed s) = armed s"
  "armed (s\<lparr>pc_curthread := e\<rparr>) = armed s" "armed (s\<lparr>hw := w\<rparr>) = armed s" "armed (s\<lparr>mi_tmr := m\<rparr>) = armed s"
  by (simp_all add: armed_def fun_eq_iff notified_def upd_sem_def)

section \<open>The places of a thread\<close>

abbreviation st :: "('h, 'x) kstate_scheme \<Rightarrow> tid \<Rightarrow> td_state" where
  "st s t \<equiv> td_state (threads s t)"

abbreviation idle :: "('h, 'x) kstate_scheme \<Rightarrow> tid \<Rightarrow> bool" where
  "idle s t \<equiv> td_idle (threads s t)"

definition unarmed :: "('h, 'x) kstate_scheme \<Rightarrow> tid \<Rightarrow> bool" where
  "unarmed s t \<longleftrightarrow> armed s (Td_c t) = None \<and> armed s (Stack_c t) = None"

definition ready_in :: "('h, 'x) kstate_scheme \<Rightarrow> (tnode \<Rightarrow> tid list) \<Rightarrow> tid \<Rightarrow> bool" where
  "ready_in s q t \<longleftrightarrow> t \<in> set (q (runq_of s t)) \<and> unarmed s t \<and>
     st s t \<in> {TD_STATE_READY, TD_STATE_YIELDING, TD_STATE_WAKEUP, TD_STATE_ACK} \<and>
     (idle s t \<longrightarrow> st s t = TD_STATE_READY)"

definition waits_for :: "('h, 'x) kstate_scheme \<Rightarrow> (tnode \<Rightarrow> tid list) \<Rightarrow> tid \<Rightarrow> semid \<Rightarrow> bool" where
  "waits_for s q t i \<longleftrightarrow> t \<in> set (q (Sem_td_list i)) \<and> st s t = TD_STATE_ACK \<and> \<not> idle s t \<and>
     armed s (Stack_c t) = None \<and>
     (armed s (Td_c t) = None \<or>
      armed s (Td_c t) = Some (Some Sem_cb, Arg_token t) \<and> t_td (tokens s t) = t \<and> t_sem (tokens s t) = i)"

definition asleep :: "('h, 'x) kstate_scheme \<Rightarrow> semid set \<Rightarrow> (tnode \<Rightarrow> tid list) \<Rightarrow> tid \<Rightarrow> bool" where
  "asleep s S q t \<longleftrightarrow> unqueued s S q t \<and> st s t = TD_STATE_ACK \<and> \<not> idle s t \<and> armed s (Td_c t) = None \<and>
     armed s (Stack_c t) = Some (Some Tsleep_cb, Arg_thread t)"

definition parked :: "('h, 'x) kstate_scheme \<Rightarrow> semid set \<Rightarrow> (tnode \<Rightarrow> tid list) \<Rightarrow> tid \<Rightarrow> bool" where
  "parked s S q t \<longleftrightarrow> ready_in s q t \<or> (\<exists>i \<in> S. waits_for s q t i) \<or> asleep s S q t"

definition on_cpu :: "('h, 'x) kstate_scheme \<Rightarrow> semid set \<Rightarrow> (tnode \<Rightarrow> tid list) \<Rightarrow> tid \<Rightarrow> bool" where
  "on_cpu s S q t \<longleftrightarrow> unqueued s S q t \<and> (idle s t \<longrightarrow> st s t = TD_STATE_READY) \<and>
     (unarmed s t \<and> st s t \<in> {TD_STATE_RUNNING, TD_STATE_READY, TD_STATE_YIELDING, TD_STATE_WAKEUP, TD_STATE_ACK} \<or>
      st s t = TD_STATE_RUNNING \<and> armed s (Stack_c t) = None \<and>
      armed s (Td_c t) = Some (Some Sched_cb, Arg_thread t))"

section \<open>The invariant of the threads\<close>

definition sems_ok :: "('h, 'x) kstate_scheme \<Rightarrow> semid set \<Rightarrow> (tnode \<Rightarrow> tid list) \<Rightarrow> bool" where
  "sems_ok s S q \<longleftrightarrow>
     (\<forall>i \<in> S. sem_l (sems s i) = 0 \<and> (q (Sem_td_list i) \<noteq> [] \<longrightarrow> sem_count (sems s i) \<le> 0))"

definition tinv :: "('h, 'x) kstate_scheme \<Rightarrow> semid set \<Rightarrow> tid set \<Rightarrow> tid set \<Rightarrow> (tnode \<Rightarrow> tid list) \<Rightarrow> bool" where
  "tinv s S T U q \<longleftrightarrow>
     tqueues s S q \<and> (\<forall>l \<in> heads (cfg_nprio s) S. set (q l) \<subseteq> T) \<and> U \<subseteq> T \<and>
     (\<forall>t \<in> T. prio_ok s t \<and> (idle s t \<longrightarrow> td_quantum (threads s t) = 0)) \<and> (\<exists>t \<in> T. idle s t) \<and>
     sems_ok s S q \<and> (\<forall>t \<in> T - U. parked s S q t) \<and> (\<forall>t \<in> U. on_cpu s S q t) \<and>
     (\<forall>c. armed s c \<noteq> None \<longrightarrow> (\<exists>t \<in> T. c = Td_c t \<or> c = Stack_c t))"

lemma tinvD:
  assumes "tinv s S T U q"
  shows "tqueues s S q" and "\<And>l. l \<in> heads (cfg_nprio s) S \<Longrightarrow> set (q l) \<subseteq> T" and "U \<subseteq> T"
    and "\<And>t. t \<in> T \<Longrightarrow> prio_ok s t" and "\<And>t. t \<in> T \<Longrightarrow> idle s t \<Longrightarrow> td_quantum (threads s t) = 0"
    and "\<exists>t \<in> T. idle s t" and "sems_ok s S q" and "\<And>t. t \<in> T \<Longrightarrow> t \<notin> U \<Longrightarrow> parked s S q t"
    and "\<And>t. t \<in> U \<Longrightarrow> on_cpu s S q t"
    and "\<And>c. armed s c \<noteq> None \<Longrightarrow> \<exists>t \<in> T. c = Td_c t \<or> c = Stack_c t"
  using assms unfolding tinv_def by blast+

lemma tinvI:
  assumes "tqueues s S q" and "\<And>l. l \<in> heads (cfg_nprio s) S \<Longrightarrow> set (q l) \<subseteq> T" and "U \<subseteq> T"
    and "\<And>t. t \<in> T \<Longrightarrow> prio_ok s t" and "\<And>t. t \<in> T \<Longrightarrow> idle s t \<Longrightarrow> td_quantum (threads s t) = 0"
    and "\<exists>t \<in> T. idle s t" and "sems_ok s S q" and "\<And>t. t \<in> T \<Longrightarrow> t \<notin> U \<Longrightarrow> parked s S q t"
    and "\<And>t. t \<in> U \<Longrightarrow> on_cpu s S q t"
    and "\<And>c. armed s c \<noteq> None \<Longrightarrow> \<exists>t \<in> T. c = Td_c t \<or> c = Stack_c t"
  shows "tinv s S T U q"
  unfolding tinv_def using assms by blast

text \<open>What concerns a single thread. A change that is about another thread keeps its place.\<close>

definition same_thread :: "('h, 'x) kstate_scheme \<Rightarrow> ('h, 'x) kstate_scheme \<Rightarrow> tid \<Rightarrow> bool" where
  "same_thread s s' t \<longleftrightarrow> st s' t = st s t \<and> idle s' t = idle s t \<and> td_prio (threads s' t) = td_prio (threads s t) \<and>
     td_quantum (threads s' t) = td_quantum (threads s t) \<and>
     armed s' (Td_c t) = armed s (Td_c t) \<and> armed s' (Stack_c t) = armed s (Stack_c t) \<and>
     (armed s (Td_c t) = Some (Some Sem_cb, Arg_token t) \<longrightarrow>
        t_td (tokens s' t) = t_td (tokens s t) \<and> t_sem (tokens s' t) = t_sem (tokens s t))"

lemma parked_same:
  assumes "parked s S q t" and "same_thread s s' t" and "cfg_nprio s' = cfg_nprio s" and "prio_ok s t"
    and "\<And>l. l \<in> heads (cfg_nprio s) S \<Longrightarrow> t \<in> set (q' l) \<longleftrightarrow> t \<in> set (q l)"
  shows "parked s' S q' t"
proof -
  note same = assms(2) [unfolded same_thread_def]
  have rq: "t \<in> set (q' (runq_of s t)) \<longleftrightarrow> t \<in> set (q (runq_of s t))"
    by (intro assms(5) prio_ok_head assms(4))
  have sq: "t \<in> set (q' (Sem_td_list i)) \<longleftrightarrow> t \<in> set (q (Sem_td_list i))" if "i \<in> S" for i
    by (rule assms(5)) (use that in simp)
  from assms(1) consider "ready_in s q t" | i where "i \<in> S" "waits_for s q t i" | "asleep s S q t"
    unfolding parked_def by blast
  then show ?thesis
  proof cases
    case 1
    then have "ready_in s' q' t" using same rq by (simp add: ready_in_def unarmed_def)
    then show ?thesis by (simp add: parked_def)
  next
    case (2 i)
    then have "waits_for s' q' t i" using same sq [of i] by (auto simp: waits_for_def)
    then show ?thesis using 2 by (auto simp: parked_def)
  next
    case 3
    then have "asleep s' S q' t" using same assms(3,5) by (simp add: asleep_def unqueued_def)
    then show ?thesis by (simp add: parked_def)
  qed
qed

lemma on_cpu_same:
  assumes "on_cpu s S q t" and "same_thread s s' t" and "cfg_nprio s' = cfg_nprio s"
    and "\<And>l. l \<in> heads (cfg_nprio s) S \<Longrightarrow> t \<in> set (q' l) \<longleftrightarrow> t \<in> set (q l)"
  shows "on_cpu s' S q' t"
  using assms unfolding on_cpu_def same_thread_def unarmed_def unqueued_def by simp

text \<open>The general step: one thread \<open>t0\<close> changes place, all others keep theirs.\<close>

lemma tinv_move:
  assumes inv: "tinv s S T U q" and t0: "t0 \<in> T" and n: "cfg_nprio s' = cfg_nprio s"
    and q': "tqueues s' S q'" and sems: "sems_ok s' S q'"
    and same: "\<And>t. t \<in> T \<Longrightarrow> t \<noteq> t0 \<Longrightarrow> same_thread s s' t"
    and mem: "\<And>l t. l \<in> heads (cfg_nprio s) S \<Longrightarrow> t \<noteq> t0 \<Longrightarrow> t \<in> set (q' l) \<longleftrightarrow> t \<in> set (q l)"
    and self: "idle s' t0 = idle s t0" "td_prio (threads s' t0) = td_prio (threads s t0)"
      "td_quantum (threads s' t0) = td_quantum (threads s t0)"
    and place: "if t0 \<in> U' then on_cpu s' S q' t0 else parked s' S q' t0"
    and U': "U' - {t0} = U - {t0}"
    and other: "\<And>c. c \<noteq> Td_c t0 \<Longrightarrow> c \<noteq> Stack_c t0 \<Longrightarrow> armed s' c = armed s c"
  shows "tinv s' S T U' q'"
proof (rule tinvI)
  note D = tinvD [OF inv]
  have same': "idle s' t = idle s t" "td_prio (threads s' t) = td_prio (threads s t)"
    "td_quantum (threads s' t) = td_quantum (threads s t)" if "t \<in> T" for t
    using same [OF that] self unfolding same_thread_def by (cases "t = t0"; simp)+
  show "set (q' l) \<subseteq> T" if "l \<in> heads (cfg_nprio s') S" for l
  proof
    fix x assume "x \<in> set (q' l)"
    then show "x \<in> T" using that D(2) [of l] mem [of l x] t0 n by (cases "x = t0") auto
  qed
  show "U' \<subseteq> T" using U' D(3) t0 by blast
  show "prio_ok s' t" if "t \<in> T" for t using D(4) [OF that] same' [OF that] n by (simp add: prio_ok_def)
  show "td_quantum (threads s' t) = 0" if "t \<in> T" "idle s' t" for t using D(5) [OF that(1)] same' [OF that(1)] that by simp
  show "\<exists>t \<in> T. idle s' t" using D(6) same' by blast
  show "parked s' S q' t" if "t \<in> T" "t \<notin> U'" for t
  proof (cases "t = t0")
    case False
    then have "parked s S q t" using D(8) that U' by blast
    then show ?thesis by (rule parked_same) (use False that same n D(4) mem in auto)
  qed (use place that in auto)
  show "on_cpu s' S q' t" if "t \<in> U'" for t
  proof (cases "t = t0")
    case False
    then have "t \<in> U" using that U' by blast
    then have "on_cpu s S q t" by (rule D(9))
    then show ?thesis by (rule on_cpu_same) (use False \<open>t \<in> U\<close> D(3) same n mem in auto)
  qed (use place that in auto)
  show "\<exists>t \<in> T. c = Td_c t \<or> c = Stack_c t" if "armed s' c \<noteq> None" for c
    using that D(10) [of c] other [of c] t0 by (cases "c = Td_c t0 \<or> c = Stack_c t0") auto
qed (rule q' sems)+

text \<open>Everything else in the state does not matter.\<close>

definition same_threads :: "('h, 'x) kstate_scheme \<Rightarrow> ('h, 'x) kstate_scheme \<Rightarrow> bool" where
  "same_threads s s' \<longleftrightarrow> tq s' = tq s \<and> cfg_nprio s' = cfg_nprio s \<and> sems s' = sems s \<and> tokens s' = tokens s \<and>
     (\<forall>c. armed s' c = armed s c) \<and>
     (\<forall>t. st s' t = st s t \<and> idle s' t = idle s t \<and> td_prio (threads s' t) = td_prio (threads s t) \<and>
        td_quantum (threads s' t) = td_quantum (threads s t))"

lemma tinv_cong: "same_threads s s' \<Longrightarrow> tinv s' S T U q = tinv s S T U q"
  by (simp add: same_threads_def tinv_def tqueues_def prio_ok_def sems_ok_def parked_def ready_in_def waits_for_def
      asleep_def on_cpu_def unarmed_def unqueued_def)

lemma same_threads_refl [simp]: "same_threads s s"
  by (simp add: same_threads_def)

lemma same_threads_bracketed [simp]: "same_threads s (bracketed s)" "same_threads s (critical_enter s)"
  by (simp_all add: same_threads_def)

text \<open>A thread in a run queue is ready, one in the list of a semaphore waits for it.\<close>

lemma queued_parked:
  assumes inv: "tinv s S T U q" and l: "l \<in> heads (cfg_nprio s) S" and t: "t \<in> set (q l)"
  shows "t \<in> T" and "t \<notin> U" and "parked s S q t"
proof -
  show T: "t \<in> T" using tinvD(2) [OF inv l] t by blast
  show U: "t \<notin> U" using tinvD(9) [OF inv, of t] l t by (auto simp: on_cpu_def unqueued_def)
  show "parked s S q t" by (rule tinvD(8) [OF inv T U])
qed

lemma queued_ready:
  assumes inv: "tinv s S T U q" and i: "i < cfg_nprio s" and t: "t \<in> set (q (Runq i))"
  shows "ready_in s q t" and "runq_of s t = Runq i"
proof -
  have l: "Runq i \<in> heads (cfg_nprio s) S" using i by simp
  note p = queued_parked [OF inv l t]
  note uniq = tqueues_unique [OF tinvD(1) [OF inv] l _ t]
  show r: "ready_in s q t"
    using p(3) uniq [of "Sem_td_list _"] l t unfolding parked_def
    by (auto simp: waits_for_def asleep_def unqueued_def)
  show "runq_of s t = Runq i"
    using uniq [OF prio_ok_head [OF tinvD(4) [OF inv p(1)]]] r by (simp add: ready_in_def)
qed

lemma queued_waits:
  assumes inv: "tinv s S T U q" and i: "i \<in> S" and t: "t \<in> set (q (Sem_td_list i))"
  shows "waits_for s q t i"
proof -
  have l: "Sem_td_list i \<in> heads (cfg_nprio s) S" using i by simp
  note p = queued_parked [OF inv l t]
  note uniq = tqueues_unique [OF tinvD(1) [OF inv] l _ t]
  have "\<not> ready_in s q t" using uniq [OF prio_ok_head [OF tinvD(4) [OF inv p(1)]]] by (auto simp: ready_in_def)
  moreover have "\<not> asleep s S q t" using l t by (auto simp: asleep_def unqueued_def)
  ultimately obtain j where j: "j \<in> S" "waits_for s q t j" using p(3) by (auto simp: parked_def)
  then have "j = i" using uniq [of "Sem_td_list j"] by (auto simp: waits_for_def)
  then show ?thesis using j by simp
qed

section \<open>The moves\<close>

text \<open>Into the run queue.\<close>

lemma move_add:
  assumes inv: "tinv s S T U q" and t: "t \<in> U" and nr: "st s t \<noteq> TD_STATE_RUNNING"
  shows "tinv (added t {} s) S T (U - {t}) (q(runq_of s t := q (runq_of s t) @ [t]))"
proof (rule tinv_move [OF inv])
  note D = tinvD [OF inv]
  let ?q = "q(runq_of s t := q (runq_of s t) @ [t])"
  show T: "t \<in> T" using D(3) t by blast
  have oc: "on_cpu s S q t" by (rule D(9) [OF t])
  have l: "runq_of s t \<in> heads (cfg_nprio s) S" by (rule prio_ok_head [OF D(4) [OF T]])
  show "tqueues (added t {} s) S ?q"
    by (rule tqueues_append [OF D(1) l]) (use oc in \<open>simp_all add: on_cpu_def added_def\<close>)
  show "sems_ok (added t {} s) S ?q" using D(7) by (simp add: sems_ok_def added_def)
  show "if t \<in> U - {t} then on_cpu (added t {} s) S ?q t else parked (added t {} s) S ?q t"
    using oc nr by (auto simp: parked_def ready_in_def on_cpu_def unarmed_def added_def)
qed (auto simp: added_def same_thread_def)

text \<open>Out of the run queue.\<close>

lemma move_pick:
  assumes inv: "tinv s S T U q" and i: "i < cfg_nprio s" and q: "q (Runq i) = t # ts"
  shows "tinv (s\<lparr>tq := list_remove (Td_node t) (tq s)\<rparr>) S T (insert t U) (q(Runq i := ts))"
proof (rule tinv_move [OF inv])
  note D = tinvD [OF inv]
  let ?s = "s\<lparr>tq := list_remove (Td_node t) (tq s)\<rparr>"
  have l: "Runq i \<in> heads (cfg_nprio s) S" using i by simp
  note p = queued_parked [OF inv l] and r = queued_ready [OF inv i, of t]
  show "t \<in> T" using p(1) q by simp
  show "tqueues ?s S (q(Runq i := ts))" using tqueues_remove [OF D(1) l, of "[]" t ts ?s] q by simp
  show "sems_ok ?s S (q(Runq i := ts))" using D(7) by (simp add: sems_ok_def)
  have "unqueued s S (q(Runq i := ts)) t" using tqueues_removed [OF D(1) l, of "[]" t ts] q by simp
  then show "if t \<in> insert t U then on_cpu ?s S (q(Runq i := ts)) t else parked ?s S (q(Runq i := ts)) t"
    using r q by (auto simp: on_cpu_def ready_in_def unarmed_def unqueued_def)
qed (use assms(3) in \<open>auto simp: same_thread_def\<close>)

text \<open>A thread that runs or is being moved changes its state.\<close>

lemma move_state:
  assumes inv: "tinv s S T U q" and t: "t \<in> U" and u: "unarmed s t" and ni: "\<not> idle s t"
    and st': "st' \<in> {TD_STATE_RUNNING, TD_STATE_READY, TD_STATE_YIELDING, TD_STATE_WAKEUP, TD_STATE_ACK}"
  shows "tinv (set_td_state t st' s) S T U q"
proof (rule tinv_move [OF inv])
  note D = tinvD [OF inv]
  show "t \<in> T" using D(3) t by blast
  show "tqueues (set_td_state t st' s) S q" using D(1) by (simp add: tqueues_def)
  show "sems_ok (set_td_state t st' s) S q" using D(7) by (simp add: sems_ok_def)
  show "if t \<in> U then on_cpu (set_td_state t st' s) S q t else parked (set_td_state t st' s) S q t"
    using D(9) [OF t] t u ni st' by (auto simp: on_cpu_def unarmed_def unqueued_def)
qed (auto simp: same_thread_def)

text \<open>A callout of a thread that runs or is being moved is set or cancelled.\<close>

lemma tinv_callout:
  assumes inv: "tinv s S T U q" and t: "t \<in> T" and only: "callout_only {c} s s'" and c: "c = Td_c t \<or> c = Stack_c t"
    and place: "if t \<in> U then on_cpu s' S q t else parked s' S q t"
  shows "tinv s' S T U q"
proof (rule tinv_move [OF inv t])
  note D = tinvD [OF inv] and fr = callout_frame_sel [OF callout_only_frame [OF only]]
  note arm = armed_only [OF only]
  show "tqueues s' S q" using D(1) tqueues_cong fr by blast
  show "sems_ok s' S q" using D(7) fr by (simp add: sems_ok_def)
  show "same_thread s s' u" if "u \<noteq> t" for u
    using that c fr arm [of "Td_c u"] arm [of "Stack_c u"] by (auto simp: same_thread_def)
  show "armed s' d = armed s d" if "d \<noteq> Td_c t" "d \<noteq> Stack_c t" for d using that c arm [of d] by auto
qed (use place callout_frame_sel [OF callout_only_frame [OF only]] in simp_all)

section \<open>What the moves leave alone\<close>

definition steady :: "('h, 'x) kstate_scheme \<Rightarrow> ('h, 'x) kstate_scheme \<Rightarrow> bool" where
  "steady s s' \<longleftrightarrow> pcpu_id s' = pcpu_id s \<and> pc_curthread s' = pc_curthread s \<and> cfg_smp s' = cfg_smp s \<and>
     cfg_ncpu s' = cfg_ncpu s \<and> cfg_nprio s' = cfg_nprio s \<and> cfg s' = cfg s \<and> intr_on s' = intr_on s \<and>
     trapframes s' = trapframes s \<and>
     (\<forall>t. td_critnest (threads s' t) = td_critnest (threads s t) \<and> td_tf (threads s' t) = td_tf (threads s t) \<and>
        idle s' t = idle s t)"

lemma steady_refl [simp]: "steady s s"
  by (simp add: steady_def)

lemma steady_trans [trans]: "steady s t \<Longrightarrow> steady t u \<Longrightarrow> steady s u"
  by (simp add: steady_def)

lemma steady_upd [simp]:
  "steady s (t\<lparr>tq := a\<rparr>) = steady s t" "steady s (t\<lparr>tokens := b\<rparr>) = steady s t" "steady s (t\<lparr>sems := c\<rparr>) = steady s t"
  "steady s (t\<lparr>cq := d\<rparr>) = steady s t" "steady s (upd_callout e f t) = steady s t"
  "steady s (set_td_state u st' t) = steady s t" "steady s (notified K i t) = steady s t" "steady s (upd_sem j g t) = steady s t"
  "steady s (bracketed t) = steady s t" "steady s (added u K t) = steady s t"
  "steady s (t\<lparr>callouts := x\<rparr>) = steady s t" "steady s (t\<lparr>mi_tmr := y\<rparr>) = steady s t" "steady s (t\<lparr>hw := z\<rparr>) = steady s t"
  by (auto simp: steady_def upd_callout_def notified_def upd_sem_def added_def)

lemma steady_callout: "callout_frame s s' \<Longrightarrow> cfg s' = cfg s \<Longrightarrow> steady s s'"
  using callout_frame_sel [of s s'] by (simp add: steady_def)

lemma steady_crit:
  "steady s s' \<Longrightarrow> in_critical s' = in_critical s" "steady s s' \<Longrightarrow> crit_room s' = crit_room s"
  by (simp_all add: steady_def in_critical_def crit_room_def)

text \<open>The states of the threads on the CPU do not change, except that a quantum may end.\<close>

definition mild :: "tid set \<Rightarrow> ('h, 'x) kstate_scheme \<Rightarrow> ('h, 'x) kstate_scheme \<Rightarrow> bool" where
  "mild U s s' \<longleftrightarrow> (\<forall>t \<in> U. st s' t = st s t \<or> st s t = TD_STATE_RUNNING \<and> st s' t = TD_STATE_READY)"

lemma mild_refl [simp]: "mild U s s"
  by (simp add: mild_def)

lemma mild_trans [trans]: "mild U s t \<Longrightarrow> mild U t u \<Longrightarrow> mild U s u"
  by (fastforce simp: mild_def)

text \<open>A section that leaves the nesting alone inside is left as it was entered.\<close>

lemma steady_exit:
  assumes "steady (critical_enter s) u" and "td_saved_ie (curtd u) = td_saved_ie (threads (critical_enter s) (curthread s))"
  shows "steady s (critical_exit u)"
proof -
  have u: "pcpu_id u = pcpu_id s" "pc_curthread u = pc_curthread s" using assms(1) by (simp_all add: steady_def)
  show ?thesis
  proof (cases "td_critnest (curtd s) = 0")
    case True
    then show ?thesis using assms u by (auto simp: steady_def critical_exit_def critical_enter_def Let_def)
  next
    case False
    then show ?thesis using assms u by (auto simp: steady_def critical_exit_def critical_enter_def Let_def)
  qed
qed

section \<open>Adding a thread, and the semaphore's lock\<close>

lemma add_up:
  assumes "prio_ok s t" and "\<not> cfg_smp s"
  shows "mdx_sched_add t s = Some (added t {} (bracketed s))"
  using sched_add_spec [OF assms(1), of "[]" "[]"] assms(2) by (simp add: sched_free_def smp_ok_def to_notify_def)

lemma sem_lock_free: "sem_l (sems s i) = 0 \<Longrightarrow> sem_lock i s = Some (s\<lparr>sems := (sems s)(i := (sems s i)\<lparr>sem_l := 1\<rparr>)\<rparr>)"
  by (simp add: sem_lock_def sl_lock_def upd_sem_def)

lemma sem_unlock_held:
  "sems u i = r\<lparr>sem_l := 1\<rparr> \<Longrightarrow> sem_l r = 0 \<Longrightarrow> sem_unlock i u = Some (u\<lparr>sems := (sems u)(i := r)\<rparr>)"
  by (cases r) (simp add: sem_unlock_def sl_unlock_def upd_sem_def)

lemma added_sel [simp]:
  "threads (added t K s) = threads s" "sems (added t K s) = sems s" "cfg_nprio (added t K s) = cfg_nprio s"
  "cfg_smp (added t K s) = cfg_smp s" "tokens (added t K s) = tokens s" "armed (added t K s) = armed s"
  by (simp_all add: added_def notified_def armed_def fun_eq_iff)

lemma critical_exit_added [crit_simps]: "critical_exit (added t K s) = added t K (critical_exit s)"
  by (simp add: added_def sched_l_commute crit_simps) (simp add: critical_exit_def Let_def)

lemma same_threads_exit [simp]: "same_threads s (critical_exit s)"
  by (auto simp: same_threads_def critical_exit_def Let_def armed_def)

lemma added_sems: "added t K (s\<lparr>sems := a\<rparr>) = (added t K s)\<lparr>sems := a\<rparr>"
  by (cases s) (simp add: added_def notified_def cong: if_cong)

section \<open>Operations that move one thread\<close>

definition thread_step :: "tid \<Rightarrow> ('h, 'x) kstate_scheme \<Rightarrow> ('h, 'x) kstate_scheme \<Rightarrow> bool" where
  "thread_step t s s' \<longleftrightarrow> cfg_nprio s' = cfg_nprio s \<and>
     (\<forall>u. idle s' u = idle s u \<and> td_prio (threads s' u) = td_prio (threads s u) \<and>
        td_quantum (threads s' u) = td_quantum (threads s u)) \<and>
     (\<forall>u. u \<noteq> t \<longrightarrow> st s' u = st s u \<and> tokens s' u = tokens s u) \<and>
     (\<forall>c. c \<noteq> Td_c t \<longrightarrow> c \<noteq> Stack_c t \<longrightarrow> armed s' c = armed s c)"

lemma thread_step_refl [simp]: "thread_step t s s"
  by (simp add: thread_step_def)

lemma thread_step_trans [trans]: "thread_step t s s1 \<Longrightarrow> thread_step t s1 s2 \<Longrightarrow> thread_step t s s2"
  by (simp add: thread_step_def)

lemma thread_step_upd [simp]:
  "thread_step t s (u\<lparr>tq := a\<rparr>) = thread_step t s u" "thread_step t s (u\<lparr>sems := b\<rparr>) = thread_step t s u"
  "thread_step t s (set_td_state t st' u) = thread_step t s u" "thread_step t s (critical_enter u) = thread_step t s u"
  "thread_step t s (bracketed u) = thread_step t s u" "thread_step t s (upd_sem i f u) = thread_step t s u"
  "thread_step t s (critical_exit u) = thread_step t s u"
  by (auto simp: thread_step_def upd_sem_def armed_def critical_exit_def Let_def)

lemma thread_step_tokens: "(\<And>v. v \<noteq> t \<Longrightarrow> g v = tokens u v) \<Longrightarrow> thread_step t s (u\<lparr>tokens := g\<rparr>) = thread_step t s u"
  by (auto simp: thread_step_def)

lemma thread_step_callout:
  assumes "callout_only C s s'" and "C \<subseteq> {Td_c t, Stack_c t}"
  shows "thread_step t s s'"
  using callout_frame_sel [OF callout_only_frame [OF assms(1)]] armed_only [OF assms(1)] assms(2)
  unfolding thread_step_def by fastforce

lemma tinv_step:
  assumes inv: "tinv s S T U q" and t: "t \<in> T" and step: "thread_step t s s'"
    and q': "tqueues s' S q'" and sems: "sems_ok s' S q'"
    and mem: "\<And>l u. l \<in> heads (cfg_nprio s) S \<Longrightarrow> u \<noteq> t \<Longrightarrow> u \<in> set (q' l) \<longleftrightarrow> u \<in> set (q l)"
    and place: "if t \<in> U' then on_cpu s' S q' t else parked s' S q' t" and U': "U' - {t} = U - {t}"
  shows "tinv s' S T U' q'"
  by (rule tinv_move [OF inv t _ q' sems _ mem _ _ _ place U'])
    (use step in \<open>simp_all add: thread_step_def same_thread_def\<close>)

text \<open>A waiting thread leaves the list of its semaphore.\<close>

lemma move_unwait:
  assumes inv: "tinv s S T U q" and i: "i \<in> S" and q: "q (Sem_td_list i) = xs @ t # ys"
    and step: "thread_step t s s'" and tq: "tq s' = list_remove (Td_node t) (tq s)" and sems: "sems s' = sems s"
    and off: "armed s' (Td_c t) = None" "armed s' (Stack_c t) = armed s (Stack_c t)"
    and st': "st s' t \<in> {TD_STATE_WAKEUP, TD_STATE_ACK}"
  shows "tinv s' S T (insert t U) (q(Sem_td_list i := xs @ ys))"
proof -
  note D = tinvD [OF inv]
  let ?q = "q(Sem_td_list i := xs @ ys)"
  have n: "cfg_nprio s' = cfg_nprio s" "idle s' t = idle s t" using step by (auto simp: thread_step_def)
  have l: "Sem_td_list i \<in> heads (cfg_nprio s) S" using i by simp
  have t: "t \<in> set (q (Sem_td_list i))" using q by simp
  note p = queued_parked [OF inv l t] and w = queued_waits [OF inv i t]
  have un: "unqueued s S ?q t" by (rule tqueues_removed [OF D(1) l q])
  show ?thesis
  proof (rule tinv_step [OF inv p(1) step])
    show "tqueues s' S ?q" by (rule tqueues_remove [OF D(1) l q tq n(1)])
    show "sems_ok s' S ?q" using D(7) sems q by (auto simp: sems_ok_def)
    show "if t \<in> insert t U then on_cpu s' S ?q t else parked s' S ?q t"
      using un w st' off n by (auto simp: on_cpu_def unarmed_def waits_for_def unqueued_def)
    show "u \<in> set (?q k) \<longleftrightarrow> u \<in> set (q k)" if "u \<noteq> t" for k u using that q by auto
  qed auto
qed

text \<open>The running thread enters the list of a semaphore, or goes to sleep.\<close>

lemma move_wait:
  assumes inv: "tinv s S T U q" and t: "t \<in> U" and i: "i \<in> S" and ni: "\<not> idle s t"
    and step: "thread_step t s s'" and tq: "tq s' = list_append (Sem_td_list i) (Td_node t) (tq s)"
    and sems: "sems s' = sems s" "sem_count (sems s i) \<le> 0" and st': "st s' t = TD_STATE_ACK"
    and arm: "armed s' (Stack_c t) = None"
      "armed s' (Td_c t) = None \<or> armed s' (Td_c t) = Some (Some Sem_cb, Arg_token t) \<and>
         t_td (tokens s' t) = t \<and> t_sem (tokens s' t) = i"
  shows "tinv s' S T (U - {t}) (q(Sem_td_list i := q (Sem_td_list i) @ [t]))"
proof -
  note D = tinvD [OF inv]
  let ?q = "q(Sem_td_list i := q (Sem_td_list i) @ [t])"
  have n: "cfg_nprio s' = cfg_nprio s" "idle s' t = idle s t" using step by (auto simp: thread_step_def)
  have l: "Sem_td_list i \<in> heads (cfg_nprio s) S" using i by simp
  have T: "t \<in> T" using D(3) t by blast
  have un: "unqueued s S q t" using D(9) [OF t] by (simp add: on_cpu_def)
  show ?thesis
  proof (rule tinv_step [OF inv T step])
    show "tqueues s' S ?q" by (rule tqueues_append [OF D(1) l un tq n(1)])
    show "sems_ok s' S ?q" using D(7) sems i by (auto simp: sems_ok_def)
    have "waits_for s' ?q t i" using st' ni n arm by (auto simp: waits_for_def)
    then show "if t \<in> U - {t} then on_cpu s' S ?q t else parked s' S ?q t" using i by (auto simp: parked_def)
    show "u \<in> set (?q k) \<longleftrightarrow> u \<in> set (q k)" if "u \<noteq> t" for k u using that by auto
  qed auto
qed

lemma move_sleep:
  assumes inv: "tinv s S T U q" and t: "t \<in> U" and ni: "\<not> idle s t" and step: "thread_step t s s'"
    and tq: "tq s' = tq s" and sems: "sems s' = sems s" and st': "st s' t = TD_STATE_ACK"
    and arm: "armed s' (Td_c t) = None" "armed s' (Stack_c t) = Some (Some Tsleep_cb, Arg_thread t)"
  shows "tinv s' S T (U - {t}) q"
proof -
  note D = tinvD [OF inv]
  have n: "cfg_nprio s' = cfg_nprio s" "idle s' t = idle s t" using step by (auto simp: thread_step_def)
  have T: "t \<in> T" using D(3) t by blast
  have "asleep s' S q t" using D(9) [OF t] st' ni n arm by (simp add: asleep_def on_cpu_def unqueued_def)
  then show ?thesis
    using tinv_step [OF inv T step, of q "U - {t}"] D(1,7) tqueues_cong [OF tq n(1)] sems
    by (auto simp: parked_def sems_ok_def)
qed

end
