(* ===== verification/Libc_Bits.thy ===== *)
theory Libc_Bits
  imports Prelude
begin

text \<open>
  \<^verbatim>\<open>ffs\<close> and \<^verbatim>\<open>fls\<close> of \<^verbatim>\<open>lib/libc/string/\<close>, for the widths of \<^verbatim>\<open>int\<close>, \<^verbatim>\<open>long\<close> and
  \<^verbatim>\<open>long long\<close>: the loops shift an unsigned mask and count, and they return the position
  of the lowest and of the highest set bit, counted from 1.
\<close>

lemma drop_bit_1_less: "n \<noteq> 0 \<Longrightarrow> unat (drop_bit 1 n) < unat n" for n :: "'a::len word"
  by (simp add: unat_drop_bit unat_gt_0)

text \<open>The loops, on the mask and the count so far. A zero mask is excluded before.\<close>

function ffs_loop :: "'a::len word \<Rightarrow> nat \<Rightarrow> nat" where
  "ffs_loop m b =
     (if m = 0 then b else if m AND 1 = 0 then ffs_loop (drop_bit 1 m) (b + 1) else b)"
  by auto
termination
  by (relation "measure (\<lambda>(m, b). unat m)") (simp_all add: drop_bit_1_less [simplified])

definition ffs :: "'a::len word \<Rightarrow> nat" where
  "ffs m = (if m = 0 then 0 else ffs_loop m 1)"

function fls_loop :: "'a::len word \<Rightarrow> nat \<Rightarrow> nat" where
  "fls_loop m b = (if m = 0 then b else if m \<noteq> 1 then fls_loop (drop_bit 1 m) (b + 1) else b)"
  by auto
termination
  by (relation "measure (\<lambda>(m, b). unat m)") (simp_all add: drop_bit_1_less [simplified])

definition fls :: "'a::len word \<Rightarrow> nat" where
  "fls m = (if m = 0 then 0 else fls_loop m 1)"

text \<open>The variants have the same text at another width.\<close>

definition ffsl :: "u32 \<Rightarrow> nat" where "ffsl m = (if m = 0 then 0 else ffs_loop m 1)"
definition ffsll :: "u64 \<Rightarrow> nat" where "ffsll m = (if m = 0 then 0 else ffs_loop m 1)"
definition flsl :: "u32 \<Rightarrow> nat" where "flsl m = (if m = 0 then 0 else fls_loop m 1)"
definition flsll :: "u64 \<Rightarrow> nat" where "flsll m = (if m = 0 then 0 else fls_loop m 1)"

lemma ffs_variants: "ffsl a = ffs a" "ffsll b = ffs b" "flsl a = fls a" "flsll b = fls b"
  by (simp_all add: ffsl_def ffsll_def flsl_def flsll_def ffs_def fls_def)

declare ffs_loop.simps [simp del] fls_loop.simps [simp del]

lemma and_1_eq_0_iff: "m AND 1 = 0 \<longleftrightarrow> \<not> bit m 0" for m :: "'a::len word"
  by (simp add: and_one_eq bit_0 mod_2_eq_odd)

lemma drop_bit_1_eq_0: "drop_bit 1 m = 0 \<Longrightarrow> m = 0 \<or> m = 1" for m :: "'a::len word"
proof -
  assume "drop_bit 1 m = 0"
  then have "unat m div 2 = 0" using unat_drop_bit [of 1 m] by simp
  then have "unat m = 0 \<or> unat m = 1" by linarith
  then show ?thesis by (metis unat_eq_zero unat_1 word_unat_eq_iff)
qed

lemma ffs_loop_spec:
  "m \<noteq> 0 \<Longrightarrow> \<exists>k. ffs_loop m b = b + k \<and> bit m k \<and> (\<forall>i < k. \<not> bit m i)"
proof (induction m b rule: ffs_loop.induct)
  case (1 m b)
  show ?case
  proof (cases "m AND 1 = 0")
    case False
    then show ?thesis using "1.prems" by (intro exI [of _ 0]) (simp add: ffs_loop.simps [of m] and_1_eq_0_iff)
  next
    case True
    then have b0: "\<not> bit m 0" by (simp add: and_1_eq_0_iff)
    then have "m \<noteq> 1" by auto
    then have "drop_bit 1 m \<noteq> 0" using "1.prems" drop_bit_1_eq_0 by blast
    from "1.IH" [OF "1.prems" True this] obtain k where k: "ffs_loop (drop_bit 1 m) (b + 1) = b + 1 + k"
      "bit m (Suc k)" "\<forall>i < k. \<not> bit m (Suc i)" by (auto simp: bit_simps simp del: drop_bit_eq_div)
    then have "\<forall>i < Suc k. \<not> bit m i" using b0 by (metis less_Suc_eq_0_disj)
    then show ?thesis using k True "1.prems" by (intro exI [of _ "Suc k"]) (simp add: ffs_loop.simps [of m])
  qed
qed

lemma ffs_eq:
  fixes m :: "'a::len word"
  assumes "m \<noteq> 0"
  shows "bit m (ffs m - 1)" and "i < ffs m - 1 \<Longrightarrow> \<not> bit m i" and "0 < ffs m" and "ffs m \<le> LENGTH('a)"
proof -
  obtain k where k: "ffs_loop m 1 = 1 + k" "bit m k" "\<forall>i < k. \<not> bit m i"
    using ffs_loop_spec [OF assms] by blast
  then show "bit m (ffs m - 1)" "i < ffs m - 1 \<Longrightarrow> \<not> bit m i" "0 < ffs m" "ffs m \<le> LENGTH('a)"
    using assms bit_imp_le_length [OF k(2)] by (simp_all add: ffs_def)
qed

lemma fls_loop_spec:
  "m \<noteq> 0 \<Longrightarrow> \<exists>k. fls_loop m b = b + k \<and> bit m k \<and> (\<forall>i > k. \<not> bit m i)"
proof (induction m b rule: fls_loop.induct)
  case (1 m b)
  show ?case
  proof (cases "m = 1")
    case True
    then show ?thesis by (intro exI [of _ 0]) (simp add: fls_loop.simps bit_1_iff)
  next
    case False
    then have "drop_bit 1 m \<noteq> 0" using "1.prems" drop_bit_1_eq_0 by blast
    from "1.IH" [OF "1.prems" False this] obtain k where k: "fls_loop (drop_bit 1 m) (b + 1) = b + 1 + k"
      "bit m (Suc k)" "\<forall>i > k. \<not> bit m (Suc i)" by (auto simp: bit_simps simp del: drop_bit_eq_div)
    then have "\<forall>i > Suc k. \<not> bit m i" by (metis Suc_less_eq2)
    then show ?thesis using k False "1.prems" by (intro exI [of _ "Suc k"]) (simp add: fls_loop.simps [of m])
  qed
qed

lemma fls_eq:
  fixes m :: "'a::len word"
  assumes "m \<noteq> 0"
  shows "bit m (fls m - 1)" and "i > fls m - 1 \<Longrightarrow> \<not> bit m i" and "0 < fls m"
proof -
  obtain k where k: "fls_loop m 1 = 1 + k" "bit m k" "\<forall>i > k. \<not> bit m i"
    using fls_loop_spec [OF assms] by blast
  then show "bit m (fls m - 1)" "i > fls m - 1 \<Longrightarrow> \<not> bit m i" "0 < fls m"
    using assms by (simp_all add: fls_def)
qed

end
