(* ===== verification/Trap.thy ===== *)
theory Trap
  imports Thread Libc_Bits
begin

text \<open>
  The exception handler of \<^verbatim>\<open>arch/riscv/riscv/trap.c\<close> for a multi-threaded kernel in machine mode,
  without floating-point state: it saves the interrupted thread, services the interrupt and
  returns the trap frame of the thread to run. The interrupt dispatch of \<^verbatim>\<open>intr.c\<close>, the timer and
  software interrupts of the CLINT and the handler of inter-processor interrupts of
  \<^verbatim>\<open>kernel/sched/mdx_smp.c\<close>.
\<close>

definition EXCP_INTR :: u32 where
  "EXCP_INTR = push_bit 31 1"

definition EXCP_MASK :: u32 where
  "EXCP_MASK = 0xfff"

section \<open>Synchronous exceptions\<close>

definition upd_tf :: "nat \<Rightarrow> (trapframe \<Rightarrow> trapframe) \<Rightarrow> ('h, 'x) kstate_scheme \<Rightarrow> ('h, 'x) kstate_scheme" where
  "upd_tf tf f s = s\<lparr>trapframes := (trapframes s)(tf := f (trapframes s tf))\<rparr>"

definition handle_exception :: "nat \<Rightarrow> ('h, 'x) kstate_scheme \<Rightarrow> ('h, 'x) kstate_scheme option" where
  "handle_exception tf s =
     (let cause = tf_cause (trapframes s tf) AND EXCP_MASK in
      if cause = 11 then Some (upd_tf tf (\<lambda>f. f\<lparr>tf_epc := tf_epc f + 4\<rparr>) s)
      else if cause = 3 then Some (upd_tf tf (\<lambda>f. f\<lparr>tf_epc := tf_epc f + 2\<rparr>) s)
      else None)"

section \<open>Interrupts\<close>

lemma clear_bit_less:
  fixes x :: u32
  assumes "bit x k"
  shows "unat (x AND NOT (push_bit k 1)) < unat x"
proof -
  let ?y = "x AND NOT (push_bit k 1)"
  have "?y \<le> x" by (rule word_and_le2)
  moreover have "?y \<noteq> x"
  proof
    assume eq: "?y = x"
    have "\<not> bit ?y k" by (simp add: bit_simps)
    then show False using assms eq by simp
  qed
  ultimately show ?thesis by (simp add: word_less_unat [symmetric])
qed

text \<open>The loop over the pending inter-processor interrupts. \<open>action\<close> is
  \<^verbatim>\<open>smp_rendezvous_action\<close>.\<close>

function ipi_loop :: "(('h, 'x) kstate_scheme \<Rightarrow> ('h, 'x) kstate_scheme option) \<Rightarrow> u32 \<Rightarrow>
    ('h, 'x) kstate_scheme \<Rightarrow> ('h, 'x) kstate_scheme option" where
  "ipi_loop action bitmap s =
     (if bitmap = 0 then Some s
      else
        (let ipi = push_bit (ffs bitmap - 1) 1; bitmap = bitmap AND NOT ipi in
         if ipi = IPI_TRYST then do { s \<leftarrow> action s; ipi_loop action bitmap s }
         else ipi_loop action bitmap s))"
  by auto
termination
proof (relation "measure (\<lambda>(action, bitmap, s). unat bitmap)")
  fix bitmap ipi rest :: u32
  assume "\<not> bitmap = 0" "ipi = push_bit (ffs bitmap - 1) 1" "rest = bitmap AND NOT ipi"
  then show "((action, rest, t), (action, bitmap, s)) \<in> measure (\<lambda>(action, bitmap, s). unat bitmap)"
    for action :: "('h, 'x) kstate_scheme \<Rightarrow> ('h, 'x) kstate_scheme option" and s t
    using clear_bit_less [OF ffs_eq(1), of bitmap] by (simp only: in_measure split_conv simp_thms)
  then show "((action, rest, s), (action, bitmap, s)) \<in> measure (\<lambda>(action, bitmap, s). unat bitmap)"
    for action :: "('h, 'x) kstate_scheme \<Rightarrow> ('h, 'x) kstate_scheme option" and s .
qed simp

declare ipi_loop.simps [simp del]

definition ipi_handler :: "(('h, 'x) kstate_scheme \<Rightarrow> ('h, 'x) kstate_scheme option) \<Rightarrow>
    ('h, 'x) kstate_scheme \<Rightarrow> ('h, 'x) kstate_scheme option" where
  "ipi_handler action s =
     (let bitmap = pending_ipis s (pcpu_id s);
          s = s\<lparr>pending_ipis := (pending_ipis s)(pcpu_id s := 0)\<rparr>
      in if bitmap = 0 then Some s else ipi_loop action bitmap s)"

definition clint_intr_software :: "(('h, 'x) kstate_scheme \<Rightarrow> ('h, 'x) kstate_scheme option) \<Rightarrow>
    ('h, 'x) kstate_scheme \<Rightarrow> ('h, 'x) kstate_scheme option" where
  "clint_intr_software action s = ipi_handler action (s\<lparr>sip := (sip s)(pcpu_id s := False)\<rparr>)"

text \<open>What the interrupt handlers need of the machine and of the other components: clearing
  the timer interrupt enable, the external interrupts, the functions of callouts and the
  rendezvous.\<close>

record ('h, 's) intr_env =
  clear_tie :: "cpuid \<Rightarrow> 'h \<Rightarrow> 'h"
  plic_intr :: "'s \<Rightarrow> 's option"
  rendezvous :: "'s \<Rightarrow> 's option"
  dispatch :: "cfunc \<Rightarrow> carg \<Rightarrow> 's \<Rightarrow> 's option"

definition clint_intr :: "('h, ('h, 'x) kstate_scheme) intr_env \<Rightarrow> ('h, 'x) kstate_scheme \<Rightarrow>
    ('h, 'x) kstate_scheme option" where
  "clint_intr env s =
     do { let s = s\<lparr>hw := clear_tie env (pcpu_id s) (hw s)\<rparr>;
          (_, s) \<leftarrow> mdx_callout_callback (dispatch env) s;
          Some s }"

text \<open>The dispatch of interrupts, in a build with \<^verbatim>\<open>MDX_RISCV_PLIC\<close> and without \<^verbatim>\<open>MDX_RISCV_CLIC\<close>.\<close>

definition riscv_intr :: "('h, ('h, 'x) kstate_scheme) intr_env \<Rightarrow> u32 \<Rightarrow> ('h, 'x) kstate_scheme \<Rightarrow>
    ('h, 'x) kstate_scheme option" where
  "riscv_intr env irq s =
     (if irq = 5 \<or> irq = 7 then clint_intr env s
      else if cfg_smp s \<and> (irq = 1 \<or> irq = 3) then clint_intr_software (rendezvous env) s
      else if irq = 9 \<or> irq = 11 then plic_intr env s
      else Some s)"

section \<open>The exception handler\<close>

text \<open>The part after the interrupted thread was acknowledged: run the handler on the interrupt
  thread of the CPU.\<close>

definition enter_intr_thread :: "('h, 'x) kstate_scheme \<Rightarrow> ('h, 'x) kstate_scheme" where
  "enter_intr_thread s =
     (let s = s\<lparr>pc_curthread := (pc_curthread s)(pcpu_id s := intr_thread (cfg s) (pcpu_id s))\<rparr>
      in upd_thread (curthread s) (\<lambda>t. t\<lparr>td_critnest := td_critnest t + 1\<rparr>) s)"

definition leave_intr_thread :: "tid \<Rightarrow> ('h, 'x) kstate_scheme \<Rightarrow> ('h, 'x) kstate_scheme" where
  "leave_intr_thread td s =
     (let s = upd_thread (curthread s) (\<lambda>t. t\<lparr>td_critnest := td_critnest t - 1\<rparr>) s
      in s\<lparr>pc_curthread := (pc_curthread s)(pcpu_id s := td)\<rparr>)"

text \<open>On the interrupt thread: service the interrupt, then keep the thread or pick the next one.\<close>

definition trap_switch :: "('h, ('h, 'x) kstate_scheme) intr_env \<Rightarrow> bool \<Rightarrow> u32 \<Rightarrow> tid \<Rightarrow> bool \<Rightarrow>
    ('h, 'x) kstate_scheme \<Rightarrow> (tid \<times> ('h, 'x) kstate_scheme) option" where
  "trap_switch env intr irq td released s =
     do { s \<leftarrow> (if intr then riscv_intr env irq s else Some s);
          (released, s) \<leftarrow> (if \<not> released then mdx_sched_park td s else Some (released, s));
          (if released then mdx_sched_next s else Some (td, s)) }"

definition riscv_exception :: "('h, ('h, 'x) kstate_scheme) intr_env \<Rightarrow> nat \<Rightarrow> ('h, 'x) kstate_scheme \<Rightarrow>
    (nat \<times> ('h, 'x) kstate_scheme) option" where
  "riscv_exception env tf s =
     do { let td = curthread s;
          let s = upd_thread td (\<lambda>t. t\<lparr>td_tf := tf\<rparr>) s;
          s \<leftarrow> (if cfg_smp s \<and> td_idle (threads s td) then mdx_sched_cpu_avail (pcpu_id s) False s else Some s);
          let intr = (tf_cause (trapframes s tf) AND EXCP_INTR \<noteq> 0);
          let irq = tf_cause (trapframes s tf) AND EXCP_MASK;
          s \<leftarrow> (if intr then Some s else handle_exception tf s);
          (released, s) \<leftarrow> mdx_sched_ack td s;
          let s = enter_intr_thread s;
          (td, s) \<leftarrow> trap_switch env intr irq td released s;
          let s = leave_intr_thread td s;
          Some (td_tf (threads s td), s) }"

end
