(* ===== verification/Kernel_Intr.thy ===== *)
theory Kernel_Intr
  imports Kernel_Inv Trap
begin

text \<open>
  The timer interrupt on the threads: every callout that fires moves its thread, and after
  the handler every thread still has exactly one place.
\<close>

section \<open>The functions of callouts\<close>

abbreviation fired :: "cptr \<Rightarrow> cnode heap \<Rightarrow> ('h, 'x) kstate_scheme \<Rightarrow> ('h, 'x) kstate_scheme" where
  "fired c h s \<equiv> upd_callout c fire (s\<lparr>cq := h\<rparr>)"

lemma fired_only: "callout_only {c} s (fired c h s)"
  by simp

lemma armed_fired [simp]: "armed (fired c h s) d = (if d = c then None else armed s d)"
  by (simp add: armed_def fire_def)

lemma fired_sel [simp]:
  "threads (fired c h s) = threads s" "tq (fired c h s) = tq s" "cfg_nprio (fired c h s) = cfg_nprio s"
  "cfg_smp (fired c h s) = cfg_smp s" "sems (fired c h s) = sems s" "tokens (fired c h s) = tokens s"
  "pcpu_id (fired c h s) = pcpu_id s" "pc_curthread (fired c h s) = pc_curthread s"
  by (simp_all add: upd_callout_def)

lemma run_armed:
  assumes "armed s c = Some (Some f, a)"
  shows "run_callout call c (fired c h s) = call f a (fired c h s)"
  using assms by (auto simp: run_callout_def armed_def fire_def split: if_splits)

text \<open>The callout of a thread is the end of its quantum, its timeout or its wake-up.\<close>

lemma armed_cases:
  assumes inv: "tinv s S T U q" and a: "armed s c \<noteq> None"
  obtains (quantum) t where "t \<in> U" "c = Td_c t" "armed s c = Some (Some Sched_cb, Arg_thread t)"
      "st s t = TD_STATE_RUNNING" "\<not> idle s t" "on_cpu s S q t"
  | (timeout) t i where "t \<in> T" "t \<notin> U" "c = Td_c t" "armed s c = Some (Some Sem_cb, Arg_token t)" "i \<in> S" "waits_for s q t i"
      "t_td (tokens s t) = t" "t_sem (tokens s t) = i"
  | (wakeup) t where "t \<in> T" "t \<notin> U" "c = Stack_c t" "armed s c = Some (Some Tsleep_cb, Arg_thread t)" "asleep s S q t"
proof -
  from tinvD(10) [OF inv a] obtain t where t: "t \<in> T" "c = Td_c t \<or> c = Stack_c t" by blast
  show ?thesis
  proof (cases "t \<in> U")
    case True
    then have oc: "on_cpu s S q t" by (rule tinvD(9) [OF inv])
    then show ?thesis using a t True by (intro quantum [of t]) (auto simp: on_cpu_def unarmed_def)
  next
    case False
    then consider "ready_in s q t" | i where "i \<in> S" "waits_for s q t i" | "asleep s S q t"
      using tinvD(8) [OF inv t(1)] by (auto simp: parked_def)
    then show ?thesis
    proof cases
      case 1
      then show ?thesis using a t by (auto simp: ready_in_def unarmed_def)
    next
      case (2 i)
      then show ?thesis using a t False by (intro timeout [of t i]) (auto simp: waits_for_def)
    next
      case 3
      then show ?thesis using a t False by (intro wakeup [of t]) (auto simp: asleep_def)
    qed
  qed
qed

lemma fire_quantum:
  assumes inv: "tinv s S T U q" and t: "t \<in> U" and a: "armed s (Td_c t) = Some (Some Sched_cb, Arg_thread t)"
    and r: "st s t = TD_STATE_RUNNING" and up: "\<not> cfg_smp s" and crit: "in_critical s"
  shows "mdx_sched_cb t (fired (Td_c t) h s) = Some (set_td_state t TD_STATE_READY (fired (Td_c t) h s))"
    and "tinv (set_td_state t TD_STATE_READY (fired (Td_c t) h s)) S T U q"
proof -
  let ?s = "fired (Td_c t) h s"
  have "in_critical ?s" using crit by (simp add: in_critical_def)
  then show "mdx_sched_cb t ?s = Some (set_td_state t TD_STATE_READY ?s)"
    using r up by (simp add: mdx_sched_cb_def mdx_sched_lock_def mdx_sched_unlock_def)
  have oc: "on_cpu s S q t" by (rule tinvD(9) [OF inv t])
  have "tinv ?s S T U q"
    by (rule tinv_callout [OF inv _ fired_only]) (use tinvD(3) [OF inv] t oc r in \<open>auto simp: on_cpu_def unarmed_def unqueued_def\<close>)
  then show "tinv (set_td_state t TD_STATE_READY ?s) S T U q"
    by (rule move_state) (use t oc r in \<open>auto simp: on_cpu_def unarmed_def\<close>)
qed

lemma fire_wakeup:
  assumes inv: "tinv s S T U q" and t: "t \<in> T" "t \<notin> U" and z: "asleep s S q t" and up: "\<not> cfg_smp s" and crit: "in_critical s"
  shows "mdx_tsleep_cb t (fired (Stack_c t) h s) = Some (added t {} (fired (Stack_c t) h s))"
    and "tinv (added t {} (fired (Stack_c t) h s)) S T U (q(runq_of s t := q (runq_of s t) @ [t]))"
proof -
  let ?s = "fired (Stack_c t) h s"
  have c: "in_critical ?s" using crit by (simp add: in_critical_def)
  have p: "prio_ok ?s t" using tinvD(4) [OF inv t(1)] by (simp add: prio_ok_def)
  show "mdx_tsleep_cb t ?s = Some (added t {} ?s)"
    using c z add_up [OF p] up by (simp add: mdx_tsleep_cb_def asleep_def in_critical_bracketed [OF c])
  have "tinv ?s S T (insert t U) q"
  proof (rule tinv_move [OF inv t(1)])
    show "tqueues ?s S q" "sems_ok ?s S q" using tinvD(1,7) [OF inv] by (simp_all add: tqueues_def sems_ok_def)
    show "if t \<in> insert t U then on_cpu ?s S q t else parked ?s S q t"
      using z by (simp add: asleep_def on_cpu_def unarmed_def unqueued_def)
  qed (auto simp: same_thread_def)
  from move_add [OF this, of t] show "tinv (added t {} ?s) S T U (q(runq_of s t := q (runq_of s t) @ [t]))"
    using t z by (simp add: asleep_def)
qed

text \<open>A thread off the list of its semaphore.\<close>

definition unwaited :: "tid \<Rightarrow> td_state \<Rightarrow> (tid \<Rightarrow> token) \<Rightarrow> ('h, 'x) kstate_scheme \<Rightarrow> ('h, 'x) kstate_scheme" where
  "unwaited t st' tok s = set_td_state t st' (s\<lparr>tokens := tok, tq := list_remove (Td_node t) (tq s)\<rparr>)"

lemma unwaited_sel [simp]:
  "tq (unwaited t st' tok s) = list_remove (Td_node t) (tq s)" "sems (unwaited t st' tok s) = sems s"
  "tokens (unwaited t st' tok s) = tok" "cfg_nprio (unwaited t st' tok s) = cfg_nprio s" "cfg_smp (unwaited t st' tok s) = cfg_smp s"
  "armed (unwaited t st' tok s) = armed s" "st (unwaited t st' tok s) u = (if u = t then st' else st s u)"
  "idle (unwaited t st' tok s) u = idle s u" "td_prio (threads (unwaited t st' tok s) u) = td_prio (threads s u)"
  "td_quantum (threads (unwaited t st' tok s) u) = td_quantum (threads s u)"
  "td_critnest (threads (unwaited t st' tok s) u) = td_critnest (threads s u)"
  "pcpu_id (unwaited t st' tok s) = pcpu_id s" "pc_curthread (unwaited t st' tok s) = pc_curthread s"
  by (simp_all add: unwaited_def)

lemma sems_same: "sems s = a \<Longrightarrow> s\<lparr>sems := a\<rparr> = s"
  by auto

lemma sems_commute:
  "unwaited t st' tok (s\<lparr>sems := a\<rparr>) = (unwaited t st' tok s)\<lparr>sems := a\<rparr>"
  by (cases s) (simp add: unwaited_def upd_thread_def)

lemma fire_timeout:
  assumes inv: "tinv s S T U q" and i: "i \<in> S" and w: "waits_for s q t i"
    and tok: "t_td (tokens s t) = t" "t_sem (tokens s t) = i" and up: "\<not> cfg_smp s" and crit: "in_critical s"
  shows "\<exists>q'. mdx_sem_cb t (fired (Td_c t) h s) =
      Some (added t {} (unwaited t TD_STATE_WAKEUP ((tokens s)(t := (tokens s t)\<lparr>t_timeout := True\<rparr>)) (fired (Td_c t) h s))) \<and>
    tinv (added t {} (unwaited t TD_STATE_WAKEUP ((tokens s)(t := (tokens s t)\<lparr>t_timeout := True\<rparr>)) (fired (Td_c t) h s))) S T U q'"
proof -
  let ?f = "fired (Td_c t) h s" and ?tok = "(tokens s)(t := (tokens s t)\<lparr>t_timeout := True\<rparr>)"
  let ?u = "unwaited t TD_STATE_WAKEUP ?tok ?f"
  let ?L = "(sems s)(i := (sems s i)\<lparr>sem_l := 1\<rparr>)"
  from w obtain xs ys where q: "q (Sem_td_list i) = xs @ t # ys" by (auto simp: waits_for_def in_set_conv_decomp)
  have l: "sem_l (sems s i) = 0" using tinvD(7) [OF inv] i by (simp add: sems_ok_def)
  have p: "t \<in> T" "t \<notin> U" using queued_parked [OF inv, of "Sem_td_list i" t] i q by auto
  have pr: "prio_ok ((?u)\<lparr>sems := ?L\<rparr>) t" using tinvD(4) [OF inv p(1)] by (simp add: prio_ok_def)
  have c: "in_critical ((?u)\<lparr>sems := ?L\<rparr>)" using crit by (simp add: in_critical_def)
  have add: "mdx_sched_add t ((?u)\<lparr>sems := ?L\<rparr>) = Some ((added t {} ?u)\<lparr>sems := ?L\<rparr>)"
    using add_up [OF pr] up unfolding in_critical_bracketed [OF c] added_sems by simp
  have un: "sem_unlock i ((added t {} ?u)\<lparr>sems := ?L\<rparr>) = Some (added t {} ?u)"
    using sem_unlock_held [of "(added t {} ?u)\<lparr>sems := ?L\<rparr>" i "sems s i"] l by (simp add: sems_same)
  have "set_td_state t TD_STATE_WAKEUP (?f\<lparr>sems := ?L, tokens := ?tok, tq := list_remove (Td_node t) (tq s)\<rparr>) = (?u)\<lparr>sems := ?L\<rparr>"
    using sems_commute [of t TD_STATE_WAKEUP ?tok ?L ?f] by (simp add: unwaited_def)
  then have "mdx_sem_cb t ?f = Some (added t {} ?u)"
    using crit sem_lock_free [of ?f i] l tok w add un
    by (simp add: mdx_sem_cb_def in_critical_def waits_for_def)
  moreover have "tinv ?u S T (insert t U) (q(Sem_td_list i := xs @ ys))"
    by (rule move_unwait [OF inv i q])
      (simp_all add: unwaited_def thread_step_tokens thread_step_callout [OF fired_only])
  from move_add [OF this, of t] have "tinv (added t {} ?u) S T U
      ((q(Sem_td_list i := xs @ ys))(runq_of s t := q (runq_of s t) @ [t]))"
    using p(2) by simp
  ultimately show ?thesis by blast
qed

section \<open>The interrupt\<close>

lemma fire_step:
  assumes inv: "tinv s S T U q" and a: "armed s c \<noteq> None" and up: "\<not> cfg_smp s" and crit: "in_critical s"
  shows "\<exists>s' q'. run_callout (kernel_call user) c (fired c h s) = Some s' \<and> tinv s' S T U q' \<and> steady s s' \<and> mild U s s' \<and>
    (\<forall>d. armed s' d = (if d = c then None else armed s d))"
  using inv a
proof (cases rule: armed_cases)
  case (quantum t)
  then show ?thesis
    using fire_quantum [OF inv quantum(1) _ quantum(4) up crit, of h] run_armed [OF quantum(3), of "kernel_call user" h]
    by (intro exI [of _ "set_td_state t TD_STATE_READY (fired c h s)"] exI [of _ q]) (simp add: mild_def)
next
  case (timeout t i)
  let ?s' = "added t {} (unwaited t TD_STATE_WAKEUP
      ((tokens s)(t := (tokens s t)\<lparr>t_timeout := True\<rparr>)) (fired c h s))"
  from fire_timeout [OF inv timeout(5-8) up crit, of h] obtain q' where
    "mdx_sem_cb t (fired c h s) = Some ?s'" "tinv ?s' S T U q'" unfolding timeout(3) by blast
  moreover have "steady s ?s'" by (simp add: unwaited_def)
  ultimately show ?thesis using run_armed [OF timeout(4), of "kernel_call user" h]
    using timeout(2) by (intro exI [of _ ?s'] exI [of _ q']) (auto simp: mild_def)
next
  case (wakeup t)
  then show ?thesis
    using fire_wakeup [OF inv wakeup(1,2,5) up crit, of h] run_armed [OF wakeup(4), of "kernel_call user" h]
    by (intro exI [of _ "added t {} (fired c h s)"] exI [of _ "q(runq_of s t := q (runq_of s t) @ [t])"]) (simp add: mild_def)
qed

lemma fire_all_inv:
  assumes "tinv s S T U q" and "\<forall>c \<in> set ds. armed s c \<noteq> None" and "distinct ds" and "\<not> cfg_smp s" and "in_critical s"
  shows "\<exists>s' q'. fire_all (kernel_call user) ds s = Some s' \<and> tinv s' S T U q' \<and> steady s s' \<and> mild U s s' \<and>
    (\<forall>d. armed s' d = (if d \<in> set ds then None else armed s d))"
  using assms
proof (induction ds arbitrary: s q)
  case Nil
  then show ?case by auto
next
  case (Cons c ds)
  from fire_step [OF Cons.prems(1) _ Cons.prems(4,5), of c user "list_remove (C_node c) (cq s)"] Cons.prems(2)
  obtain s1 q1 where s1: "run_callout (kernel_call user) c (fired c (list_remove (C_node c) (cq s)) s) = Some s1"
    "tinv s1 S T U q1" "steady s s1" "\<forall>d. armed s1 d = (if d = c then None else armed s d)" "mild U s s1" by auto
  have "\<exists>s' q'. fire_all (kernel_call user) ds s1 = Some s' \<and> tinv s' S T U q' \<and> steady s1 s' \<and> mild U s1 s' \<and>
    (\<forall>d. armed s' d = (if d \<in> set ds then None else armed s1 d))"
    using Cons.prems(2-5) s1(3,4) steady_crit(1) [OF s1(3)]
    by (intro Cons.IH [OF s1(2)]) (auto simp: steady_def)
  then obtain s' q' where s': "fire_all (kernel_call user) ds s1 = Some s'" "tinv s' S T U q'" "steady s1 s'"
    "\<forall>d. armed s' d = (if d \<in> set ds then None else armed s1 d)" "mild U s1 s'" by blast
  show ?case using s1(1,4) s' steady_trans [OF s1(3) s'(3)] mild_trans [OF s1(5) s'(5)]
    by (intro exI [of _ s'] exI [of _ q']) auto
qed

lemma callout_frame_cfg: "callout_frame s s' \<Longrightarrow> cfg s' = cfg s"
  by (elim callout_frameE) simp

lemma callback_inv:
  assumes inv: "tinv s S T U q" and cs: "csound s" and up: "\<not> cfg_smp s" and crit: "in_critical s"
  shows "\<exists>s' q'. mdx_callout_callback (kernel_call user) s = Some (MDX_OK, s') \<and> tinv s' S T U q' \<and> csound s' \<and> steady s s' \<and> mild U s s'"
proof -
  from cs obtain Q where Q: "cstruct s Q" and tm: "timer_ok s" and k: "pcpu_id s < cfg_ncpu s" by (auto simp: csound_def)
  note q = cstruct_queue [OF Q k]
  show ?thesis
  proof (cases "Q (pcpu_id s) = []")
    case True
    then have "list_empty (Callouts_list (pcpu_id s)) (cq s)" using q by (simp add: cqueue_def list_empty_def)
    then have "mdx_callout_callback (kernel_call user) s = Some (MDX_OK, s)"
      using crit tm by (auto simp: mdx_callout_callback_def timer_ok_def)
    then show ?thesis using inv cs by auto
  next
    case False
    let ?s1 = "callback_entry s"
    obtain m where s1: "?s1 = s\<lparr>mi_tmr := m\<rparr>" using tm by (auto simp: callback_entry_def timer_ok_def)
    have st1: "steady s ?s1" unfolding s1 by (simp add: steady_def)
    have inv1: "tinv ?s1 S T U q" using tinv_cong [of s ?s1] inv unfolding s1 by (simp add: same_threads_def)
    have act: "armed s c \<noteq> None" if "c \<in> set (Q (pcpu_id s))" for c
      using cstruct_mem [OF Q k, of c] that by (simp add: armed_def)
    have sub: "set (due_now s Q) \<subseteq> set (Q (pcpu_id s))" using set_due(1) by (auto simp: due_now_def)
    have "distinct (due_now s Q @ not_due (unat (elapsed_now s)) (ticks_of s) (Q (pcpu_id s)))"
      using cqueue_distinct [OF q] by (simp only: due_now_def due_not_due)
    then have dist: "distinct (due_now s Q)" by simp
    have crit1: "in_critical ?s1" using steady_crit(1) [OF st1] crit by simp
    have "\<forall>c \<in> set (due_now s Q). armed ?s1 c \<noteq> None" using act sub unfolding s1 by auto
    from fire_all_inv [OF inv1 this dist _ crit1, of user] up st1 obtain s2 q2 where
      s2: "fire_all (kernel_call user) (due_now s Q) ?s1 = Some s2" "tinv s2 S T U q2" "steady ?s1 s2"
      "\<forall>d. armed s2 d = (if d \<in> set (due_now s Q) then None else armed ?s1 d)" "mild U ?s1 s2"
      unfolding steady_def by blast
    have "\<forall>c \<in> set (Q (pcpu_id s)). quiet_callout {Sched_cb, Sem_cb, Tsleep_cb} s c"
    proof
      fix c assume "c \<in> set (Q (pcpu_id s))"
      then have a: "armed s c \<noteq> None" by (rule act)
      then have "c_func (callouts s c) \<in> {Some Sched_cb, Some Sem_cb, Some Tsleep_cb}"
        by (rule armed_cases [OF inv]) (auto simp: armed_def split: if_splits)
      then show "quiet_callout {Sched_cb, Sem_cb, Tsleep_cb} s c" by (auto simp: quiet_callout_def)
    qed
    from kq.callback_struct [OF Q tm k crit up this False s2(1)] obtain s' where
      s': "mdx_callout_callback (kernel_call user) s = Some (MDX_OK, s')" "csound s'" "callout_frame s2 s'"
      "\<forall>c. armed s' c = (if c \<in> set (due_now s Q) then None else armed s c)" by blast
    have "same_threads s2 s'"
      using callout_frame_sel [OF s'(3)] s'(4) s2(4) unfolding same_threads_def s1 by simp
    then have "tinv s' S T U q2" using tinv_cong s2(2) by blast
    moreover have "steady s s'"
      using steady_trans [OF st1 s2(3)] steady_callout [OF s'(3) callout_frame_cfg [OF s'(3)]] steady_trans by blast
    moreover have "mild U s s'" using s2(5) callout_frame_sel(4) [OF s'(3)] unfolding s1 by (simp add: mild_def)
    ultimately show ?thesis using s'(1,2) by blast
  qed
qed

end
