(* ===== verification/Kernel_Sem.thy ===== *)
theory Kernel_Sem
  imports Kernel_Intr
begin

text \<open>
  Semaphores, sleeping and yielding on the threads of one CPU: each operation returns, does
  what its name says to the queues and keeps the invariant.
\<close>

section \<open>Posting\<close>

definition posted :: "('h, 'x) kstate_scheme \<Rightarrow> semid \<Rightarrow> (tnode \<Rightarrow> tid list) \<Rightarrow> ('h, 'x) kstate_scheme \<Rightarrow>
    (tnode \<Rightarrow> tid list) \<Rightarrow> bool" where
  "posted s i q s' q' \<longleftrightarrow>
     (case q (Sem_td_list i) of
        [] \<Rightarrow> q' = q \<and> sems s' = (sems s)(i := (sems s i)\<lparr>sem_count := int_wrap (sem_count (sems s i) + 1)\<rparr>)
      | t # ts \<Rightarrow> q' = (q(Sem_td_list i := ts))(runq_of s t := q (runq_of s t) @ [t]) \<and> sems s' = sems s \<and>
          st s' t = TD_STATE_WAKEUP)"

lemma post_empty:
  assumes inv: "tinv s S T U q" and i: "i \<in> S" and e: "q (Sem_td_list i) = []"
  shows "mdx_sem_post i s = Some (1, (bracketed s)\<lparr>sems := (sems s)(i := (sems s i)\<lparr>sem_count := int_wrap (sem_count (sems s i) + 1)\<rparr>)\<rparr>)"
proof -
  have l: "sem_l (sems s i) = 0" using tinvD(7) [OF inv] i by (simp add: sems_ok_def)
  have em: "list_empty (Sem_td_list i) (tq s)" using tqueues_empty [OF tinvD(1) [OF inv], of "Sem_td_list i"] i e by simp
  let ?s2 = "(critical_enter s)\<lparr>sems := (sems s)(i := (sems s i)\<lparr>sem_l := 1\<rparr>)\<rparr>"
  let ?s3 = "upd_sem i (\<lambda>r. r\<lparr>sem_count := int_wrap (sem_count r + 1)\<rparr>) ?s2"
  have un: "sem_unlock i ?s3 = Some ((critical_enter s)\<lparr>sems := (sems s)(i := (sems s i)\<lparr>sem_count := int_wrap (sem_count (sems s i) + 1)\<rparr>)\<rparr>)"
    using l by (cases "sems s i") (simp add: sem_unlock_def sl_unlock_def upd_sem_def)
  show ?thesis
    using sem_lock_free [of "critical_enter s" i] l em un
    by (simp add: mdx_sem_post_def mdx_sem_post_take_def crit_simps)
qed

lemma post_take_waiting:
  assumes inv: "tinv s S T U q" and i: "i \<in> S" and ne: "q (Sem_td_list i) = t # ts"
  shows "mdx_sem_post_take i s =
    Some (Some t, set_td_state t TD_STATE_SEM_UNLOCK ((critical_enter s)\<lparr>tq := list_remove (Td_node t) (tq s)\<rparr>))"
proof -
  have l: "sem_l (sems s i) = 0" using tinvD(7) [OF inv] i by (simp add: sems_ok_def)
  have h: "Sem_td_list i \<in> heads (cfg_nprio s) S" using i by simp
  note tqs = tinvD(1) [OF inv]
  have em: "\<not> list_empty (Sem_td_list i) (tq s)" using tqueues_empty [OF tqs h] ne by simp
  have hd: "nextp (tq s) (Sem_td_list i) = Td_node t" by (rule tqueues_head [OF tqs h ne])
  have ack: "st s t = TD_STATE_ACK" using queued_waits [OF inv i, of t] ne by (simp add: waits_for_def)
  define L where "L = (sems s)(i := (sems s i)\<lparr>sem_l := 1\<rparr>)"
  have lk: "sem_lock i (critical_enter s) = Some ((critical_enter s)\<lparr>sems := L\<rparr>)"
    using sem_lock_free [of "critical_enter s" i] l by (simp add: L_def)
  let ?s4 = "set_td_state t TD_STATE_SEM_UNLOCK ((critical_enter s)\<lparr>sems := L, tq := list_remove (Td_node t) (tq s)\<rparr>)"
  have "sem_unlock i ?s4 = Some (?s4\<lparr>sems := sems s\<rparr>)"
    using sem_unlock_held [of ?s4 i "sems s i"] l by (simp add: L_def)
  also have "?s4\<lparr>sems := sems s\<rparr> = set_td_state t TD_STATE_SEM_UNLOCK ((critical_enter s)\<lparr>tq := list_remove (Td_node t) (tq s)\<rparr>)"
    by (simp add: upd_thread_def)
  finally show ?thesis
    using lk em hd ack by (simp add: mdx_sem_post_take_def)
qed

lemma post_inv:
  assumes inv: "tinv s S T U q" and cs: "csound s" and up: "\<not> cfg_smp s" and i: "i \<in> S" and room: "crit_room s"
  shows "\<exists>s' q'. mdx_sem_post i s = Some (1, s') \<and> tinv s' S T U q' \<and> csound s' \<and> steady s s' \<and> posted s i q s' q' \<and>
    (\<forall>u. u \<in> U \<longrightarrow> st s' u = st s u)"
proof (cases "q (Sem_td_list i)")
  case Nil
  let ?s' = "(bracketed s)\<lparr>sems := (sems s)(i := (sems s i)\<lparr>sem_count := int_wrap (sem_count (sems s i) + 1)\<rparr>)\<rparr>"
  have "tinv (bracketed s) S T U q" using tinv_cong [of s "bracketed s"] inv by simp
  then have "tinv ?s' S T U q" using Nil i
    unfolding tinv_def by (auto simp: sems_ok_def tqueues_def prio_ok_def parked_def ready_in_def waits_for_def asleep_def
        on_cpu_def unarmed_def unqueued_def)
  moreover have "csound ?s'" using cs csound_cong [of ?s' s] by simp
  ultimately show ?thesis using post_empty [OF inv i Nil] Nil
    by (intro exI [of _ ?s'] exI [of _ q]) (simp add: posted_def)
next
  case (Cons t ts)
  let ?s5 = "set_td_state t TD_STATE_SEM_UNLOCK ((critical_enter s)\<lparr>tq := list_remove (Td_node t) (tq s)\<rparr>)"
  have w: "waits_for s q t i" using queued_waits [OF inv i, of t] Cons by simp
  have T: "t \<in> T" "t \<notin> U" using queued_parked [OF inv, of "Sem_td_list i" t] i Cons by auto
  have cs5: "csound ?s5" using cs csound_cong [of ?s5 s] by simp
  have crit5: "in_critical ?s5" using critical_enter_in [OF room] by (auto simp: in_critical_def)
  have "\<forall>k. callout_free ?s5 k" using up by (simp add: callout_free_def)
  from cancel_struct [OF cs5 crit5 this, of "Td_c t"] obtain e s6 where
    s6: "mdx_callout_cancel (Td_c t) ?s5 = Some (e, s6)" "csound s6" "armed s6 (Td_c t) = None" by blast
  have only: "callout_only {Td_c t} ?s5 s6" by (rule cancel_only [OF s6(1)])
  note fr = callout_frame_sel [OF callout_only_frame [OF only]]
  let ?s7 = "set_td_state t TD_STATE_WAKEUP s6"
  have step: "thread_step t s ?s7"
    using thread_step_trans [OF _ thread_step_callout [OF only, of t], of s] by simp
  have "tinv ?s7 S T (insert t U) (q(Sem_td_list i := [] @ ts))"
    by (rule move_unwait [OF inv i _ step]) (use Cons fr s6(3) armed_only [OF only, of "Stack_c t"] in simp_all)
  then have inv7: "tinv ?s7 S T (insert t U) (q(Sem_td_list i := ts))" by simp
  have prio: "prio_ok ?s7 t" by (rule tinvD(4) [OF inv7 T(1)])
  have crit7: "in_critical ?s7" using crit5 fr by (auto simp: in_critical_def)
  have rq: "runq_of ?s7 t = runq_of s t" using fr by simp
  have add: "mdx_sched_add t ?s7 = Some (added t {} ?s7)"
    using add_up [OF prio] up fr in_critical_bracketed [OF crit7] by simp
  define s' where "s' = critical_exit (added t {} ?s7)"
  have ret: "mdx_sem_post i s = Some (1, s')"
    using post_take_waiting [OF inv i Cons] s6(1) fr add
    by (simp add: mdx_sem_post_def mdx_sem_post_wake_def s'_def)
  have inv': "tinv s' S T U ((q(Sem_td_list i := ts))(runq_of s t := q (runq_of s t) @ [t]))"
    using move_add [OF inv7, of t] T(2) rq tinv_cong [of "added t {} ?s7" s'] by (simp add: s'_def)
  obtain co h m w' where s6': "s6 = ?s5\<lparr>callouts := co, cq := h, mi_tmr := m, hw := w'\<rparr>"
    by (rule callout_frameE [OF callout_only_frame [OF only]])
  have "steady s s'" unfolding s'_def crit_simps s6' by simp
  moreover have "csound s'" using s6(2) csound_cong [of s' s6] by (simp add: s'_def added_def notified_def)
  moreover have "posted s i q s' ((q(Sem_td_list i := ts))(runq_of s t := q (runq_of s t) @ [t]))"
    unfolding posted_def s'_def crit_simps s6' using Cons by simp
  moreover have "\<forall>u. u \<in> U \<longrightarrow> st s' u = st s u" unfolding s'_def crit_simps s6' using T(2) by auto
  ultimately show ?thesis using ret inv' by blast
qed

section \<open>Waiting\<close>

text \<open>What an operation inside a critical section leaves alone, the saved interrupt enable
  included.\<close>

definition inside :: "('h, 'x) kstate_scheme \<Rightarrow> ('h, 'x) kstate_scheme \<Rightarrow> bool" where
  "inside s s' \<longleftrightarrow> steady s s' \<and> (\<forall>t. td_saved_ie (threads s' t) = td_saved_ie (threads s t))"

lemma inside_refl [simp]: "inside s s"
  by (simp add: inside_def)

lemma inside_trans [trans]: "inside s t \<Longrightarrow> inside t u \<Longrightarrow> inside s u"
  by (auto simp: inside_def intro: steady_trans)

lemma inside_upd [simp]:
  "inside s (t\<lparr>tq := a\<rparr>) = inside s t" "inside s (t\<lparr>tokens := b\<rparr>) = inside s t" "inside s (t\<lparr>sems := c\<rparr>) = inside s t"
  "inside s (set_td_state u st' t) = inside s t" "inside s (upd_callout e f t) = inside s t" "inside s (upd_sem i g t) = inside s t"
  by (auto simp: inside_def upd_callout_def upd_sem_def)

lemma inside_callout: "callout_frame s s' \<Longrightarrow> inside s s'"
  using steady_callout callout_frame_cfg callout_frame_sel(4) by (fastforce simp: inside_def)

lemma inside_exit: "inside (critical_enter s) u \<Longrightarrow> steady s (critical_exit u)"
  by (intro steady_exit) (auto simp: inside_def steady_def)

lemma inside_crit: "inside s s' \<Longrightarrow> in_critical s' = in_critical s" "inside s s' \<Longrightarrow> crit_room s' = crit_room s"
  using steady_crit by (auto simp: inside_def)

lemma wait_acquire:
  assumes l: "sem_l (sems s i) = 0" and c: "sem_count (sems s i) > 0"
    and cur: "\<not> idle s (curthread s)" "td_critnest (curtd s) = 0"
  shows "mdx_sem_timedwait_enter i usec s =
    Some (Acquired, (bracketed s)\<lparr>sems := (sems s)(i := (sems s i)\<lparr>sem_count := sem_count (sems s i) - 1\<rparr>)\<rparr>)"
proof -
  define L where "L = (sems s)(i := (sems s i)\<lparr>sem_l := 1\<rparr>)"
  have lk: "sem_lock i (critical_enter s) = Some ((critical_enter s)\<lparr>sems := L\<rparr>)"
    using sem_lock_free [of "critical_enter s" i] l by (simp add: L_def)
  have "sem_unlock i (upd_sem i (\<lambda>r. r\<lparr>sem_count := sem_count r - 1\<rparr>) ((critical_enter s)\<lparr>sems := L\<rparr>)) =
      Some ((critical_enter s)\<lparr>sems := (sems s)(i := (sems s i)\<lparr>sem_count := sem_count (sems s i) - 1\<rparr>)\<rparr>)"
    using l by (cases "sems s i") (simp add: sem_unlock_def sl_unlock_def upd_sem_def L_def)
  moreover have "sem_count (L i) > 0" using c by (simp add: L_def)
  ultimately show ?thesis
    using lk cur by (simp add: mdx_sem_timedwait_enter_def crit_simps)
qed

text \<open>Setting the timeout of the current thread.\<close>

lemma arm_timeout:
  assumes cs: "csound s" and crit: "in_critical s" "crit_room s" and up: "\<not> cfg_smp s" and off: "armed s (Td_c t) = None"
    and conv: "usec \<noteq> 0 \<Longrightarrow> mdx_callout_usec_to_ticks usec s \<noteq> None"
  shows "\<exists>s'. sem_set_timeout t i usec s = Some s' \<and> csound s' \<and> thread_step t s s' \<and> inside s s' \<and> tq s' = tq s \<and> sems s' = sems s \<and>
    armed s' (Stack_c t) = armed s (Stack_c t) \<and>
    armed s' (Td_c t) = (if usec = 0 \<or> mdx_callout_usec_to_ticks usec s = Some 0 then None else Some (Some Sem_cb, Arg_token t)) \<and>
    (usec \<noteq> 0 \<longrightarrow> t_td (tokens s' t) = t \<and> t_sem (tokens s' t) = i)"
proof (cases "usec = 0")
  case True
  then show ?thesis using cs off by (simp add: sem_set_timeout_def)
next
  case False
  let ?s1 = "s\<lparr>tokens := (tokens s)(t := \<lparr>t_td = t, t_sem = i, t_timeout = False\<rparr>)\<rparr>"
  let ?s2 = "mdx_callout_init (Td_c t) ?s1"
  have na: "\<not> active s (Td_c t)" using off by (simp add: armed_def split: if_splits)
  have i2: "inside s ?s2" by (simp add: mdx_callout_init_def)
  have c2: "callouts ?s2 = (callouts s)(Td_c t := (callouts s (Td_c t))\<lparr>c_state := CALLOUT_STATE_READY, c_flags := 0\<rparr>)"
    by (simp add: mdx_callout_init_def)
  have "csound ?s2 = csound s"
    using na by (intro csound_flags) (simp_all add: mdx_callout_init_def upd_callout_def)
  then have cs2: "csound ?s2" using cs by simp
  have na2: "\<not> active ?s2 (Td_c t)" by (simp add: c2)
  obtain n where n: "mdx_callout_usec_to_ticks usec ?s2 = Some n"
    using conv False by (auto simp: mdx_callout_usec_to_ticks_def mdx_callout_init_def upd_callout_def)
  have n0: "mdx_callout_usec_to_ticks usec s = Some n"
    using n by (simp add: mdx_callout_usec_to_ticks_def mdx_callout_init_def upd_callout_def)
  have "callout_free ?s2 (pcpu_id ?s2)" using up i2 by (simp add: callout_free_def inside_def steady_def)
  from set_ticks_struct [OF cs2 _ this na2, of n "Some Sem_cb" "Arg_token t"] inside_crit(2) [OF i2] crit(2)
  obtain s3 where s3: "mdx_callout_set_ticks (Td_c t) n (Some Sem_cb) (Arg_token t) ?s2 = Some (MDX_OK, s3)"
    "csound s3" "armed s3 (Td_c t) = (if n = 0 then None else Some (Some Sem_cb, Arg_token t))" by auto
  have "in_critical ?s2" using inside_crit(1) [OF i2] crit(1) by simp
  then have only: "callout_only {Td_c t} ?s2 s3" using set_ticks_only [OF s3(1)] by (simp add: in_critical_bracketed)
  note fr = callout_frame_sel [OF callout_only_frame [OF only]]
  have only2: "callout_only {Td_c t} ?s1 s3" using only by (simp add: mdx_callout_init_def)
  have "thread_step t s ?s1" by (simp add: thread_step_tokens)
  then have "thread_step t s s3" using thread_step_trans thread_step_callout [OF only2] by blast
  moreover have "inside s s3" using inside_trans [OF i2 inside_callout [OF callout_only_frame [OF only]]] .
  moreover have "armed s3 (Stack_c t) = armed s (Stack_c t)" using armed_only [OF only2, of "Stack_c t"] by simp
  ultimately show ?thesis
    using False n n0 s3 fr by (intro exI [of _ s3]) (simp add: sem_set_timeout_def mdx_callout_set_def mdx_callout_init_def upd_callout_def)
qed

text \<open>Cancelling whatever callout the current thread has.\<close>

lemma cancel_inside:
  assumes cs: "csound s" and crit: "in_critical s" and up: "\<not> cfg_smp s"
  shows "\<exists>e s'. mdx_callout_cancel (Td_c t) s = Some (e, s') \<and> csound s' \<and> thread_step t s s' \<and> inside s s' \<and> tq s' = tq s \<and>
    sems s' = sems s \<and> tokens s' = tokens s \<and> mi_tmr s' = mi_tmr s \<and> armed s' (Td_c t) = None \<and>
    armed s' (Stack_c t) = armed s (Stack_c t) \<and> threads s' = threads s"
proof -
  have "\<forall>k. callout_free s k" using up by (simp add: callout_free_def)
  from cancel_struct [OF cs crit this, of "Td_c t"] obtain e s' where
    s': "mdx_callout_cancel (Td_c t) s = Some (e, s')" "csound s'" "armed s' (Td_c t) = None" "mi_tmr s' = mi_tmr s" by blast
  note only = cancel_only [OF s'(1)]
  note fr = callout_frame_sel [OF callout_only_frame [OF only]]
  show ?thesis
    using s' fr inside_callout [OF callout_only_frame [OF only]] thread_step_callout [OF only, of t]
      armed_only [OF only, of "Stack_c t"] by auto
qed

lemma wait_block:
  assumes inv: "tinv s S T U q" and cs: "csound s" and up: "\<not> cfg_smp s" and i: "i \<in> S" and t: "t = curthread s" "t \<in> U"
    and c: "sem_count (sems s i) \<le> 0" and cur: "\<not> idle s t" "td_critnest (threads s t) = 0"
    and r: "st s t = TD_STATE_RUNNING" and conv: "usec \<noteq> 0 \<Longrightarrow> mdx_callout_usec_to_ticks usec s \<noteq> None"
  shows "\<exists>s'. mdx_sem_timedwait_enter i usec s = Some (Blocked, s') \<and> csound s' \<and> steady s s' \<and> st s' t = TD_STATE_SEM_WAIT \<and>
    tinv (set_td_state t TD_STATE_ACK s') S T (U - {t}) (q(Sem_td_list i := q (Sem_td_list i) @ [t]))"
proof -
  have l: "sem_l (sems s i) = 0" using tinvD(7) [OF inv] i by (simp add: sems_ok_def)
  define L where "L = (sems s)(i := (sems s i)\<lparr>sem_l := 1\<rparr>)"
  let ?s2 = "(critical_enter s)\<lparr>sems := L\<rparr>"
  have lk: "sem_lock i (critical_enter s) = Some ?s2"
    using sem_lock_free [of "critical_enter s" i] l by (simp add: L_def)
  have nc: "\<not> sem_count (L i) > 0" using c by (simp add: L_def)
  have room: "crit_room s" using cur(2) t(1) by (simp add: crit_room_def)
  have in2: "inside (critical_enter s) ?s2" by simp
  have crit2: "in_critical ?s2" using inside_crit(1) [OF in2] critical_enter_in [OF room] by simp
  have cs2: "csound ?s2" using cs csound_cong [of ?s2 s] by simp
  from cancel_inside [OF cs2 crit2, of t] up obtain e s3 where s3: "mdx_callout_cancel (Td_c t) ?s2 = Some (e, s3)" "csound s3"
    "thread_step t ?s2 s3" "inside ?s2 s3" "tq s3 = tq s" "sems s3 = L" "mi_tmr s3 = mi_tmr s" "armed s3 (Td_c t) = None"
    "armed s3 (Stack_c t) = armed s (Stack_c t)" by auto
  have in3: "inside (critical_enter s) s3" using inside_trans [OF in2 s3(4)] .
  have crit3: "in_critical s3" "crit_room s3"
    using inside_crit [OF s3(4)] crit2 cur(2) t(1) by (auto simp: crit_room_def critical_enter_def Let_def)
  have up3: "\<not> cfg_smp s3" using s3(4) up by (simp add: inside_def steady_def)
  have "usec \<noteq> 0 \<Longrightarrow> mdx_callout_usec_to_ticks usec s3 \<noteq> None"
    using conv s3(7) by (simp add: mdx_callout_usec_to_ticks_def)
  from arm_timeout [OF s3(2) crit3 up3 s3(8) this, of i] obtain s4 where s4:
    "sem_set_timeout t i usec s3 = Some s4" "csound s4" "thread_step t s3 s4" "inside s3 s4" "tq s4 = tq s" "sems s4 = L"
    "armed s4 (Stack_c t) = armed s (Stack_c t)"
    "armed s4 (Td_c t) = None \<or> armed s4 (Td_c t) = Some (Some Sem_cb, Arg_token t) \<and>
       t_td (tokens s4 t) = t \<and> t_sem (tokens s4 t) = i"
    unfolding s3(5,6,9) by (metis (full_types))
  let ?s5 = "(set_td_state t TD_STATE_SEM_WAIT s4)\<lparr>tq := list_append (Sem_td_list i) (Td_node t) (tq s)\<rparr>"
  let ?s6 = "?s5\<lparr>sems := sems s\<rparr>"
  have unl: "sem_unlock i ?s5 = Some ?s6" using sem_unlock_held [of ?s5 i "sems s i"] l s4(6) by (simp add: L_def)
  define s' where "s' = critical_exit ?s6"
  have curs: "curthread (critical_enter s) = t" using t by simp
  have ret: "mdx_sem_timedwait_enter i usec s = Some (Blocked, s')"
    using lk nc s3(1) s4(1,5) unl cur t by (simp add: mdx_sem_timedwait_enter_def s'_def Let_def)
  have in6: "inside (critical_enter s) ?s6" using inside_trans [OF in3 s4(4)] by simp
  have "thread_step t s ?s2" by simp
  then have ts: "thread_step t s (set_td_state t TD_STATE_ACK s')"
    using thread_step_trans [OF thread_step_trans [OF _ s3(3)] s4(3)] by (simp add: s'_def)
  have arm: "armed s (Stack_c t) = None" using tinvD(9) [OF inv t(2)] by (auto simp: on_cpu_def unarmed_def)
  have "tinv (set_td_state t TD_STATE_ACK s') S T (U - {t}) (q(Sem_td_list i := q (Sem_td_list i) @ [t]))"
    by (rule move_wait [OF inv t(2) i cur(1) ts]) (use c s4(7,8) arm in \<open>simp_all add: s'_def\<close>)
  moreover have "csound s'" using s4(2) csound_cong [of s' s4] by (simp add: s'_def)
  moreover have "st s' t = TD_STATE_SEM_WAIT" by (auto simp: s'_def critical_exit_def Let_def)
  ultimately show ?thesis using ret inside_exit [OF in6] by (auto simp: s'_def)
qed

section \<open>Sleeping and yielding\<close>

lemma sleep_inv:
  assumes inv: "tinv s S T U q" and cs: "csound s" and up: "\<not> cfg_smp s" and t: "t = curthread s" "t \<in> U"
    and cur: "\<not> idle s t" "td_critnest (threads s t) = 0" and n: "n \<noteq> 0"
  shows "\<exists>s'. mdx_tsleep_enter n s = Some s' \<and> csound s' \<and> steady s s' \<and> st s' t = TD_STATE_SLEEPING \<and>
    tinv (set_td_state t TD_STATE_ACK s') S T (U - {t}) q"
proof -
  have arm: "armed s (Stack_c t) = None" using tinvD(9) [OF inv t(2)] by (auto simp: on_cpu_def unarmed_def)
  let ?s1 = "mdx_callout_init (Stack_c t) s"
  have na: "\<not> active s (Stack_c t)" using arm by (simp add: armed_def split: if_splits)
  have cs1: "csound ?s1"
    using cs csound_flags [of ?s1 s] na by (simp add: mdx_callout_init_def upd_callout_def)
  have only1: "callout_only {Stack_c t} s ?s1" by (simp add: mdx_callout_init_def)
  note fr1 = callout_frame_sel [OF callout_only_frame [OF only1]]
  let ?s2 = "set_td_state t TD_STATE_SLEEPING (critical_enter ?s1)"
  have room: "crit_room ?s1" using cur(2) t(1) fr1 by (simp add: crit_room_def)
  have in2: "inside (critical_enter ?s1) ?s2" by simp
  have crit2: "in_critical ?s2" using inside_crit(1) [OF in2] critical_enter_in [OF room] by simp
  have up2: "\<not> cfg_smp ?s2" using up fr1 by simp
  have cs2: "csound ?s2" using cs1 csound_cong [of ?s2 ?s1] by simp
  from cancel_inside [OF cs2 crit2 up2, of t] obtain e s3 where s3: "mdx_callout_cancel (Td_c t) ?s2 = Some (e, s3)" "csound s3"
    "thread_step t ?s2 s3" "inside ?s2 s3" "tq s3 = tq s" "sems s3 = sems s" "armed s3 (Td_c t) = None"
    "armed s3 (Stack_c t) = armed ?s1 (Stack_c t)" "threads s3 = threads ?s2" using fr1 by auto
  have crit3: "in_critical s3" "crit_room s3"
    using inside_crit [OF s3(4)] crit2 cur(2) t(1) fr1 by (auto simp: crit_room_def critical_enter_def Let_def)
  have na3: "\<not> active s3 (Stack_c t)"
    using s3(8) by (auto simp: armed_def mdx_callout_init_def split: if_splits)
  have "callout_free s3 (pcpu_id s3)" using s3(4) up2 by (simp add: callout_free_def inside_def steady_def)
  from set_ticks_struct [OF s3(2) crit3(2) this na3, of n "Some Tsleep_cb" "Arg_thread t"] n obtain s4 where
    s4: "mdx_callout_set_ticks (Stack_c t) n (Some Tsleep_cb) (Arg_thread t) s3 = Some (MDX_OK, s4)" "csound s4"
    "armed s4 (Stack_c t) = Some (Some Tsleep_cb, Arg_thread t)" by auto
  have only4: "callout_only {Stack_c t} s3 s4" using set_ticks_only [OF s4(1)] crit3(1) by (simp add: in_critical_bracketed)
  note fr4 = callout_frame_sel [OF callout_only_frame [OF only4]]
  define s' where "s' = critical_exit s4"
  have ret: "mdx_tsleep_enter n s = Some s'"
    using n cur t s3(1) s4(1) by (simp add: mdx_tsleep_enter_def s'_def Let_def word_neq_0_conv)
  have "inside (critical_enter ?s1) s4"
    using inside_trans [OF inside_trans [OF in2 s3(4)] inside_callout [OF callout_only_frame [OF only4]]] .
  then have stdy: "steady s s'"
    using inside_exit steady_trans steady_callout [OF callout_only_frame [OF only1] callout_frame_cfg [OF callout_only_frame [OF only1]]]
    unfolding s'_def by blast
  have "thread_step t s ?s2" using thread_step_callout [OF only1, of t] by simp
  then have ts: "thread_step t s (set_td_state t TD_STATE_ACK s')"
    using thread_step_trans [OF thread_step_trans [OF _ s3(3)] thread_step_callout [OF only4, of t]] by (simp add: s'_def)
  have "tinv (set_td_state t TD_STATE_ACK s') S T (U - {t}) q"
    by (rule move_sleep [OF inv t(2) cur(1) ts])
      (use s3 s4 fr4 armed_only [OF only4, of "Td_c t"] in \<open>simp_all add: s'_def\<close>)
  moreover have "csound s'" using s4(2) csound_cong [of s' s4] by (simp add: s'_def)
  moreover have "st s' t = TD_STATE_SLEEPING" using fr4 s3(9) by (auto simp: s'_def critical_exit_def Let_def)
  ultimately show ?thesis using ret stdy by blast
qed

text \<open>Yielding keeps the invariant only for a thread whose quantum is not running: the callout
  of the quantum is not cancelled.\<close>

lemma yield_inv:
  assumes inv: "tinv s S T U q" and t: "t = curthread s" "t \<in> U" and cur: "\<not> idle s t" and off: "unarmed s t"
  shows "tinv (mdx_thread_yield_enter s) S T U q" and "st (mdx_thread_yield_enter s) t = TD_STATE_YIELDING"
    and "steady s (mdx_thread_yield_enter s)"
proof -
  have y: "mdx_thread_yield_enter s = set_td_state t TD_STATE_YIELDING (bracketed s)"
    using t by (simp add: mdx_thread_yield_enter_def crit_simps)
  have "tinv (bracketed s) S T U q" using tinv_cong [of s "bracketed s"] inv by simp
  then show "tinv (mdx_thread_yield_enter s) S T U q"
    unfolding y by (rule move_state) (use t cur off in \<open>simp_all add: unarmed_def\<close>)
  show "st (mdx_thread_yield_enter s) t = TD_STATE_YIELDING" "steady s (mdx_thread_yield_enter s)" by (simp_all add: y)
qed

end
