(* ===== verification/Kernel_Trap.thy ===== *)
theory Kernel_Trap
  imports Kernel_Sem
begin

text \<open>
  The exception handler of one CPU. Whatever the interrupted thread was doing, the handler
  returns to a thread that may run, and no thread is lost or in two places.
\<close>

section \<open>The next thread\<close>

lemma callout_init_threads [simp]: "threads (mdx_callout_init c s) = threads s"
  by (simp add: mdx_callout_init_def upd_callout_def)

text \<open>Starting the quantum of the thread that was picked.\<close>

lemma start_quantum:
  assumes inv: "tinv s S T U q" and t: "t \<in> U" and off: "unarmed s t" and ni: "\<not> idle s t" and r: "st s t = TD_STATE_RUNNING"
    and cs: "csound s" and up: "\<not> cfg_smp s" and crit: "in_critical s" "crit_room s" and n: "n \<noteq> 0"
  shows "\<exists>s'. mdx_callout_set_ticks (Td_c t) n (Some Sched_cb) (Arg_thread t) (mdx_callout_init (Td_c t) s) = Some (MDX_OK, s') \<and>
    tinv s' S T U q \<and> csound s' \<and> steady s s' \<and> st s' t = TD_STATE_RUNNING \<and>
    armed s' (Td_c t) = Some (Some Sched_cb, Arg_thread t)"
proof -
  let ?s1 = "mdx_callout_init (Td_c t) s"
  have na: "\<not> active s (Td_c t)" using off by (auto simp: unarmed_def armed_def split: if_splits)
  have cs1: "csound ?s1" using cs csound_flags [of ?s1 s] na by (simp add: mdx_callout_init_def upd_callout_def)
  have only1: "callout_only {Td_c t} s ?s1" by (simp add: mdx_callout_init_def)
  note in1 = inside_callout [OF callout_only_frame [OF only1]]
  have na1: "\<not> active ?s1 (Td_c t)" by (simp add: mdx_callout_init_def)
  have free1: "callout_free ?s1 (pcpu_id ?s1)" using up in1 by (simp add: callout_free_def inside_def steady_def)
  from set_ticks_struct [OF cs1 _ free1 na1, of n "Some Sched_cb" "Arg_thread t"] inside_crit(2) [OF in1] crit(2) n
  obtain s' where s': "mdx_callout_set_ticks (Td_c t) n (Some Sched_cb) (Arg_thread t) ?s1 = Some (MDX_OK, s')"
    "csound s'" "armed s' (Td_c t) = Some (Some Sched_cb, Arg_thread t)" by auto
  have "callout_only {Td_c t} ?s1 s'" using set_ticks_only [OF s'(1)] inside_crit(1) [OF in1] crit(1) by (simp add: in_critical_bracketed)
  then have only: "callout_only {Td_c t} s s'" using callout_only_trans [OF only1] by blast
  note fr = callout_frame_sel [OF callout_only_frame [OF only]]
  have oc: "on_cpu s S q t" by (rule tinvD(9) [OF inv t])
  have "tinv s' S T U q"
    by (rule tinv_callout [OF inv _ only])
      (use t tinvD(3) [OF inv] oc r ni s'(3) fr off armed_only [OF only, of "Stack_c t"] in \<open>auto simp: on_cpu_def unarmed_def unqueued_def\<close>)
  moreover have "steady s s'"
    by (rule steady_callout [OF callout_only_frame [OF only] callout_frame_cfg [OF callout_only_frame [OF only]]])
  ultimately show ?thesis using s' r fr by auto
qed

definition picked :: "('h, 'x) kstate_scheme \<Rightarrow> (tnode \<Rightarrow> tid list) \<Rightarrow> tid \<Rightarrow> (tnode \<Rightarrow> tid list) \<Rightarrow> bool" where
  "picked s q t q' \<longleftrightarrow> (\<exists>i ts. i < cfg_nprio s \<and> q (Runq i) = t # ts \<and> q' = q(Runq i := ts) \<and>
     (\<forall>j. i < j \<and> j < cfg_nprio s \<longrightarrow> q (Runq j) = []))"

text \<open>A thread that may run: the idle thread is ready, any other one is running.\<close>

definition runs :: "('h, 'x) kstate_scheme \<Rightarrow> tid \<Rightarrow> bool" where
  "runs s t \<longleftrightarrow> st s t = (if idle s t then TD_STATE_READY else TD_STATE_RUNNING)"

lemma some_ready:
  assumes inv: "tinv s S T {} q"
  shows "\<not> (\<forall>i < cfg_nprio s. q (Runq i) = [])"
proof -
  from tinvD(6) [OF inv] obtain t where t: "t \<in> T" "idle s t" by blast
  then have "ready_in s q t" using tinvD(8) [OF inv t(1)] by (auto simp: parked_def waits_for_def asleep_def)
  moreover have "nat (td_prio (threads s t)) < cfg_nprio s" using tinvD(4) [OF inv t(1)] by (auto simp: prio_ok_def)
  ultimately show ?thesis by (fastforce simp: ready_in_def)
qed

lemma next_inv:
  assumes inv: "tinv s S T {} q" and cs: "csound s" and up: "\<not> cfg_smp s" and crit: "in_critical s" "crit_room s"
  shows "\<exists>t s' q'. mdx_sched_next s = Some (t, s') \<and> t \<in> T \<and> tinv s' S T {t} q' \<and> csound s' \<and> steady s s' \<and> runs s' t \<and>
    picked s q t q'"
proof -
  have "\<exists>i t ts. i < cfg_nprio s \<and> q (Runq i) = t # ts \<and> (\<forall>j. i < j \<and> j < cfg_nprio s \<longrightarrow> q (Runq j) = []) \<and>
      pick_loop (cfg_nprio s) s = Some (t, s\<lparr>tq := list_remove (Td_node t) (tq s)\<rparr>)"
    using pick_loop_spec [OF tinvD(1) [OF inv] order_refl] some_ready [OF inv] by (simp only: if_False)
  then obtain i t ts where p: "i < cfg_nprio s" "q (Runq i) = t # ts" "\<forall>j. i < j \<and> j < cfg_nprio s \<longrightarrow> q (Runq j) = []"
    "pick_loop (cfg_nprio s) s = Some (t, s\<lparr>tq := list_remove (Td_node t) (tq s)\<rparr>)" by blast
  let ?s1 = "s\<lparr>tq := list_remove (Td_node t) (tq s)\<rparr>" and ?q = "q(Runq i := ts)"
  have pk: "picked s q t ?q" using p by (auto simp: picked_def)
  have inv1: "tinv ?s1 S T {t} ?q" using move_pick [OF inv p(1,2)] by simp
  have T: "t \<in> T" using tinvD(3) [OF inv1] by simp
  have un: "unarmed ?s1 t" using queued_ready(1) [OF inv p(1), of t] p(2) by (simp add: ready_in_def unarmed_def)
  have rd: "idle s t \<Longrightarrow> st s t = TD_STATE_READY" using tinvD(9) [OF inv1, of t] by (simp add: on_cpu_def)
  have cs1: "csound ?s1" using cs csound_cong [of ?s1 s] by simp
  let ?s2 = "if \<not> idle s t then set_td_state t TD_STATE_RUNNING ?s1 else ?s1"
  have inv2: "tinv ?s2 S T {t} ?q" using inv1 move_state [OF inv1 _ un, of TD_STATE_RUNNING] by simp
  have cs2: "csound ?s2" using cs1 csound_cong [of "set_td_state t TD_STATE_RUNNING ?s1" ?s1] by simp
  have st2: "steady s ?s2" by simp
  have run2: "runs ?s2 t" using rd by (simp add: runs_def)
  have q2: "td_quantum (threads ?s2 t) = td_quantum (threads s t)" "idle ?s2 t = idle s t" by simp_all
  have sel: "mdx_sched_next s = (if td_quantum (threads s t) \<noteq> 0 then
       do { KASSERT (\<not> idle s t);
            (_, s') \<leftarrow> mdx_callout_set_ticks (Td_c t) (td_quantum (threads s t)) (Some Sched_cb) (Arg_thread t)
              (mdx_callout_init (Td_c t) ?s2);
            Some (t, s') } else Some (t, ?s2))"
    using crit(1) up p(4) by (simp add: mdx_sched_next_def mdx_sched_lock_def mdx_sched_unlock_def mdx_sched_pick_def)
      (simp add: case_prod_unfold Let_def)
  show ?thesis
  proof (cases "td_quantum (threads s t) = 0")
    case True
    then show ?thesis using sel T inv2 cs2 st2 run2 pk by (intro exI [of _ t] exI [of _ ?s2] exI [of _ ?q]) simp
  next
    case False
    then have ni: "\<not> idle s t" using tinvD(5) [OF inv T] by blast
    have crit2: "in_critical ?s2" "crit_room ?s2" using steady_crit [OF st2] crit by simp_all
    from start_quantum [OF inv2 _ _ _ _ cs2 _ crit2 False] un ni up obtain s' where
      "mdx_callout_set_ticks (Td_c t) (td_quantum (threads s t)) (Some Sched_cb) (Arg_thread t) (mdx_callout_init (Td_c t) ?s2) = Some (MDX_OK, s')"
      "tinv s' S T {t} ?q" "csound s'" "steady ?s2 s'" "st s' t = TD_STATE_RUNNING" by (auto simp: unarmed_def)
    moreover have "steady s s'" using calculation(4) st2 steady_trans by blast
    moreover have "runs s' t" using calculation(5,6) ni by (simp add: runs_def steady_def)
    ultimately show ?thesis using sel False ni T pk by (intro exI [of _ t] exI [of _ s'] exI [of _ ?q]) simp
  qed
qed

section \<open>The invariant between instructions of threads\<close>

text \<open>Between two instructions of the current thread. A thread that has blocked but not yet
  trapped is already in its place, up to the acknowledgement by the exception handler; a
  thread that terminates is no longer among the threads \<open>T\<close>.\<close>

definition cur_ok :: "('h, 'x) kstate_scheme \<Rightarrow> semid set \<Rightarrow> tid set \<Rightarrow> (tnode \<Rightarrow> tid list) \<Rightarrow> bool" where
  "cur_ok s S T q \<longleftrightarrow>
     (let t = curthread s in
      case st s t of
        TD_STATE_SEM_WAIT \<Rightarrow> t \<in> T \<and> tinv (set_td_state t TD_STATE_ACK s) S T {} q
      | TD_STATE_SLEEPING \<Rightarrow> t \<in> T \<and> tinv (set_td_state t TD_STATE_ACK s) S T {} q
      | TD_STATE_TERMINATING \<Rightarrow> t \<notin> T \<and> tinv s S T {} q
      | TD_STATE_RUNNING \<Rightarrow> tinv s S T {t} q
      | TD_STATE_READY \<Rightarrow> tinv s S T {t} q
      | TD_STATE_YIELDING \<Rightarrow> tinv s S T {t} q
      | _ \<Rightarrow> False)"

definition kinv :: "('h, 'x) kstate_scheme \<Rightarrow> semid set \<Rightarrow> tid set \<Rightarrow> (tnode \<Rightarrow> tid list) \<Rightarrow> bool" where
  "kinv s S T q \<longleftrightarrow> \<not> cfg_smp s \<and> \<not> dyn_alloc (cfg s) \<and> csound s \<and> cur_ok s S T q \<and>
     (let it = intr_thread (cfg s) (pcpu_id s) in
        it \<notin> T \<and> it \<noteq> curthread s \<and> td_critnest (threads s it) = 0) \<and>
     td_critnest (curtd s) = 0 \<and> (\<forall>t \<in> T. td_critnest (threads s t) = 0)"

text \<open>What the handler of an interrupt may do. It runs on the interrupt thread.\<close>

locale isr_contract =
  fixes isr :: "('h, 'x) kstate_scheme \<Rightarrow> ('h, 'x) kstate_scheme option" and S :: "semid set"
  assumes keeps: "tinv s S T U q \<Longrightarrow> csound s \<Longrightarrow> \<not> cfg_smp s \<Longrightarrow> in_critical s \<Longrightarrow> crit_room s \<Longrightarrow>
    \<exists>s' q'. isr s = Some s' \<and> tinv s' S T U q' \<and> csound s' \<and> steady s s' \<and> mild U s s'"

lemma isr_none: "isr_contract (\<lambda>s. Some s) S"
  by unfold_locales auto

text \<open>The handler of the timer, and the handler of a device that posts a semaphore.\<close>

lemma clint_keeps:
  assumes inv: "tinv s S T U q" and cs: "csound s" and up: "\<not> cfg_smp s" and crit: "in_critical s"
    and d: "dispatch env = kernel_call user"
  shows "\<exists>s' q'. clint_intr env s = Some s' \<and> tinv s' S T U q' \<and> csound s' \<and> steady s s' \<and> mild U s s'"
proof -
  let ?s = "s\<lparr>hw := clear_tie env (pcpu_id s) (hw s)\<rparr>"
  have "tinv ?s S T U q" using inv tinv_cong [of s ?s] by (simp add: same_threads_def)
  moreover have "csound ?s" using cs csound_cong [of ?s s] by simp
  moreover have "in_critical ?s" using crit by (simp add: in_critical_def)
  ultimately obtain s' q' where "mdx_callout_callback (kernel_call user) ?s = Some (MDX_OK, s')" "tinv s' S T U q'"
    "csound s'" "steady ?s s'" "mild U ?s s'" using callback_inv [of ?s S T U q user] up by auto
  then show ?thesis using steady_trans [of s ?s s'] d by (auto simp: clint_intr_def mild_def)
qed

interpretation post_isr: isr_contract "\<lambda>s. map_option snd (mdx_sem_post i s)" "insert i S" for i S
proof
  fix s :: "('a, 'b) kstate_scheme" and T U q
  assume "tinv s (insert i S) T U q" "csound s" "\<not> cfg_smp s" "in_critical s" "crit_room s"
  then show "\<exists>s' q'. map_option snd (mdx_sem_post i s) = Some s' \<and> tinv s' (insert i S) T U q' \<and> csound s' \<and> steady s s' \<and>
    mild U s s'"
    using post_inv [of s "insert i S" T U q i] by (fastforce simp: mild_def)
qed

section \<open>The steps of the handler\<close>

text \<open>A thread that leaves the CPU of its own is acknowledged and has its place.\<close>

lemma ack_keeps:
  assumes c: "cur_ok s S T q" and t: "t = curthread s" and nd: "\<not> dyn_alloc (cfg s)" and cs: "csound s"
  shows "\<exists>r s' U. mdx_sched_ack t s = Some (r, s') \<and> tinv s' S T U q \<and> csound s' \<and> steady s s' \<and>
    (if r then U = {} else U = {t} \<and> st s' t \<in> {TD_STATE_RUNNING, TD_STATE_READY, TD_STATE_YIELDING})"
proof -
  have cs': "csound (set_td_state t st' s)" for st' using cs csound_cong [of "set_td_state t st' s" s] by simp
  show ?thesis
  proof (cases "st s t")
    case TD_STATE_TERMINATING
    then have "mdx_sched_ack t s = Some (True, s)" "tinv s S T {} q"
      using c nd t by (simp_all add: mdx_sched_ack_def mdx_thread_terminate_cleanup_def cur_ok_def Let_def)
    then show ?thesis using cs by force
  next
    case TD_STATE_SEM_WAIT
    then have "mdx_sched_ack t s = Some (True, set_td_state t TD_STATE_ACK s)" "tinv (set_td_state t TD_STATE_ACK s) S T {} q"
      using c t by (simp_all add: mdx_sched_ack_def cur_ok_def Let_def)
    then show ?thesis using cs' by (intro exI [of _ True] exI [of _ "set_td_state t TD_STATE_ACK s"] exI [of _ "{}"]) simp
  next
    case TD_STATE_SLEEPING
    then have "mdx_sched_ack t s = Some (True, set_td_state t TD_STATE_ACK s)" "tinv (set_td_state t TD_STATE_ACK s) S T {} q"
      using c t by (simp_all add: mdx_sched_ack_def cur_ok_def Let_def)
    then show ?thesis using cs' by (intro exI [of _ True] exI [of _ "set_td_state t TD_STATE_ACK s"] exI [of _ "{}"]) simp
  qed (use c t cs in \<open>force simp: mdx_sched_ack_def cur_ok_def Let_def\<close>)+
qed

text \<open>A thread whose quantum has ended, or that yields, goes to the end of its run queue.\<close>

lemma park_keeps:
  assumes inv: "tinv s S T {t} q" and cs: "csound s" and up: "\<not> cfg_smp s" and crit: "in_critical s"
    and st': "st s t \<in> {TD_STATE_RUNNING, TD_STATE_READY, TD_STATE_YIELDING}"
  shows "\<exists>r s' q'. mdx_sched_park t s = Some (r, s') \<and> csound s' \<and> steady s s' \<and>
    (if r then tinv s' S T {} q' \<and> q' = q(runq_of s t := q (runq_of s t) @ [t])
     else s' = s \<and> q' = q \<and> st s t = TD_STATE_RUNNING)"
proof (cases "st s t = TD_STATE_RUNNING")
  case True
  then show ?thesis using cs by (auto simp: mdx_sched_park_def)
next
  case False
  have p: "prio_ok s t" using tinvD(3,4) [OF inv] by blast
  have "mdx_sched_park t s = Some (True, added t {} s)"
    using False st' add_up [OF p up] in_critical_bracketed [OF crit] by (auto simp: mdx_sched_park_def)
  moreover have "csound (added t {} s)" using cs csound_cong [of "added t {} s" s] by (simp add: added_def notified_def)
  moreover have "tinv (added t {} s) S T {} (q(runq_of s t := q (runq_of s t) @ [t]))"
    using move_add [OF inv _ False] by simp
  ultimately show ?thesis
    by (intro exI [of _ True] exI [of _ "added t {} s"] exI [of _ "q(runq_of s t := q (runq_of s t) @ [t])"]) simp
qed

definition excp_ok :: "u32 \<Rightarrow> bool" where
  "excp_ok cause \<longleftrightarrow> cause AND EXCP_INTR \<noteq> 0 \<or> cause AND EXCP_MASK \<in> {3, 11}"

lemma cur_ok_cong:
  assumes "same_threads s s'" and "pcpu_id s' = pcpu_id s" and "pc_curthread s' = pc_curthread s"
  shows "cur_ok s' S T q = cur_ok s S T q"
proof -
  have "same_threads (set_td_state t st' s) (set_td_state t st' s')" for t st'
    using assms(1) by (auto simp: same_threads_def)
  then show ?thesis
    using assms tinv_cong [OF assms(1)] tinv_cong [of "set_td_state t st' s" "set_td_state t st' s'" for t st']
    by (simp add: cur_ok_def Let_def same_threads_def cong: td_state.case_cong)
qed

lemma csound_enter: "csound (enter_intr_thread s) = csound s"
  by (rule csound_cong) (simp_all add: enter_intr_thread_def Let_def)

lemma handle_exception_ok:
  assumes "tf_cause (trapframes s tf) AND EXCP_MASK \<in> {3, 11}"
  shows "\<exists>f. handle_exception tf s = Some (s\<lparr>trapframes := f\<rparr>)"
  using assms by (auto simp only: handle_exception_def upd_tf_def Let_def insert_iff empty_iff simp_thms if_True split: if_split)

lemma enter_intr:
  fixes s :: "('h, 'x) kstate_scheme"
  defines "it \<equiv> intr_thread (cfg s) (pcpu_id s)"
  assumes z: "td_critnest (threads s it) = 0"
  shows "same_threads s (enter_intr_thread s)" and "in_critical (enter_intr_thread s)" and "crit_room (enter_intr_thread s)"
    and "curthread (enter_intr_thread s) = it"
    and "pc_curthread (enter_intr_thread s) = (pc_curthread s)(pcpu_id s := it)"
    and "td_critnest (threads (enter_intr_thread s) u) = (if u = it then 1 else td_critnest (threads s u))"
    and "td_tf (threads (enter_intr_thread s) u) = td_tf (threads s u)"
    and "cfg (enter_intr_thread s) = cfg s" and "pcpu_id (enter_intr_thread s) = pcpu_id s"
    and "cfg_smp (enter_intr_thread s) = cfg_smp s"
  using z by (auto simp: enter_intr_thread_def same_threads_def in_critical_def crit_room_def it_def Let_def)

text \<open>From the trap to the acknowledgement.\<close>

definition same_cpu :: "('h, 'x) kstate_scheme \<Rightarrow> ('h, 'x) kstate_scheme \<Rightarrow> bool" where
  "same_cpu s s' \<longleftrightarrow> pcpu_id s' = pcpu_id s \<and> cfg s' = cfg s \<and> cfg_smp s' = cfg_smp s \<and>
     (\<forall>u. td_critnest (threads s' u) = td_critnest (threads s u))"

lemma front_keeps:
  fixes s :: "('h, 'x) kstate_scheme" and tf :: nat
  defines "td \<equiv> curthread s"
  defines "s0 \<equiv> upd_thread td (\<lambda>t. t\<lparr>td_tf := tf\<rparr>) s"
  assumes k: "kinv s S T q" and e: "excp_ok (tf_cause (trapframes s tf))"
  shows "\<exists>s1 r s2 U. (if tf_cause (trapframes s tf) AND EXCP_INTR \<noteq> 0 then Some s0 else handle_exception tf s0) = Some s1 \<and>
    mdx_sched_ack td s1 = Some (r, s2) \<and> tinv s2 S T U q \<and> csound s2 \<and> same_cpu s s2 \<and>
    (if r then U = {} else U = {td} \<and> st s2 td \<in> {TD_STATE_RUNNING, TD_STATE_READY, TD_STATE_YIELDING})"
proof -
  let ?intr = "tf_cause (trapframes s tf) AND EXCP_INTR \<noteq> 0"
  obtain f where hx: "(if ?intr then Some s0 else handle_exception tf s0) = Some (s0\<lparr>trapframes := f\<rparr>)"
  proof (cases ?intr)
    case True
    then show ?thesis by (intro that [of "trapframes s"]) (simp add: s0_def)
  next
    case False
    then have "tf_cause (trapframes s0 tf) AND EXCP_MASK \<in> {3, 11}" using e unfolding excp_ok_def s0_def by simp
    from handle_exception_ok [OF this] show ?thesis using False that by auto
  qed
  let ?s1 = "s0\<lparr>trapframes := f\<rparr>"
  have same1: "same_threads s ?s1" by (auto simp: same_threads_def armed_def s0_def)
  have cs1: "csound ?s1" using k csound_cong [of ?s1 s] by (simp add: s0_def kinv_def)
  have "cur_ok ?s1 S T q" using cur_ok_cong [OF same1] k by (simp add: s0_def kinv_def)
  from ack_keeps [OF this _ _ cs1, of td] k obtain r s2 U where "mdx_sched_ack td ?s1 = Some (r, s2)" "tinv s2 S T U q"
    "csound s2" "steady ?s1 s2"
    "if r then U = {} else U = {td} \<and> st s2 td \<in> {TD_STATE_RUNNING, TD_STATE_READY, TD_STATE_YIELDING}"
    by (auto simp: s0_def td_def kinv_def)
  moreover have "same_cpu s s2" using calculation(4) by (auto simp: s0_def steady_def same_cpu_def)
  ultimately show ?thesis using hx by blast
qed

text \<open>Back from the interrupt thread.\<close>

lemma leave_keeps:
  assumes k: "kinv s S T q" and s2: "same_cpu s s2" and t: "t \<in> T" "tinv s4 S T {t} q4" "csound s4" "steady (enter_intr_thread s2) s4"
    "runs s4 t"
  defines "s' \<equiv> leave_intr_thread t s4"
  shows "kinv s' S T q4" and "runs s' t" and "curthread s' = t"
proof -
  let ?it = "intr_thread (cfg s) (pcpu_id s)"
  have k': "\<not> cfg_smp s" "\<not> dyn_alloc (cfg s)" "?it \<notin> T" "td_critnest (threads s ?it) = 0" "\<forall>t \<in> T. td_critnest (threads s t) = 0"
    using k by (auto simp: kinv_def Let_def)
  have f2: "pcpu_id s2 = pcpu_id s" "cfg s2 = cfg s" "cfg_smp s2 = cfg_smp s" "\<And>u. td_critnest (threads s2 u) = td_critnest (threads s u)"
    using s2 by (auto simp: same_cpu_def)
  have it: "td_critnest (threads s2 (intr_thread (cfg s2) (pcpu_id s2))) = 0" using k'(4) f2 by simp
  note en = enter_intr [OF it]
  have f4: "pcpu_id s4 = pcpu_id s" "cfg s4 = cfg s" "cfg_smp s4 = cfg_smp s" "curthread s4 = ?it"
    "\<And>u. td_critnest (threads s4 u) = (if u = ?it then 1 else td_critnest (threads s u))"
    using t(4) en f2 by (auto simp: steady_def)
  have l: "same_threads s4 s'" "pcpu_id s' = pcpu_id s" "cfg s' = cfg s" "cfg_smp s' = cfg_smp s"
    "\<And>u. td_critnest (threads s' u) = td_critnest (threads s u)" "callouts s' = callouts s4" "cq s' = cq s4"
    "mi_tmr s' = mi_tmr s4" "cfg_ncpu s' = cfg_ncpu s4"
    using f4 k'(4) by (auto simp: s'_def leave_intr_thread_def same_threads_def Let_def)
  show c: "curthread s' = t" using f4 by (simp add: s'_def leave_intr_thread_def Let_def)
  show run': "runs s' t" using t(5) l(1) by (simp add: runs_def same_threads_def)
  have "cur_ok s' S T q4" using tinv_cong [OF l(1)] t(2) run' c by (auto simp: cur_ok_def runs_def split: if_splits)
  moreover have "csound s'" using t(3) csound_cong [of s' s4] l f4(1) by simp
  moreover have "?it \<noteq> t" using k'(3) t(1) by blast
  ultimately show "kinv s' S T q4" using k' l c t(1) by (simp add: kinv_def Let_def)
qed

context isr_contract
begin

lemma intr_keeps:
  assumes inv: "tinv s S T U q" and cs: "csound s" and up: "\<not> cfg_smp s" and crit: "in_critical s" "crit_room s"
    and d: "dispatch env = kernel_call user" and p: "plic_intr env = isr"
  shows "\<exists>s' q'. riscv_intr env irq s = Some s' \<and> tinv s' S T U q' \<and> csound s' \<and> steady s s' \<and> mild U s s'"
  using clint_keeps [OF inv cs up crit(1) d] keeps [OF inv cs up crit] inv cs up p
  by (auto simp: riscv_intr_def)

text \<open>From the acknowledgement to the choice of the next thread.\<close>

lemma service_keeps:
  assumes inv: "tinv s S T U q" and cs: "csound s" and up: "\<not> cfg_smp s" and crit: "in_critical s" "crit_room s"
    and d: "dispatch env = kernel_call user" and p: "plic_intr env = isr"
    and U: "if r then U = {} else U = {t} \<and> st s t \<in> {TD_STATE_RUNNING, TD_STATE_READY, TD_STATE_YIELDING} \<and>
      (idle s t \<longrightarrow> st s t = TD_STATE_READY)"
  shows "\<exists>t' s' q'. trap_switch env intr irq t r s = Some (t', s') \<and>
    t' \<in> T \<and> tinv s' S T {t'} q' \<and> csound s' \<and> steady s s' \<and> runs s' t'"
proof -
  have "\<exists>s1 q1. (if intr then riscv_intr env irq s else Some s) = Some s1 \<and> tinv s1 S T U q1 \<and> csound s1 \<and>
      steady s s1 \<and> mild U s s1"
    using intr_keeps [OF inv cs up crit d p, of irq] inv cs by auto
  then obtain s1 q1 where s1: "(if intr then riscv_intr env irq s else Some s) = Some s1" "tinv s1 S T U q1" "csound s1"
      "steady s s1" "mild U s s1" by blast
  have up1: "\<not> cfg_smp s1" using s1(4) up by (simp add: steady_def)
  have crit1: "in_critical s1" "crit_room s1" using steady_crit [OF s1(4)] crit by simp_all
  have next': "\<exists>t' s' q'. mdx_sched_next s2 = Some (t', s') \<and> t' \<in> T \<and> tinv s' S T {t'} q' \<and> csound s' \<and> steady s s' \<and> runs s' t'"
    if "tinv s2 S T {} q2" "csound s2" "steady s1 s2" for s2 q2
    using next_inv [OF that(1,2)] steady_crit [OF that(3)] crit1 up1 steady_trans [OF s1(4) that(3)] that(3) steady_trans
    unfolding steady_def by (metis (no_types, lifting))
  show ?thesis
  proof (cases r)
    case True
    then show ?thesis using next' [of s1 q1] s1 U by (auto simp: trap_switch_def)
  next
    case False
    then have U1: "U = {t}" and st0: "st s t \<in> {TD_STATE_RUNNING, TD_STATE_READY, TD_STATE_YIELDING}"
      "idle s t \<longrightarrow> st s t = TD_STATE_READY" using U by auto
    have st1: "st s1 t \<in> {TD_STATE_RUNNING, TD_STATE_READY, TD_STATE_YIELDING}"
      using s1(5) st0(1) U1 by (auto simp: mild_def)
    from park_keeps [OF _ s1(3) up1 crit1(1) st1] s1(2) U1 obtain r2 s2 q2 where s2: "mdx_sched_park t s1 = Some (r2, s2)"
      "csound s2" "steady s1 s2" "if r2 then tinv s2 S T {} q2 else s2 = s1 \<and> st s1 t = TD_STATE_RUNNING"
      by (metis (full_types))
    show ?thesis
    proof (cases r2)
      case True
      then show ?thesis using next' [of s2 q2] s1(1) s2 False by (auto simp: trap_switch_def)
    next
      case r2: False
      have "\<not> idle s1 t" using s2(4) r2 tinvD(9) [OF s1(2), of t] U1 by (auto simp: on_cpu_def)
      then show ?thesis
        using r2 s2 s1 U1 False tinvD(3) [OF s1(2)] by (auto simp: runs_def trap_switch_def)
    qed
  qed
qed

text \<open>The whole handler.\<close>

lemma trap_keeps:
  assumes k: "kinv s S T q" and e: "excp_ok (tf_cause (trapframes s tf))"
    and d: "dispatch env = kernel_call user" and p: "plic_intr env = isr"
  shows "\<exists>tf' s' q'. riscv_exception env tf s = Some (tf', s') \<and> kinv s' S T q' \<and> curthread s' \<in> T \<and> runs s' (curthread s') \<and>
    tf' = td_tf (curtd s')"
proof -
  let ?td = "curthread s"
  let ?s0 = "upd_thread ?td (\<lambda>t. t\<lparr>td_tf := tf\<rparr>) s"
  let ?intr = "tf_cause (trapframes s tf) AND EXCP_INTR \<noteq> 0" and ?irq = "tf_cause (trapframes s tf) AND EXCP_MASK"
  from front_keeps [OF k e] obtain s1 r s2 U where s2: "(if ?intr then Some ?s0 else handle_exception tf ?s0) = Some s1"
    "mdx_sched_ack ?td s1 = Some (r, s2)" "tinv s2 S T U q" "csound s2" "same_cpu s s2"
    "if r then U = {} else U = {?td} \<and> st s2 ?td \<in> {TD_STATE_RUNNING, TD_STATE_READY, TD_STATE_YIELDING}" by blast
  have f2: "pcpu_id s2 = pcpu_id s" "cfg s2 = cfg s" "cfg_smp s2 = cfg_smp s" "\<not> cfg_smp s"
    using s2(5) k by (auto simp: same_cpu_def kinv_def)
  let ?s3 = "enter_intr_thread s2"
  have it: "td_critnest (threads s2 (intr_thread (cfg s2) (pcpu_id s2))) = 0"
    using k s2(5) by (auto simp: same_cpu_def kinv_def Let_def)
  note en = enter_intr [OF it]
  have inv3: "tinv ?s3 S T U q" using tinv_cong [OF en(1)] s2(3) by simp
  have U3: "if r then U = {} else U = {?td} \<and> st ?s3 ?td \<in> {TD_STATE_RUNNING, TD_STATE_READY, TD_STATE_YIELDING} \<and>
      (idle ?s3 ?td \<longrightarrow> st ?s3 ?td = TD_STATE_READY)"
    using s2(6) en(1) tinvD(9) [OF inv3, of ?td] by (auto simp: same_threads_def on_cpu_def)
  from service_keeps [OF inv3 _ _ en(2,3) d p U3, of ?intr ?irq] csound_enter [of s2] s2(4) en(10) f2(3,4)
  obtain t' s4 q4 where s4: "trap_switch env ?intr ?irq ?td r ?s3 = Some (t', s4)"
    "t' \<in> T" "tinv s4 S T {t'} q4" "csound s4" "steady ?s3 s4" "runs s4 t'" by auto
  note lv = leave_keeps [OF k s2(5) s4(2-6)]
  have "riscv_exception env tf s = Some (td_tf (curtd (leave_intr_thread t' s4)), leave_intr_thread t' s4)"
    using s2(1,2) s4(1) f2(4) lv(3) by (simp add: riscv_exception_def) (simp add: Let_def)
  then show ?thesis using s4(2) lv by auto
qed

end

end
