(* ===== verification/Kernel_Steps.thy ===== *)
theory Kernel_Steps
  imports Kernel_Trap
begin

text \<open>
  The kernel of one CPU as a transition system. A step is a kernel call of the running thread,
  up to the instruction with which it gives up the CPU, or a trap. Every step keeps the
  invariant, and every step that the state allows returns.
\<close>

section \<open>Kernel calls of the running thread\<close>

lemma kinv_steady:
  assumes k: "kinv s S T q" and sd: "steady s s'" and cs: "csound s'" and c: "cur_ok s' S T' q'" and sub: "T' \<subseteq> T"
  shows "kinv s' S T' q'"
  using k sd cs c sub unfolding kinv_def steady_def Let_def by (auto split: if_splits)

abbreviation running :: "('h, 'x) kstate_scheme \<Rightarrow> bool" where
  "running s \<equiv> st s (curthread s) = TD_STATE_RUNNING"

lemma kinv_running:
  assumes "kinv s S T q" and "running s"
  shows "tinv s S T {curthread s} q" and "csound s" and "\<not> cfg_smp s" and "crit_room s" and "td_critnest (curtd s) = 0"
    and "\<not> idle s (curthread s)" and "curthread s \<in> T" and "armed s (Stack_c (curthread s)) = None"
    and "unqueued s S q (curthread s)"
proof -
  show inv: "tinv s S T {curthread s} q" using assms by (simp add: kinv_def cur_ok_def)
  show "csound s" "\<not> cfg_smp s" "crit_room s" "td_critnest (curtd s) = 0"
    using assms by (auto simp: kinv_def crit_room_def)
  have "on_cpu s S q (curthread s)" using tinvD(9) [OF inv] by simp
  then show "\<not> idle s (curthread s)" "armed s (Stack_c (curthread s)) = None" "unqueued s S q (curthread s)"
    using assms(2) by (auto simp: on_cpu_def unarmed_def)
  show "curthread s \<in> T" using tinvD(3) [OF inv] by simp
qed

text \<open>Changing the count of a semaphore without waiters.\<close>

lemma tinv_count:
  assumes inv: "tinv s S T U q" and e: "q (Sem_td_list i) = []"
  shows "tinv ((bracketed s)\<lparr>sems := (sems s)(i := (sems s i)\<lparr>sem_count := n\<rparr>)\<rparr>) S T U q"
    (is "tinv ?s' S T U q")
proof -
  have "sems_ok ?s' S q" using tinvD(7) [OF inv] e by (auto simp: sems_ok_def)
  moreover have "armed (bracketed s) = armed s" by (rule ext) (simp add: armed_def)
  ultimately show ?thesis using inv
    by (simp add: tinv_def tqueues_def prio_ok_def parked_def ready_in_def waits_for_def asleep_def on_cpu_def unarmed_def
        unqueued_def)
qed

lemma positive_idle: "tinv s S T U q \<Longrightarrow> i \<in> S \<Longrightarrow> sem_count (sems s i) > 0 \<Longrightarrow> q (Sem_td_list i) = []"
  using tinvD(7) by (fastforce simp: sems_ok_def)

lemma kinv_count:
  assumes k: "kinv s S T q" and r: "running s" and e: "q (Sem_td_list i) = []"
  shows "kinv ((bracketed s)\<lparr>sems := (sems s)(i := (sems s i)\<lparr>sem_count := n\<rparr>)\<rparr>) S T q" (is "kinv ?s' S T q")
proof (rule kinv_steady [OF k])
  note R = kinv_running [OF k r]
  show "steady s ?s'" by simp
  show "csound ?s'" using R(2) csound_cong [of ?s' s] by simp
  show "cur_ok ?s' S T q" using tinv_count [OF R(1) e] r by (simp add: cur_ok_def)
qed simp

lemma trywait_eq:
  assumes l: "sem_l (sems s i) = 0"
  shows "mdx_sem_trywait i s =
    Some (if sem_count (sems s i) > 0
          then (1, (bracketed s)\<lparr>sems := (sems s)(i := (sems s i)\<lparr>sem_count := sem_count (sems s i) - 1\<rparr>)\<rparr>)
          else (0, bracketed s))"
proof -
  define L where "L = (sems s)(i := (sems s i)\<lparr>sem_l := 1\<rparr>)"
  have lk: "sem_lock i (critical_enter s) = Some ((critical_enter s)\<lparr>sems := L\<rparr>)"
    using sem_lock_free [of "critical_enter s" i] l by (simp add: L_def)
  have u1: "sem_unlock i (upd_sem i (\<lambda>r. r\<lparr>sem_count := sem_count r - 1\<rparr>) ((critical_enter s)\<lparr>sems := L\<rparr>)) =
      Some ((critical_enter s)\<lparr>sems := (sems s)(i := (sems s i)\<lparr>sem_count := sem_count (sems s i) - 1\<rparr>)\<rparr>)"
    using l by (cases "sems s i") (simp add: sem_unlock_def sl_unlock_def upd_sem_def L_def)
  have u2: "sem_unlock i ((critical_enter s)\<lparr>sems := L\<rparr>) = Some ((critical_enter s)\<lparr>sems := sems s\<rparr>)"
    using sem_unlock_held [of "(critical_enter s)\<lparr>sems := L\<rparr>" i "sems s i"] l by (simp add: L_def)
  have c: "sem_count (L i) = sem_count (sems s i)" by (simp add: L_def)
  have b: "(bracketed s)\<lparr>sems := sems s\<rparr> = bracketed s" by (simp add: bracketed_def)
  show ?thesis using lk u1 u2 c b by (simp add: mdx_sem_trywait_def crit_simps)
qed

lemma kinv_bracketed: "kinv s S T q \<Longrightarrow> kinv (bracketed s) S T q"
  using cur_ok_cong [of s "bracketed s"] csound_cong [of "bracketed s" s]
  by (auto simp: kinv_def Let_def same_threads_def armed_def)

lemma trywait_step:
  assumes k: "kinv s S T q" and r: "running s" and i: "i \<in> S"
  shows "\<exists>n s'. mdx_sem_trywait i s = Some (n, s') \<and> kinv s' S T q"
proof -
  note R = kinv_running [OF k r]
  have "sem_l (sems s i) = 0" using tinvD(7) [OF R(1)] i by (simp add: sems_ok_def)
  from trywait_eq [OF this] show ?thesis
    using kinv_count [OF k r positive_idle [OF R(1) i]] kinv_bracketed [OF k] by (cases "sem_count (sems s i) > 0") simp_all
qed

lemma wait_step:
  assumes k: "kinv s S T q" and r: "running s" and i: "i \<in> S"
    and conv: "usec \<noteq> 0 \<Longrightarrow> mdx_callout_usec_to_ticks usec s \<noteq> None"
  shows "if sem_count (sems s i) > 0
    then \<exists>s'. mdx_sem_timedwait_enter i usec s = Some (Acquired, s') \<and> kinv s' S T q \<and>
      sems s' = (sems s)(i := (sems s i)\<lparr>sem_count := sem_count (sems s i) - 1\<rparr>)
    else \<exists>s'. mdx_sem_timedwait_enter i usec s = Some (Blocked, s') \<and> st s' (curthread s) = TD_STATE_SEM_WAIT \<and>
      kinv s' S T (q(Sem_td_list i := q (Sem_td_list i) @ [curthread s]))"
proof (cases "sem_count (sems s i) > 0")
  note R = kinv_running [OF k r]
  case True
  have "sem_l (sems s i) = 0" using tinvD(7) [OF R(1)] i by (simp add: sems_ok_def)
  then show ?thesis
    using wait_acquire [OF _ True R(6,5)] kinv_count [OF k r positive_idle [OF R(1) i True]] True by auto
next
  note R = kinv_running [OF k r]
  case False
  from wait_block [OF R(1-3) i refl _ _ R(6,5) r conv] False obtain s' where
    s': "mdx_sem_timedwait_enter i usec s = Some (Blocked, s')" "csound s'" "steady s s'" "st s' (curthread s) = TD_STATE_SEM_WAIT"
    "tinv (set_td_state (curthread s) TD_STATE_ACK s') S T {} (q(Sem_td_list i := q (Sem_td_list i) @ [curthread s]))" by auto
  have "cur_ok s' S T (q(Sem_td_list i := q (Sem_td_list i) @ [curthread s]))"
    using s'(3-5) R(7) by (simp add: cur_ok_def steady_def)
  then show ?thesis using False s'(1,4) kinv_steady [OF k s'(3,2)] by auto
qed

lemma sleep_step:
  assumes k: "kinv s S T q" and r: "running s" and n: "n \<noteq> 0"
  shows "\<exists>s'. mdx_tsleep_enter n s = Some s' \<and> kinv s' S T q"
proof -
  note R = kinv_running [OF k r]
  from sleep_inv [OF R(1-3) refl _ R(6,5) n] obtain s' where
    s': "mdx_tsleep_enter n s = Some s'" "csound s'" "steady s s'" "st s' (curthread s) = TD_STATE_SLEEPING"
    "tinv (set_td_state (curthread s) TD_STATE_ACK s') S T {} q" by auto
  have "cur_ok s' S T q" using s'(3-5) R(7) by (simp add: cur_ok_def steady_def)
  then show ?thesis using s'(1) kinv_steady [OF k s'(3,2)] by blast
qed

lemma post_step:
  assumes k: "kinv s S T q" and r: "running s" and i: "i \<in> S"
  shows "\<exists>s' q'. mdx_sem_post i s = Some (1, s') \<and> kinv s' S T q' \<and> running s' \<and> posted s i q s' q' \<and> steady s s'"
proof -
  note R = kinv_running [OF k r]
  from post_inv [OF R(1-3) i R(4)] obtain s' q' where
    s': "mdx_sem_post i s = Some (1, s')" "tinv s' S T {curthread s} q'" "csound s'" "steady s s'" "st s' (curthread s) = st s (curthread s)"
      "posted s i q s' q'"
    by auto
  have "cur_ok s' S T q'" using s'(2,4,5) r by (simp add: cur_ok_def steady_def)
  then show ?thesis using s' r kinv_steady [OF k s'(4,3)] by (auto simp: steady_def)
qed

lemma yield_step:
  assumes k: "kinv s S T q" and r: "running s" and off: "armed s (Td_c (curthread s)) = None"
  shows "kinv (mdx_thread_yield_enter s) S T q"
proof -
  note R = kinv_running [OF k r]
  have u: "unarmed s (curthread s)" using off R(8) by (simp add: unarmed_def)
  note y = yield_inv [OF R(1) refl _ R(6) u, simplified]
  have "csound (mdx_thread_yield_enter s)"
    using R(2) csound_cong [of "mdx_thread_yield_enter s" s] by (simp add: mdx_thread_yield_enter_def crit_simps Let_def)
  moreover have "cur_ok (mdx_thread_yield_enter s) S T q" using y by (simp add: cur_ok_def steady_def)
  ultimately show ?thesis using kinv_steady [OF k y(3)] by blast
qed

lemma tinv_forget:
  assumes inv: "tinv s S T {t} q" and step: "thread_step t s s'" and tq: "tq s' = tq s" and sems: "sems s' = sems s"
    and off: "armed s' (Td_c t) = None" "armed s' (Stack_c t) = None" and ni: "\<not> idle s t"
  shows "tinv s' S (T - {t}) {} q"
proof (rule tinvI)
  note D = tinvD [OF inv]
  have un: "unqueued s S q t" using D(9) by (simp add: on_cpu_def)
  have n: "cfg_nprio s' = cfg_nprio s" "\<And>u. idle s' u = idle s u" "\<And>u. td_prio (threads s' u) = td_prio (threads s u)"
    "\<And>u. td_quantum (threads s' u) = td_quantum (threads s u)" using step by (auto simp: thread_step_def)
  show "tqueues s' S q" using D(1) tqueues_cong [OF tq n(1)] by simp
  show "set (q l) \<subseteq> T - {t}" if "l \<in> heads (cfg_nprio s') S" for l using D(2) [of l] un that n(1) by (auto simp: unqueued_def)
  show "\<exists>u \<in> T - {t}. idle s' u" using D(6) ni n(2) by blast
  show "sems_ok s' S q" using D(7) sems by (simp add: sems_ok_def)
  show "parked s' S q u" if "u \<in> T - {t}" "u \<notin> {}" for u
  proof -
    have "same_thread s s' u" using step that by (auto simp: thread_step_def same_thread_def)
    then show ?thesis using D(8) [of u] that n
      by (auto simp: parked_def ready_in_def waits_for_def asleep_def unarmed_def same_thread_def unqueued_def)
  qed
  show "\<exists>u \<in> T - {t}. c = Td_c u \<or> c = Stack_c u" if "armed s' c \<noteq> None" for c
    using that D(10) [of c] off step by (cases "c = Td_c t \<or> c = Stack_c t") (auto simp: thread_step_def)
qed (use tinvD(4,5) [OF inv] step in \<open>auto simp: thread_step_def prio_ok_def\<close>)

lemma terminate_step:
  assumes k: "kinv s S T q" and r: "running s"
  shows "\<exists>s'. mdx_thread_terminate_enter s = Some s' \<and> kinv s' S (T - {curthread s}) q"
proof -
  note R = kinv_running [OF k r]
  let ?t = "curthread s"
  let ?s1 = "set_td_state ?t TD_STATE_TERMINATING (critical_enter s)"
  have in1: "inside (critical_enter s) ?s1" by simp
  have crit1: "in_critical ?s1" using inside_crit(1) [OF in1] critical_enter_in [OF R(4)] by simp
  have cs1: "csound ?s1" using R(2) csound_cong [of ?s1 s] by simp
  from cancel_inside [OF cs1 crit1, of ?t] R(3) obtain e s2 where s2: "mdx_callout_cancel (Td_c ?t) ?s1 = Some (e, s2)" "csound s2"
    "thread_step ?t ?s1 s2" "inside ?s1 s2" "tq s2 = tq s" "sems s2 = sems s" "armed s2 (Td_c ?t) = None"
    "armed s2 (Stack_c ?t) = armed s (Stack_c ?t)" "threads s2 = threads ?s1" by auto
  define s' where "s' = critical_exit s2"
  have ret: "mdx_thread_terminate_enter s = Some s'" using s2(1) by (simp add: mdx_thread_terminate_enter_def s'_def Let_def)
  have "thread_step ?t s ?s1" by simp
  then have ts: "thread_step ?t s s'" using thread_step_trans [OF _ s2(3)] by (simp add: s'_def)
  have "tinv s' S (T - {?t}) {} q"
    by (rule tinv_forget [OF R(1) ts]) (use s2 R in \<open>simp_all add: s'_def\<close>)
  moreover have sd: "steady s s'" using inside_exit [OF inside_trans [OF in1 s2(4)]] by (simp add: s'_def)
  moreover have "st s' ?t = TD_STATE_TERMINATING" using s2(9) by (auto simp: s'_def critical_exit_def Let_def)
  ultimately have "cur_ok s' S (T - {?t}) q" by (simp add: cur_ok_def steady_def)
  moreover have "csound s'" using s2(2) csound_cong [of s' s2] by (simp add: s'_def)
  ultimately show ?thesis using ret kinv_steady [OF k sd] by blast
qed

section \<open>The transition system\<close>

datatype kop =
    Op_trap nat u32
  | Op_timedwait semid u32
  | Op_trywait semid
  | Op_post semid
  | Op_tsleep u32
  | Op_yield
  | Op_terminate

text \<open>The effect of a step. The hardware stores the cause of a trap in the frame.\<close>

fun kop_run :: "('h, ('h, 'x) kstate_scheme) intr_env \<Rightarrow> kop \<Rightarrow> ('h, 'x) kstate_scheme \<Rightarrow> ('h, 'x) kstate_scheme option" where
  "kop_run env (Op_trap tf cause) s =
     map_option snd (riscv_exception env tf (upd_tf tf (\<lambda>f. f\<lparr>tf_cause := cause\<rparr>) s))"
| "kop_run env (Op_timedwait i usec) s = map_option snd (mdx_sem_timedwait_enter i usec s)"
| "kop_run env (Op_trywait i) s = map_option snd (mdx_sem_trywait i s)"
| "kop_run env (Op_post i) s = map_option snd (mdx_sem_post i s)"
| "kop_run env (Op_tsleep n) s = mdx_tsleep_enter n s"
| "kop_run env Op_yield s = Some (mdx_thread_yield_enter s)"
| "kop_run env Op_terminate s = mdx_thread_terminate_enter s"

text \<open>When a step may happen. The exceptions of a trap are \<^verbatim>\<open>ecall\<close> and breakpoint, the others are errors
  of the program. A kernel call needs a running thread; a timeout must convert to ticks, a
  sleep takes at least one tick as its assertion demands, and a thread yields only while its quantum
  is not running.\<close>

fun kop_ok :: "semid set \<Rightarrow> kop \<Rightarrow> ('h, 'x) kstate_scheme \<Rightarrow> bool" where
  "kop_ok S (Op_trap tf cause) s \<longleftrightarrow> excp_ok cause"
| "kop_ok S (Op_timedwait i usec) s \<longleftrightarrow> running s \<and> i \<in> S \<and> (usec = 0 \<or> mdx_callout_usec_to_ticks usec s \<noteq> None)"
| "kop_ok S (Op_trywait i) s \<longleftrightarrow> running s \<and> i \<in> S"
| "kop_ok S (Op_post i) s \<longleftrightarrow> running s \<and> i \<in> S"
| "kop_ok S (Op_tsleep n) s \<longleftrightarrow> running s \<and> n \<noteq> 0"
| "kop_ok S Op_yield s \<longleftrightarrow> running s \<and> \<not> active s (Td_c (curthread s))"
| "kop_ok S Op_terminate s \<longleftrightarrow> running s"

fun kop_threads :: "kop \<Rightarrow> tid set \<Rightarrow> ('h, 'x) kstate_scheme \<Rightarrow> tid set" where
  "kop_threads Op_terminate T s = T - {curthread s}"
| "kop_threads _ T s = T"

inductive kreach :: "('h, ('h, 'x) kstate_scheme) intr_env \<Rightarrow> semid set \<Rightarrow> tid set \<times> ('h, 'x) kstate_scheme \<Rightarrow>
    tid set \<times> ('h, 'x) kstate_scheme \<Rightarrow> bool" for env S x0 where
  start: "kreach env S x0 x0"
| step: "kreach env S x0 (T, s) \<Longrightarrow> kop_ok S op s \<Longrightarrow> kop_run env op s = Some s' \<Longrightarrow>
    kreach env S x0 (kop_threads op T s, s')"

lemma kinv_trapframe: "kinv (upd_tf tf f s) S T q = kinv s S T q"
  using cur_ok_cong [of s "upd_tf tf f s"] csound_cong [of "upd_tf tf f s" s]
  by (simp add: kinv_def Let_def same_threads_def armed_def upd_tf_def)

context isr_contract
begin

lemma step_keeps:
  assumes k: "kinv s S T q" and ok: "kop_ok S op s" and d: "dispatch env = kernel_call user" and p: "plic_intr env = isr"
  shows "\<exists>s' q'. kop_run env op s = Some s' \<and> kinv s' S (kop_threads op T s) q'"
proof (cases op)
  case (Op_trap tf cause)
  let ?s = "upd_tf tf (\<lambda>f. f\<lparr>tf_cause := cause\<rparr>) s"
  have "kinv ?s S T q" using k by (simp add: kinv_trapframe)
  moreover have "excp_ok (tf_cause (trapframes ?s tf))" using ok Op_trap by (simp add: upd_tf_def)
  ultimately show ?thesis using trap_keeps [OF _ _ d p, of ?s T q tf] Op_trap by auto
next
  case (Op_timedwait i usec)
  then show ?thesis using wait_step [OF k, of i usec] ok by (cases "sem_count (sems s i) > 0") auto
next
  case (Op_trywait i)
  then show ?thesis using trywait_step [OF k, of i] ok by auto
next
  case (Op_post i)
  then show ?thesis using post_step [OF k, of i] ok by auto
next
  case (Op_tsleep n)
  then show ?thesis using sleep_step [OF k, of n] ok by auto
next
  case Op_yield
  then show ?thesis using yield_step [OF k] ok by (auto simp: armed_def)
next
  case Op_terminate
  then show ?thesis using terminate_step [OF k] ok by auto
qed

lemma reach_keeps:
  assumes "kreach env S (T0, s0) x" and "kinv s0 S T0 q0" and "dispatch env = kernel_call user" and "plic_intr env = isr"
  shows "\<exists>q. kinv (snd x) S (fst x) q"
  using assms
proof (induction rule: kreach.induct)
  case (step T s op s')
  then obtain q where k: "kinv s S T q" by auto
  from step_keeps [OF k step.hyps(2) step.prems(2,3)] step.hyps(3) show ?case by auto
qed auto

end

section \<open>Where a thread is\<close>

text \<open>The number of places that hold a thread: the lists it is on, the CPU, and the sleep callout
  on its stack.\<close>

definition places :: "('h, 'x) kstate_scheme \<Rightarrow> semid set \<Rightarrow> (tnode \<Rightarrow> tid list) \<Rightarrow> tid \<Rightarrow> nat" where
  "places s S q t = card {l \<in> heads (cfg_nprio s) S. t \<in> set (q l)} +
     (if t = curthread s \<and> st s t \<in> {TD_STATE_RUNNING, TD_STATE_READY, TD_STATE_YIELDING} then 1 else 0) +
     (if active s (Stack_c t) then 1 else 0)"

lemma queued_card:
  assumes "tqueues s S q" and "l \<in> heads (cfg_nprio s) S" and "t \<in> set (q l)"
  shows "card {k \<in> heads (cfg_nprio s) S. t \<in> set (q k)} = 1"
proof -
  have "{k \<in> heads (cfg_nprio s) S. t \<in> set (q k)} = {l}" using tqueues_unique [OF assms(1)] assms(2,3) by blast
  then show ?thesis by simp
qed

lemma unqueued_card:
  assumes "unqueued s S q t"
  shows "card {k \<in> heads (cfg_nprio s) S. t \<in> set (q k)} = 0"
proof -
  have "{k \<in> heads (cfg_nprio s) S. t \<in> set (q k)} = {}" using assms by (auto simp: unqueued_def)
  then show ?thesis by (simp only: card.empty)
qed

lemma parked_card:
  assumes inv: "tinv s S T U q" and t: "t \<in> T" "t \<notin> U"
  shows "card {l \<in> heads (cfg_nprio s) S. t \<in> set (q l)} + (if active s (Stack_c t) then 1 else 0) = 1"
proof -
  have act: "active s c \<longleftrightarrow> armed s c \<noteq> None" for c by (simp add: armed_def)
  from tinvD(8) [OF inv t] consider (r) "ready_in s q t" | (w) i where "i \<in> S" "waits_for s q t i" | (a) "asleep s S q t"
    by (auto simp: parked_def)
  then show ?thesis
  proof cases
    case r
    have "runq_of s t \<in> heads (cfg_nprio s) S" using tinvD(4) [OF inv t(1)] by (auto simp: prio_ok_def)
    then show ?thesis using queued_card [OF tinvD(1) [OF inv], of "runq_of s t" t] r act by (simp add: ready_in_def unarmed_def)
  next
    case w
    then show ?thesis using queued_card [OF tinvD(1) [OF inv], of "Sem_td_list i" t] act by (simp add: waits_for_def)
  next
    case a
    then show ?thesis using unqueued_card act by (fastforce simp: asleep_def)
  qed
qed

lemma one_place:
  assumes k: "kinv s S T q" and t: "t \<in> T"
  shows "places s S q t = 1"
proof -
  let ?c = "curthread s" and ?s' = "set_td_state (curthread s) TD_STATE_ACK s"
  have c: "cur_ok s S T q" using k by (simp add: kinv_def)
  consider (run) "st s ?c \<in> {TD_STATE_RUNNING, TD_STATE_READY, TD_STATE_YIELDING}" "tinv s S T {?c} q"
    | (blocked) "st s ?c \<in> {TD_STATE_SEM_WAIT, TD_STATE_SLEEPING}" "tinv ?s' S T {} q"
    | (ends) "st s ?c = TD_STATE_TERMINATING" "tinv s S T {} q"
    using c by (cases "st s ?c") (auto simp: cur_ok_def Let_def)
  then show ?thesis
  proof cases
    case run
    have "on_cpu s S q ?c" using tinvD(9) [OF run(2)] by simp
    then have "unqueued s S q ?c" "\<not> active s (Stack_c ?c)"
      by (auto simp: on_cpu_def unarmed_def armed_def split: if_splits)
    then show ?thesis using run parked_card [OF run(2) t] unqueued_card [of s S q t] by (cases "t = ?c") (auto simp: places_def)
  next
    case blocked
    then show ?thesis using parked_card [OF blocked(2) t] by (auto simp: places_def)
  next
    case ends
    then show ?thesis using parked_card [OF ends(2) t] by (auto simp: places_def)
  qed
qed

section \<open>Waiters are served in order\<close>

primrec sem_posts :: "nat \<Rightarrow> semid \<Rightarrow> ('h, 'x) kstate_scheme \<Rightarrow> ('h, 'x) kstate_scheme option" where
  "sem_posts 0 i s = Some s"
| "sem_posts (Suc n) i s = do { (_, s) \<leftarrow> mdx_sem_post i s; sem_posts n i s }"

lemma posts_reach:
  assumes "kinv s S T q" and "running s" and "i \<in> S" and "q (Sem_td_list i) = xs @ t # ys"
  shows "\<exists>s' q'. sem_posts (Suc (length xs)) i s = Some s' \<and> kinv s' S T q' \<and> running s' \<and>
    q' (Sem_td_list i) = ys \<and> st s' t = TD_STATE_WAKEUP \<and> t \<in> set (q' (runq_of s' t))"
  using assms
proof (induction xs arbitrary: s q)
  case Nil
  from post_step [OF Nil(1-3)] obtain s1 q1 where s1: "mdx_sem_post i s = Some (1, s1)" "kinv s1 S T q1" "running s1"
    "posted s i q s1 q1" "steady s s1" by blast
  moreover from s1(4) Nil(4) have "q1 (Sem_td_list i) = ys" "st s1 t = TD_STATE_WAKEUP" by (auto simp: posted_def)
  moreover have "t \<in> set (q1 (runq_of s1 t))"
  proof -
    have "t \<in> T" using tinvD(2) [OF kinv_running(1) [OF Nil(1,2)], of "Sem_td_list i"] Nil(3,4) by auto
    then have "runq_of s t \<in> heads (cfg_nprio s) S" using tinvD(4) [OF kinv_running(1) [OF Nil(1,2)], of t] by (auto simp: prio_ok_def)
    moreover have "t \<in> set (q1 (runq_of s t))" using s1(4) Nil(4) by (auto simp: posted_def)
    ultimately show ?thesis using queued_ready(2) [OF kinv_running(1) [OF s1(2,3)], of "nat (td_prio (threads s t))" t] s1(5)
      by (simp add: steady_def)
  qed
  ultimately show ?case by auto
next
  case (Cons x xs)
  from post_step [OF Cons.prems(1-3)] obtain s1 q1 where s1: "mdx_sem_post i s = Some (1, s1)" "kinv s1 S T q1" "running s1"
    "posted s i q s1 q1" by blast
  then have "q1 (Sem_td_list i) = xs @ t # ys" using Cons.prems(4) by (auto simp: posted_def)
  from Cons.IH [OF s1(2,3) Cons.prems(3) this] show ?case using s1(1) by (auto simp: posted_def)
qed

end
