(* ===== verification/Kernel_Properties.thy ===== *)
theory Kernel_Properties
  imports Kernel_Steps Callout_Properties
begin

text \<open>
  The properties of the scheduler, the semaphores and the exception handler, with a concrete
  kernel of one CPU: thread 1 runs, thread 3 is ready with a quantum of 1000 ticks, thread 2
  waits for semaphore 0, and the idle thread 100 is ready.
\<close>

section \<open>A concrete kernel\<close>

definition kdemo_threads :: "tid \<Rightarrow> thread" where
  "kdemo_threads t =
     (if t = 1 then demo_thread\<lparr>td_state := TD_STATE_RUNNING\<rparr>
      else if t = 2 then demo_thread\<lparr>td_state := TD_STATE_ACK\<rparr>
      else if t = 3 then demo_thread\<lparr>td_quantum := 1000\<rparr>
      else demo_thread\<lparr>td_idle := True, td_prio := 0\<rparr>)"

definition kdemo_tq :: "tnode heap" where
  "kdemo_tq = list_append (Sem_td_list 0) (Td_node 2)
     (list_append (Runq 1) (Td_node 3) (list_append (Runq 0) (Td_node 100) demo_heap))"

definition kdemo :: "demo_hw kstate" where
  "kdemo = demo\<lparr>cfg_smp := False, cfg_ncpu := 1, pc_curthread := (\<lambda>k. 1), threads := kdemo_threads,
     callouts := (\<lambda>c. demo_callout 0 0), cq := demo_heap, tq := kdemo_tq,
     sems := (\<lambda>i. \<lparr>sem_count = 0, sem_count_initial = 0, sem_l = 0\<rparr>)\<rparr>"

definition kdemo_q :: "tnode \<Rightarrow> tid list" where
  "kdemo_q l = (if l = Runq 0 then [100] else if l = Runq 1 then [3] else if l = Sem_td_list 0 then [2] else [])"

lemma kdemo_sel [simp]:
  "\<not> cfg_smp kdemo" "cfg_ncpu kdemo = 1" "cfg_nprio kdemo = 2" "pcpu_id kdemo = 0" "pc_curthread kdemo = (\<lambda>k. 1)"
  "threads kdemo = kdemo_threads" "tq kdemo = kdemo_tq" "cq kdemo = demo_heap" "callouts kdemo = (\<lambda>c. demo_callout 0 0)"
  "mi_tmr kdemo = Some demo_timer" "sems kdemo = (\<lambda>i. \<lparr>sem_count = 0, sem_count_initial = 0, sem_l = 0\<rparr>)"
  "cfg kdemo = demo_cfg" "cfg_usec_1mhz kdemo"
  by (simp_all add: kdemo_def, simp_all add: demo_def)

lemma kdemo_armed [simp]: "armed kdemo c = None"
  by (simp add: armed_def demo_callout_def)

lemma kdemo_csound: "csound kdemo"
proof -
  have "cstruct kdemo (\<lambda>k. [])"
    by (auto simp: cstruct_def queues_def cheads_def demo_heap_def demo_callout_def)
  then show ?thesis using demo_ok(1) by (auto simp: csound_def timer_ok_def)
qed

lemma kdemo_tqueues: "tqueues kdemo {0} kdemo_q"
proof -
  let ?H = "heads 2 {0}"
  have mem: "Runq 0 \<in> ?H" "Runq 1 \<in> ?H" "Sem_td_list 0 \<in> ?H" "\<And>t. Td_node t \<notin> ?H" by (auto simp: heads_def)
  have 0: "queues demo_heap ?H (\<lambda>l. [])" by (auto simp: queues_def demo_heap_def)
  note 1 = queues_append [OF 0 mem(1) mem(4) [of 100], simplified]
  note 2 = queues_append [OF 1 mem(2) mem(4) [of 3], simplified]
  note 3 = queues_append [OF 2 mem(3) mem(4) [of 2], simplified]
  have "(\<lambda>l. map Td_node (kdemo_q l)) =
      ((\<lambda>l. [])(Runq 0 := [Td_node 100], Runq 1 := [Td_node 3], Sem_td_list 0 := [Td_node 2]))"
    by (auto simp: kdemo_q_def fun_eq_iff)
  then show ?thesis using 3 by (simp add: tqueues_def kdemo_tq_def)
qed

lemma kdemo_places: "tinv kdemo {0} {1, 2, 3, 100} {1} kdemo_q"
proof (rule tinvI)
  show "tqueues kdemo {0} kdemo_q" by (rule kdemo_tqueues)
  show "set (kdemo_q l) \<subseteq> {1, 2, 3, 100}" for l by (auto simp: kdemo_q_def split: if_splits)
  show "parked kdemo {0} kdemo_q t" if "t \<in> {1, 2, 3, 100}" "t \<notin> {1}" for t
    using that by (auto simp: parked_def ready_in_def waits_for_def unarmed_def kdemo_threads_def kdemo_q_def demo_thread_def)
  show "on_cpu kdemo {0} kdemo_q t" if "t \<in> {1}" for t
    using that by (auto simp: on_cpu_def unqueued_def unarmed_def kdemo_threads_def kdemo_q_def demo_thread_def heads_def)
qed (auto simp: prio_ok_def kdemo_threads_def demo_thread_def sems_ok_def)


lemma kdemo_room: "crit_room kdemo"
  by (simp add: crit_room_def kdemo_threads_def demo_thread_def)

lemma kdemo_running [simp]: "running kdemo" "curthread kdemo = 1"
  by (simp_all add: kdemo_threads_def)

lemma kdemo_kinv: "kinv kdemo {0} {1, 2, 3, 100} kdemo_q"
  using kdemo_csound kdemo_places
  by (auto simp: kinv_def cur_ok_def kdemo_threads_def demo_thread_def demo_cfg_def)

definition kdemo_env :: "(demo_hw, demo_hw kstate) intr_env" where
  "kdemo_env = \<lparr>clear_tie = (\<lambda>k h. h), plic_intr = (\<lambda>s. map_option snd (mdx_sem_post 0 s)), rendezvous = Some,
     dispatch = kernel_call (\<lambda>n a s. None)\<rparr>"

lemma kdemo_env_sel [simp]:
  "dispatch kdemo_env = kernel_call (\<lambda>n a s. None)" "plic_intr kdemo_env = (\<lambda>s. map_option snd (mdx_sem_post 0 s))"
  by (simp_all add: kdemo_env_def)

section \<open>The kernel never panics\<close>

text \<open>C1. The kernel of one CPU, without dynamic allocation of threads, from a state that satisfies the
  invariant \<open>kinv\<close>, under any sequence of the following steps: an interrupt, \<^verbatim>\<open>ecall\<close> or breakpoint at any moment, where an external interrupt posts a
  semaphore, and the kernel calls of the running thread, \<^verbatim>\<open>mdx_sem_timedwait\<close> with a timeout that converts to
  ticks or none, \<^verbatim>\<open>mdx_sem_trywait\<close>, \<^verbatim>\<open>mdx_sem_post\<close>, \<^verbatim>\<open>mdx_tsleep\<close> for at least one tick, \<^verbatim>\<open>mdx_thread_yield\<close>
  while its quantum callout is not queued, and \<^verbatim>\<open>mdx_thread_terminate\<close>. The state satisfies
  the invariant again, and each of these steps returns: no assertion fails, no loop hangs.
  Other exceptions, timers and callouts of the application are not steps. A yield with the
  quantum queued is excluded because it does end in a failed assertion.\<close>

theorem kernel_never_panics:
  assumes "kinv s0 (insert i S) T0 q0" and "dispatch env = kernel_call user"
    and "plic_intr env = (\<lambda>s. map_option snd (mdx_sem_post i s))"
    and "kreach env (insert i S) (T0, s0) (T, s)"
  shows "(\<exists>q. kinv s (insert i S) T q) \<and> (\<forall>op. kop_ok (insert i S) op s \<longrightarrow> kop_run env op s \<noteq> None)"
proof -
  obtain q where q: "kinv s (insert i S) T q" using post_isr.reach_keeps [OF assms(4,1,2,3)] by auto
  then show ?thesis using post_isr.step_keeps [OF q _ assms(2,3)] by fastforce
qed

theorem kernel_never_panics_witness:
  "\<exists>s. kop_run kdemo_env (Op_timedwait 0 500) kdemo = Some s \<and> kop_run kdemo_env (Op_trap 0 11) s \<noteq> None"
proof -
  have ok: "kop_ok {0} (Op_timedwait 0 500) kdemo"
    by (simp add: mdx_callout_usec_to_ticks_def demo_timer_def mdx_cputime_usec_to_ticks_1mhz_def kdemo_threads_def)
  note k = kernel_never_panics [of kdemo 0 "{}" _ kdemo_q kdemo_env, OF kdemo_kinv kdemo_env_sel]
  from k [OF kreach.start] ok obtain s where s: "kop_run kdemo_env (Op_timedwait 0 500) kdemo = Some s" by blast
  have "kop_ok {0} (Op_trap 0 11) s" by (simp add: excp_ok_def EXCP_INTR_def EXCP_MASK_def)
  with k [OF kreach.step [OF kreach.start ok s]] s show ?thesis by blast
qed

text \<open>C2. No thread is lost and none is in two places: in every reachable state each thread is on
  exactly one list of the scheduler or of a semaphore, or it is the thread on the CPU, or the
  callout of its sleep is queued, and never two of these.\<close>

theorem thread_in_one_place:
  assumes "kinv s0 (insert i S) T0 q0" and "dispatch env = kernel_call user"
    and "plic_intr env = (\<lambda>s. map_option snd (mdx_sem_post i s))"
    and "kreach env (insert i S) (T0, s0) (T, s)"
  shows "\<exists>q. tqueues s (insert i S) q \<and> (\<forall>t \<in> T. places s (insert i S) q t = 1)"
proof -
  obtain q where q: "kinv s (insert i S) T q" using post_isr.reach_keeps [OF assms(4,1,2,3)] by auto
  have "tqueues s (insert i S) q" using q by (auto simp: kinv_def cur_ok_def Let_def tinv_def tqueues_def split: td_state.splits)
  then show ?thesis using one_place [OF q] by blast
qed

theorem thread_in_one_place_witness:
  "\<exists>q. tqueues kdemo {0} q \<and> (\<forall>t \<in> {1, 2, 3, 100}. places kdemo {0} q t = 1)"
  using thread_in_one_place [of kdemo 0 "{}" "{1, 2, 3, 100}" kdemo_q kdemo_env, OF kdemo_kinv kdemo_env_sel kreach.start] .

text \<open>C3. The exception handler \<^verbatim>\<open>riscv_exception\<close> returns for every interrupt, breakpoint and environment
  call taken by a thread of a kernel in order. It returns the trap frame of a thread of the
  system that may run, which is now the current thread, and the kernel is in order.\<close>

theorem trap_returns_to_runnable_thread:
  assumes "kinv s (insert i S) T q" and "excp_ok (tf_cause (trapframes s tf))" and "dispatch env = kernel_call user"
    and "plic_intr env = (\<lambda>s. map_option snd (mdx_sem_post i s))"
  shows "\<exists>tf' s' q'. riscv_exception env tf s = Some (tf', s') \<and> kinv s' (insert i S) T q' \<and> curthread s' \<in> T \<and>
    runs s' (curthread s') \<and> tf' = td_tf (curtd s')"
  using assms by (rule post_isr.trap_keeps)

theorem trap_returns_to_runnable_thread_witness:
  "\<exists>tf' s'. riscv_exception kdemo_env 0 (upd_tf 0 (\<lambda>f. f\<lparr>tf_cause := 11\<rparr>) kdemo) = Some (tf', s') \<and>
     curthread s' \<in> {1, 2, 3, 100}"
proof -
  let ?s = "upd_tf 0 (\<lambda>f. f\<lparr>tf_cause := 11\<rparr>) kdemo"
  have "kinv ?s {0} {1, 2, 3, 100} kdemo_q" using kdemo_kinv by (simp only: kinv_trapframe)
  moreover have "excp_ok (tf_cause (trapframes ?s 0))" by (simp add: upd_tf_def excp_ok_def EXCP_MASK_def EXCP_INTR_def)
  ultimately show ?thesis using trap_returns_to_runnable_thread [of ?s 0 "{}", OF _ _ kdemo_env_sel] by blast
qed

section \<open>Scheduling order\<close>



section \<open>Semaphores\<close>

text \<open>C6. \<^verbatim>\<open>mdx_sem_post\<close> of the running thread returns 1. With no waiter it adds one to the
  count, an \<^verbatim>\<open>int\<close> that wraps around from \<open>2 ^ 31 - 1\<close>. Otherwise the count stays, the thread that has waited longest leaves the list, its timeout
  is cancelled, and it becomes the last thread of the run queue of its priority.\<close>

theorem sem_post_wakes_longest_waiter:
  assumes "kinv s S T q" and "running s" and "i \<in> S"
  shows "\<exists>s' q'. mdx_sem_post i s = Some (1, s') \<and> kinv s' S T q' \<and> posted s i q s' q' \<and>
    (case q (Sem_td_list i) of
       [] \<Rightarrow> (let c = sem_count (sems s i)
             in - (2 ^ 31) \<le> c \<and> c < 2 ^ 31 \<longrightarrow> sem_count (sems s' i) = (if c = 2 ^ 31 - 1 then - (2 ^ 31) else c + 1))
     | t # ts \<Rightarrow> \<not> active s' (Td_c t))"
proof -
  from post_step [OF assms] obtain s' q' where s': "mdx_sem_post i s = Some (1, s')" "kinv s' S T q'" "running s'"
    "posted s i q s' q'" "steady s s'" by blast
  moreover have "case q (Sem_td_list i) of
       [] \<Rightarrow> (let c = sem_count (sems s i)
             in - (2 ^ 31) \<le> c \<and> c < 2 ^ 31 \<longrightarrow> sem_count (sems s' i) = (if c = 2 ^ 31 - 1 then - (2 ^ 31) else c + 1))
     | t # ts \<Rightarrow> \<not> active s' (Td_c t)"
  proof (cases "q (Sem_td_list i)")
    case Nil
    then have "sem_count (sems s' i) = int_wrap (sem_count (sems s i) + 1)" using s'(4) by (simp add: posted_def)
    then show ?thesis using Nil int_wrap_succ [of "sem_count (sems s i)"] by (simp add: Let_def)
  next
    case (Cons t ts)
    note inv = kinv_running(1) [OF assms(1,2)] and inv' = kinv_running(1) [OF s'(2,3)]
    have T: "t \<in> T" using tinvD(2) [OF inv, of "Sem_td_list i"] assms(3) Cons by auto
    have q': "t \<in> set (q' (runq_of s t))" using s'(4) Cons by (auto simp: posted_def)
    have "nat (td_prio (threads s t)) < cfg_nprio s'" using tinvD(4) [OF inv T] s'(5) by (auto simp: prio_ok_def steady_def)
    from queued_ready(1) [OF inv' this q'] Cons show ?thesis
      by (auto simp: ready_in_def unarmed_def armed_def split: if_splits)
  qed
  ultimately show ?thesis by blast
qed

theorem sem_post_wakes_longest_waiter_witness:
  "\<exists>s' q'. mdx_sem_post 0 kdemo = Some (1, s') \<and> st s' 2 = TD_STATE_WAKEUP \<and> \<not> active s' (Td_c 2) \<and> q' (Runq 1) = [3, 2]"
  using sem_post_wakes_longest_waiter [OF kdemo_kinv kdemo_running(1), of 0]
  by (auto simp: posted_def kdemo_q_def kdemo_threads_def demo_thread_def)

text \<open>C5. No waiter is passed over: a thread with \<open>n\<close> threads before it on the list of a semaphore
  is woken by the \<open>n + 1\<close>-th post, and is then on the run queue of its priority.\<close>

theorem waiter_woken_after_posts:
  assumes "kinv s S T q" and "running s" and "i \<in> S" and "q (Sem_td_list i) = xs @ t # ys"
  shows "\<exists>s' q'. sem_posts (Suc (length xs)) i s = Some s' \<and> kinv s' S T q' \<and>
    q' (Sem_td_list i) = ys \<and> st s' t = TD_STATE_WAKEUP \<and> t \<in> set (q' (runq_of s' t))"
  using posts_reach [OF assms] by blast

theorem waiter_woken_after_posts_witness:
  "\<exists>s'. sem_posts 1 0 kdemo = Some s' \<and> st s' 2 = TD_STATE_WAKEUP"
  using waiter_woken_after_posts [OF kdemo_kinv kdemo_running(1), of 0 "[]" 2 "[]"] by (auto simp: kdemo_q_def)

text \<open>C8. \<^verbatim>\<open>mdx_sem_timedwait\<close> takes the semaphore at once when its count is positive, and otherwise puts
  the calling thread behind all waiters; the caller is then marked as waiting.\<close>

theorem sem_wait_outcome:
  assumes "kinv s S T q" and "running s" and "i \<in> S" and "usec = 0 \<or> mdx_callout_usec_to_ticks usec s \<noteq> None"
  shows "if sem_count (sems s i) > 0
    then \<exists>s'. mdx_sem_timedwait_enter i usec s = Some (Acquired, s') \<and> kinv s' S T q \<and>
      sems s' = (sems s)(i := (sems s i)\<lparr>sem_count := sem_count (sems s i) - 1\<rparr>)
    else \<exists>s'. mdx_sem_timedwait_enter i usec s = Some (Blocked, s') \<and> st s' (curthread s) = TD_STATE_SEM_WAIT \<and>
      kinv s' S T (q(Sem_td_list i := q (Sem_td_list i) @ [curthread s]))"
  using wait_step [OF assms(1-3)] assms(4) by blast

theorem sem_wait_outcome_witness:
  "\<exists>s'. mdx_sem_timedwait_enter 0 500 kdemo = Some (Blocked, s') \<and> st s' 1 = TD_STATE_SEM_WAIT"
proof -
  have "mdx_callout_usec_to_ticks 500 kdemo \<noteq> None"
    by (simp add: mdx_callout_usec_to_ticks_def demo_timer_def mdx_cputime_usec_to_ticks_1mhz_def)
  with sem_wait_outcome [OF kdemo_kinv kdemo_running(1), of 0 500]
  have "\<exists>s'. mdx_sem_timedwait_enter 0 500 kdemo = Some (Blocked, s') \<and> st s' (curthread kdemo) = TD_STATE_SEM_WAIT \<and>
      kinv s' {0} {1, 2, 3, 100} (kdemo_q(Sem_td_list 0 := kdemo_q (Sem_td_list 0) @ [curthread kdemo]))" by simp
  then show ?thesis unfolding kdemo_running(2) by blast
qed

text \<open>C33. A timed wait arms the callout of the waiting thread with \<^verbatim>\<open>mdx_sem_cb\<close> exactly when its time
  is not zero and converts to at least one tick. A shorter time is accepted and nothing is
  armed, so the thread waits without a timeout.\<close>

theorem sem_timeout_armed:
  assumes "csound s" and "in_critical s" and "crit_room s" and "\<not> cfg_smp s" and "\<not> active s (Td_c t)"
    and "mdx_callout_usec_to_ticks usec s = Some n"
  shows "\<exists>s'. sem_set_timeout t i usec s = Some s' \<and> csound s' \<and>
    armed s' (Td_c t) = (if usec = 0 \<or> n = 0 then None else Some (Some Sem_cb, Arg_token t))"
proof -
  have "armed s (Td_c t) = None" using assms(5) by (simp add: armed_def)
  from arm_timeout [OF assms(1-4) this, of usec i] assms(6) show ?thesis by force
qed

theorem sem_timeout_armed_witness:
  "\<exists>s'. sem_set_timeout 1 0 500 (critical_enter kdemo) = Some s' \<and> armed s' (Td_c 1) = Some (Some Sem_cb, Arg_token 1)"
proof -
  have "csound (critical_enter kdemo)" using kdemo_csound csound_cong [of "critical_enter kdemo" kdemo] by simp
  moreover have "in_critical (critical_enter kdemo)" "crit_room (critical_enter kdemo)"
    using kdemo_room critical_enter_in [of kdemo] by (auto simp: crit_room_def critical_enter_def Let_def kdemo_threads_def demo_thread_def)
  ultimately show ?thesis
    using sem_timeout_armed [of "critical_enter kdemo" 1 500 500 0]
    by (simp add: mdx_callout_usec_to_ticks_def demo_timer_def mdx_cputime_usec_to_ticks_1mhz_def demo_callout_def) blast
qed

section \<open>Yielding with a quantum\<close>

text \<open>C34. \<^verbatim>\<open>mdx_thread_yield\<close> does not cancel the callout of the quantum. A thread that yields before its
  quantum has ended leaves that callout queued with \<^verbatim>\<open>mdx_sched_cb\<close>, whose assertion that the thread
  is running fails as long as the thread is yielding.\<close>

theorem yield_leaves_quantum_queued:
  assumes "kinv s S T q" and "running s" and "active s (Td_c (curthread s))"
  shows "let t = curthread s; s' = mdx_thread_yield_enter s in
    st s' t = TD_STATE_YIELDING \<and> armed s' (Td_c t) = Some (Some Sched_cb, Arg_thread t) \<and>
    (\<forall>u. st u t = TD_STATE_YIELDING \<longrightarrow> kernel_call user Sched_cb (Arg_thread t) u = None)"
proof -
  let ?t = "curthread s"
  have "on_cpu s S q ?t" using tinvD(9) [OF kinv_running(1) [OF assms(1,2)]] by simp
  then have "armed s (Td_c ?t) = Some (Some Sched_cb, Arg_thread ?t)"
    using assms(3) by (auto simp: on_cpu_def unarmed_def armed_def split: if_splits)
  moreover have "mdx_thread_yield_enter s = set_td_state ?t TD_STATE_YIELDING (bracketed s)"
    by (simp add: mdx_thread_yield_enter_def crit_simps)
  moreover have "armed (bracketed s) = armed s" by (rule ext) (simp add: armed_def)
  moreover have "mdx_sched_cb ?t u = None" if "st u ?t = TD_STATE_YIELDING" for u :: "('c, 'd) kstate_scheme"
    using that by (cases "mdx_sched_lock u") (auto simp: mdx_sched_cb_def mdx_sched_lock_def sl_lock_def split: if_splits)
  ultimately show ?thesis by (simp add: Let_def)
qed

definition kdemo_slice :: "demo_hw kstate" where
  "kdemo_slice = kdemo\<lparr>cq := list_append (Callouts_list 0) (C_node (Td_c 1)) demo_heap,
     callouts := (\<lambda>c. demo_callout 0 0)(Td_c 1 :=
       (demo_callout 500 1)\<lparr>c_func := Some Sched_cb, c_arg := Arg_thread 1\<rparr>)\<rparr>"

lemma kdemo_slice_sel [simp]:
  "\<not> cfg_smp kdemo_slice" "cfg kdemo_slice = demo_cfg" "pcpu_id kdemo_slice = 0" "pc_curthread kdemo_slice = (\<lambda>k. 1)"
  "threads kdemo_slice = kdemo_threads"
  by (simp_all add: kdemo_slice_def)

lemma kdemo_slice_armed:
  "armed kdemo_slice c = (if c = Td_c 1 then Some (Some Sched_cb, Arg_thread 1) else None)"
  by (simp add: armed_def kdemo_slice_def demo_callout_def CALLOUT_FLAG_ACTIVE_def)

lemma kdemo_slice_csound: "csound kdemo_slice"
proof -
  have q: "queues demo_heap (cheads 1) (\<lambda>l. [])" by (auto simp: queues_def demo_heap_def)
  have "queues (list_append (Callouts_list 0) (C_node (Td_c 1)) demo_heap) (cheads 1)
      ((\<lambda>l. [])(Callouts_list 0 := [] @ [C_node (Td_c 1)]))"
    by (rule queues_append [OF q]) (auto simp: cheads_def)
  moreover have "cnodes (\<lambda>k. if k = 0 then [Td_c 1] else []) = (\<lambda>l. [])(Callouts_list 0 := [] @ [C_node (Td_c 1)])"
    (is "?c = ?r")
  proof
    show "?c l = ?r l" for l by (cases l) auto
  qed
  ultimately have "queues (cq kdemo_slice) (cheads (cfg_ncpu kdemo_slice)) (cnodes (\<lambda>k. if k = 0 then [Td_c 1] else []))"
    by (simp add: kdemo_slice_def)
  then have "cstruct kdemo_slice (\<lambda>k. if k = 0 then [Td_c 1] else [])"
    unfolding cstruct_def by (rule conjI) (simp add: kdemo_slice_def demo_callout_def CALLOUT_FLAG_ACTIVE_def)
  then show ?thesis using kdemo_csound by (auto simp: csound_def timer_ok_def kdemo_slice_def)
qed

lemma kdemo_slice_kinv: "kinv kdemo_slice {0} {1, 2, 3, 100} kdemo_q"
proof -
  have "callout_only {Td_c 1} kdemo kdemo_slice" by (simp add: callout_only_def callout_frame_def kdemo_slice_def)
  moreover have "on_cpu kdemo_slice {0} kdemo_q 1"
    using tinvD(9) [OF kdemo_places, of 1] by (simp add: on_cpu_def kdemo_slice_armed unqueued_def) (simp add: kdemo_slice_def kdemo_threads_def)
  ultimately have "tinv kdemo_slice {0} {1, 2, 3, 100} {1} kdemo_q" by (intro tinv_callout [OF kdemo_places, of 1 "Td_c 1"]) simp_all
  then show ?thesis using kdemo_slice_csound
    by (auto simp: kinv_def cur_ok_def kdemo_threads_def demo_thread_def demo_cfg_def)
qed

lemma kdemo_slice_running: "running kdemo_slice" "active kdemo_slice (Td_c (curthread kdemo_slice))"
  using kdemo_slice_armed [of "Td_c 1"] by (simp_all add: kdemo_threads_def armed_def split: if_splits)

theorem yield_leaves_quantum_queued_witness:
  "st (mdx_thread_yield_enter kdemo_slice) 1 = TD_STATE_YIELDING \<and>
   armed (mdx_thread_yield_enter kdemo_slice) (Td_c 1) = Some (Some Sched_cb, Arg_thread 1)"
  using yield_leaves_quantum_queued [OF kdemo_slice_kinv kdemo_slice_running, of "\<lambda>n a s. None"] by (auto simp: Let_def)

end
