(* ===== verification/Sync.thy ===== *)
theory Sync
  imports Thread
begin

text \<open>
  Mutexes (\<^verbatim>\<open>kernel/sched/mdx_mutex.c\<close>) and blocking queues (\<^verbatim>\<open>mdx_fifo.c\<close>), both built on
  semaphores, and the semaphores and sleeping of a kernel without scheduler
  (\<^verbatim>\<open>kernel/nosched/\<close>). Their structures extend the kernel state.
\<close>

datatype fnode = Fifo_list nat | F_node nat

record mdx_mutex =
  m_sem :: semid
  m_td :: "tid option"

record mdx_fifo =
  f_l :: nat
  f_sem :: semid

record 'h sstate = "'h kstate" +
  mutexes :: "nat \<Rightarrow> mdx_mutex"
  fifos :: "nat \<Rightarrow> mdx_fifo"
  fq :: "fnode heap"

definition upd_mutex :: "nat \<Rightarrow> (mdx_mutex \<Rightarrow> mdx_mutex) \<Rightarrow> ('h, 'x) sstate_scheme \<Rightarrow> ('h, 'x) sstate_scheme" where
  "upd_mutex i f s = s\<lparr>mutexes := (mutexes s)(i := f (mutexes s i))\<rparr>"

definition upd_fifo :: "nat \<Rightarrow> (mdx_fifo \<Rightarrow> mdx_fifo) \<Rightarrow> ('h, 'x) sstate_scheme \<Rightarrow> ('h, 'x) sstate_scheme" where
  "upd_fifo i f s = s\<lparr>fifos := (fifos s)(i := f (fifos s i))\<rparr>"

section \<open>Mutexes\<close>

definition mdx_mutex_init :: "nat \<Rightarrow> ('h, 'x) sstate_scheme \<Rightarrow> ('h, 'x) sstate_scheme" where
  "mdx_mutex_init m s = mdx_sem_init (m_sem (mutexes s m)) 1 (upd_mutex m (\<lambda>r. r\<lparr>m_td := None\<rparr>) s)"

text \<open>The lock is taken at once or, after blocking, when the thread \<open>td\<close> runs again.\<close>

definition mdx_mutex_timedlock_enter :: "nat \<Rightarrow> u32 \<Rightarrow> ('h, 'x) sstate_scheme \<Rightarrow>
    (wait_result \<times> ('h, 'x) sstate_scheme) option" where
  "mdx_mutex_timedlock_enter m usec s =
     do { (r, s) \<leftarrow> mdx_sem_timedwait_enter (m_sem (mutexes s m)) usec s;
          Some (r, if r = Acquired then upd_mutex m (\<lambda>x. x\<lparr>m_td := Some (curthread s)\<rparr>) s else s) }"

definition mdx_mutex_timedlock_resume :: "nat \<Rightarrow> u32 \<Rightarrow> ('h, 'x) sstate_scheme \<Rightarrow> int \<times> ('h, 'x) sstate_scheme" where
  "mdx_mutex_timedlock_resume m usec s =
     (let ret = mdx_sem_timedwait_resume (curthread s) usec s
      in (ret, if ret \<noteq> 0 then upd_mutex m (\<lambda>x. x\<lparr>m_td := Some (curthread s)\<rparr>) s else s))"

definition mdx_mutex_lock_enter :: "nat \<Rightarrow> ('h, 'x) sstate_scheme \<Rightarrow>
    (wait_result \<times> ('h, 'x) sstate_scheme) option" where
  "mdx_mutex_lock_enter m s =
     do { KASSERT (td_critnest (curtd s) = 0);
          (r, s) \<leftarrow> mdx_sem_wait_enter (m_sem (mutexes s m)) s;
          Some (r, if r = Acquired then upd_mutex m (\<lambda>x. x\<lparr>m_td := Some (curthread s)\<rparr>) s else s) }"

definition mdx_mutex_lock_resume :: "nat \<Rightarrow> ('h, 'x) sstate_scheme \<Rightarrow> ('h, 'x) sstate_scheme" where
  "mdx_mutex_lock_resume m s = upd_mutex m (\<lambda>x. x\<lparr>m_td := Some (curthread s)\<rparr>) s"

definition mdx_mutex_trylock :: "nat \<Rightarrow> ('h, 'x) sstate_scheme \<Rightarrow> (int \<times> ('h, 'x) sstate_scheme) option" where
  "mdx_mutex_trylock m s =
     do { (ret, s) \<leftarrow> mdx_sem_trywait (m_sem (mutexes s m)) s;
          Some (ret, if ret \<noteq> 0 then upd_mutex m (\<lambda>x. x\<lparr>m_td := Some (curthread s)\<rparr>) s else s) }"

definition mdx_mutex_unlock :: "nat \<Rightarrow> ('h, 'x) sstate_scheme \<Rightarrow> (int \<times> ('h, 'x) sstate_scheme) option" where
  "mdx_mutex_unlock m s =
     (if m_td (mutexes s m) \<noteq> Some (curthread s) then None
      else mdx_sem_post (m_sem (mutexes s m)) s)"

section \<open>Blocking queues\<close>

definition fifo_lock :: "nat \<Rightarrow> ('h, 'x) sstate_scheme \<Rightarrow> ('h, 'x) sstate_scheme option" where
  "fifo_lock f s = do { v \<leftarrow> sl_lock (f_l (fifos s f)); Some (upd_fifo f (\<lambda>r. r\<lparr>f_l := v\<rparr>) s) }"

definition fifo_unlock :: "nat \<Rightarrow> ('h, 'x) sstate_scheme \<Rightarrow> ('h, 'x) sstate_scheme option" where
  "fifo_unlock f s = do { v \<leftarrow> sl_unlock (f_l (fifos s f)); Some (upd_fifo f (\<lambda>r. r\<lparr>f_l := v\<rparr>) s) }"

definition mdx_fifo_init :: "nat \<Rightarrow> ('h, 'x) sstate_scheme \<Rightarrow> ('h, 'x) sstate_scheme" where
  "mdx_fifo_init f s =
     (let s = s\<lparr>fq := list_init (Fifo_list f) (fq s)\<rparr>;
          s = upd_fifo f (\<lambda>r. r\<lparr>f_l := sl_init\<rparr>) s
      in mdx_sem_init (f_sem (fifos s f)) 0 s)"

definition mdx_fifo_put :: "nat \<Rightarrow> fnode \<Rightarrow> ('h, 'x) sstate_scheme \<Rightarrow> ('h, 'x) sstate_scheme option" where
  "mdx_fifo_put f e s =
     do { let s = critical_enter s;
          s \<leftarrow> fifo_lock f s;
          let s = s\<lparr>fq := list_append (Fifo_list f) e (fq s)\<rparr>;
          s \<leftarrow> fifo_unlock f s;
          let s = critical_exit s;
          (_, s) \<leftarrow> mdx_sem_post (f_sem (fifos s f)) s;
          Some s }"

text \<open>The tail of the two take operations, once the semaphore is acquired.\<close>

definition fifo_take :: "nat \<Rightarrow> ('h, 'x) sstate_scheme \<Rightarrow> (fnode \<times> ('h, 'x) sstate_scheme) option" where
  "fifo_take f s =
     do { let s = critical_enter s;
          s \<leftarrow> fifo_lock f s;
          let e = nextp (fq s) (Fifo_list f);
          let s = s\<lparr>fq := list_remove e (fq s)\<rparr>;
          s \<leftarrow> fifo_unlock f s;
          Some (e, critical_exit s) }"

definition mdx_fifo_get_wait_enter :: "nat \<Rightarrow> ('h, 'x) sstate_scheme \<Rightarrow>
    (fnode option \<times> ('h, 'x) sstate_scheme) option" where
  "mdx_fifo_get_wait_enter f s =
     do { (r, s) \<leftarrow> mdx_sem_wait_enter (f_sem (fifos s f)) s;
          if r = Acquired then do { (e, s) \<leftarrow> fifo_take f s; Some (Some e, s) }
          else Some (None, s) }"

definition mdx_fifo_get_wait_resume :: "nat \<Rightarrow> ('h, 'x) sstate_scheme \<Rightarrow> (fnode \<times> ('h, 'x) sstate_scheme) option" where
  "mdx_fifo_get_wait_resume f s = fifo_take f s"

definition mdx_fifo_get :: "nat \<Rightarrow> ('h, 'x) sstate_scheme \<Rightarrow> (fnode option \<times> ('h, 'x) sstate_scheme) option" where
  "mdx_fifo_get f s =
     do { (r, s) \<leftarrow> mdx_sem_trywait (f_sem (fifos s f)) s;
          if r = 0 then Some (None, s)
          else do { (e, s) \<leftarrow> fifo_take f s; Some (Some e, s) } }"

section \<open>Without a scheduler\<close>

definition ns_sem_init :: "semid \<Rightarrow> int \<Rightarrow> ('h, 'x) kstate_scheme \<Rightarrow> ('h, 'x) kstate_scheme" where
  "ns_sem_init i count s = upd_sem i (\<lambda>r. r\<lparr>sem_count := count, sem_count_initial := count\<rparr>) s"

definition ns_sem_cb :: "tid \<Rightarrow> ('h, 'x) kstate_scheme \<Rightarrow> ('h, 'x) kstate_scheme option" where
  "ns_sem_cb w s =
     do { KASSERT (in_critical s);
          Some (s\<lparr>tokens := (tokens s)(w := (tokens s w)\<lparr>t_timeout := True\<rparr>)\<rparr>) }"

text \<open>The waiting loop. \<^verbatim>\<open>cpu_idle()\<close> only stops the CPU, with interrupts disabled; the pending
  interrupts are taken where the critical section ends, and \<open>intrs\<close> is their effect on the state.
  A thread that waits without a timeout for a semaphore that is never posted stays in the loop.\<close>

partial_function (option) ns_sem_loop :: "(('h, 'x) kstate_scheme \<Rightarrow> ('h, 'x) kstate_scheme option) \<Rightarrow>
    semid \<Rightarrow> u32 \<Rightarrow> bool \<Rightarrow> ('h, 'x) kstate_scheme \<Rightarrow> (int \<times> ('h, 'x) kstate_scheme) option" where
  "ns_sem_loop intrs i usec configured s =
     (let td = curthread s; s = critical_enter s in
      if sem_count (sems s i) > 0 then
        do { let s = upd_sem i (\<lambda>r. r\<lparr>sem_count := sem_count r - 1\<rparr>) s;
             s \<leftarrow> (if configured then map_option snd (mdx_callout_cancel (Td_c td) s) else Some s);
             Some (1, critical_exit s) }
      else if usec \<noteq> 0 \<and> configured \<and> t_timeout (tokens s td) then Some (0, critical_exit s)
      else
        do { s \<leftarrow> (if usec \<noteq> 0 \<and> \<not> configured then
                   do { let s = s\<lparr>tokens := (tokens s)(td := \<lparr>t_td = td, t_sem = i, t_timeout = False\<rparr>)\<rparr>;
                        let s = mdx_callout_init (Td_c td) s;
                        (_, s) \<leftarrow> mdx_callout_set (Td_c td) usec (Some Sem_cb) (Arg_token td) s;
                        Some s }
                  else Some s);
             s \<leftarrow> intrs (critical_exit s);
             ns_sem_loop intrs i usec (configured \<or> usec \<noteq> 0) s })"

definition ns_sem_timedwait :: "(('h, 'x) kstate_scheme \<Rightarrow> ('h, 'x) kstate_scheme option) \<Rightarrow>
    semid \<Rightarrow> u32 \<Rightarrow> ('h, 'x) kstate_scheme \<Rightarrow> (int \<times> ('h, 'x) kstate_scheme) option" where
  "ns_sem_timedwait intrs i usec s =
     do { KASSERT (\<not> td_idle (curtd s)); ns_sem_loop intrs i usec False s }"

definition ns_sem_wait :: "(('h, 'x) kstate_scheme \<Rightarrow> ('h, 'x) kstate_scheme option) \<Rightarrow>
    semid \<Rightarrow> ('h, 'x) kstate_scheme \<Rightarrow> ('h, 'x) kstate_scheme option" where
  "ns_sem_wait intrs i s = map_option snd (ns_sem_timedwait intrs i 0 s)"

definition ns_sem_trywait :: "semid \<Rightarrow> ('h, 'x) kstate_scheme \<Rightarrow> int \<times> ('h, 'x) kstate_scheme" where
  "ns_sem_trywait i s =
     (let s = critical_enter s;
          (ret, s) = (if sem_count (sems s i) > 0
                      then (1, upd_sem i (\<lambda>r. r\<lparr>sem_count := sem_count r - 1\<rparr>) s) else (0, s))
      in (ret, critical_exit s))"

definition ns_sem_post :: "semid \<Rightarrow> ('h, 'x) kstate_scheme \<Rightarrow> int \<times> ('h, 'x) kstate_scheme" where
  "ns_sem_post i s =
     (let s = critical_enter s
      in (1, critical_exit (upd_sem i (\<lambda>r. r\<lparr>sem_count := int_wrap (sem_count r + 1)\<rparr>) s)))"

definition ns_tsleep_cb :: "tid \<Rightarrow> ('h, 'x) kstate_scheme \<Rightarrow> ('h, 'x) kstate_scheme option" where
  "ns_tsleep_cb td s = do { KASSERT (in_critical s); Some (set_td_state td TD_STATE_READY s) }"

text \<open>The loop of the code for other targets than QEMU's MIPS.\<close>

partial_function (option) ns_tsleep_loop :: "(('h, 'x) kstate_scheme \<Rightarrow> ('h, 'x) kstate_scheme option) \<Rightarrow>
    cptr \<Rightarrow> ('h, 'x) kstate_scheme \<Rightarrow> ('h, 'x) kstate_scheme option" where
  "ns_tsleep_loop intrs c s =
     (let s = critical_enter s in
      if c_state (callouts s c) = CALLOUT_STATE_FIRED then Some (critical_exit s)
      else do { s \<leftarrow> intrs (critical_exit s); ns_tsleep_loop intrs c s })"

definition ns_tsleep :: "(('h, 'x) kstate_scheme \<Rightarrow> ('h, 'x) kstate_scheme option) \<Rightarrow> u32 \<Rightarrow>
    ('h, 'x) kstate_scheme \<Rightarrow> ('h, 'x) kstate_scheme option" where
  "ns_tsleep intrs ticks s =
     do { let td = curthread s;
          KASSERT (\<not> td_idle (threads s td));
          KASSERT (td_critnest (threads s td) = 0);
          let s = mdx_callout_init (Stack_c td) s;
          (_, s) \<leftarrow> mdx_callout_set_ticks (Stack_c td) ticks (Some Tsleep_cb) (Arg_thread td) s;
          ns_tsleep_loop intrs (Stack_c td) s }"

definition ns_usleep :: "(('h, 'x) kstate_scheme \<Rightarrow> ('h, 'x) kstate_scheme option) \<Rightarrow> u32 \<Rightarrow>
    ('h, 'x) kstate_scheme \<Rightarrow> ('h, 'x) kstate_scheme option" where
  "ns_usleep intrs usec s =
     do { ticks \<leftarrow> mdx_callout_usec_to_ticks usec s; ns_tsleep intrs ticks s }"

end
