(* ===== verification/Freelist_List.thy ===== *)
theory Freelist_List
  imports Freelist
begin

text \<open>
  The chain of free blocks of \<^verbatim>\<open>kernel/malloc/mdx_freelist.c\<close>: the 32 list heads in their order, each
  followed by the free blocks of its size class, smallest first, linked in both directions. Adding
  and removing a node keep this order, and the search of \<^verbatim>\<open>malloc\<close> finds the smallest block that
  is large enough.
\<close>

section \<open>Segments of the chain\<close>

fun lseg :: "fl_mem \<Rightarrow> nat list \<Rightarrow> bool" where
  "lseg m [] \<longleftrightarrow> True"
| "lseg m [x] \<longleftrightarrow> True"
| "lseg m (x # y # xs) \<longleftrightarrow> nx m x = y \<and> pv m y = x \<and> lseg m (y # xs)"

definition hd0 :: "nat list \<Rightarrow> nat" where
  "hd0 xs = (case xs of [] \<Rightarrow> 0 | x # _ \<Rightarrow> x)"

lemma hd0_simps [simp]: "hd0 [] = 0" "hd0 (x # xs) = x"
  by (simp_all add: hd0_def)

lemma hd0_append: "hd0 (xs @ ys) = (if xs = [] then hd0 ys else hd xs)"
  by (cases xs) simp_all

definition linked :: "fl_mem \<Rightarrow> nat list \<Rightarrow> bool" where
  "linked m xs \<longleftrightarrow> lseg m xs \<and> (xs \<noteq> [] \<longrightarrow> nx m (last xs) = 0)"

lemma lseg_append:
  "lseg m (xs @ ys) \<longleftrightarrow> lseg m xs \<and> lseg m ys \<and> (xs \<noteq> [] \<longrightarrow> ys \<noteq> [] \<longrightarrow> nx m (last xs) = hd ys \<and> pv m (hd ys) = last xs)"
proof (induction m xs rule: lseg.induct)
  case (2 m x)
  then show ?case by (cases ys) auto
qed auto

lemma lseg_cong:
  "(\<And>x. x \<in> set (butlast xs) \<Longrightarrow> nx m' x = nx m x) \<Longrightarrow> (\<And>x. x \<in> set (tl xs) \<Longrightarrow> pv m' x = pv m x) \<Longrightarrow> lseg m' xs = lseg m xs"
proof (induction m xs rule: lseg.induct)
  case (3 m x y xs)
  have "lseg m' (y # xs) = lseg m (y # xs)"
    by (rule "3.IH") (use "3.prems" in \<open>auto split: if_splits\<close>)
  then show ?case using "3.prems"(1) [of x] "3.prems"(2) [of y] by simp
qed simp_all

lemma in_set_tlD: "x \<in> set (tl xs) \<Longrightarrow> x \<in> set xs"
  by (cases xs) auto

lemma linked_Cons: "linked m (x # xs) \<longleftrightarrow> nx m x = hd0 xs \<and> (xs \<noteq> [] \<longrightarrow> pv m (hd xs) = x) \<and> linked m xs"
  by (cases xs) (auto simp: linked_def)

lemma linked_append:
  "linked m (xs @ ys) \<longleftrightarrow> lseg m xs \<and> linked m ys \<and>
     (xs \<noteq> [] \<longrightarrow> nx m (last xs) = hd0 ys \<and> (ys \<noteq> [] \<longrightarrow> pv m (hd ys) = last xs))"
  by (cases ys) (auto simp: linked_def lseg_append)

lemma linked_cong:
  "(\<And>x. x \<in> set xs \<Longrightarrow> nx m' x = nx m x) \<Longrightarrow> (\<And>x. x \<in> set xs \<Longrightarrow> pv m' x = pv m x) \<Longrightarrow> linked m' xs = linked m xs"
  using lseg_cong [of xs m' m] by (cases "xs = []") (auto simp: linked_def dest: in_set_butlastD list.set_sel(2))

section \<open>Changing the chain\<close>

text \<open>An operation on the lists writes links only, and only those of the nodes in \<open>A\<close>.\<close>

definition links_only :: "nat set \<Rightarrow> fl_mem \<Rightarrow> fl_mem \<Rightarrow> bool" where
  "links_only A m m' \<longleftrightarrow> sz m' = sz m \<and> fg m' = fg m \<and> dat m' = dat m
     \<and> (\<forall>x. x \<notin> A \<longrightarrow> nx m' x = nx m x \<and> pv m' x = pv m x)"

lemma links_onlyD: "links_only A m m' \<Longrightarrow> sz m' = sz m" "links_only A m m' \<Longrightarrow> fg m' = fg m" "links_only A m m' \<Longrightarrow> dat m' = dat m"
  "links_only A m m' \<Longrightarrow> x \<notin> A \<Longrightarrow> nx m' x = nx m x" "links_only A m m' \<Longrightarrow> x \<notin> A \<Longrightarrow> pv m' x = pv m x"
  by (simp_all add: links_only_def)

lemma links_only_mono: "links_only A m m' \<Longrightarrow> A \<subseteq> A' \<Longrightarrow> links_only A' m m'"
  by (auto simp: links_only_def)

lemma set_sel [simp]:
  "nx (set_nx a v m) = (nx m)(a := v)" "pv (set_nx a v m) = pv m" "sz (set_nx a v m) = sz m" "fg (set_nx a v m) = fg m" "dat (set_nx a v m) = dat m"
  "nx (set_pv a v m) = nx m" "pv (set_pv a v m) = (pv m)(a := v)" "sz (set_pv a v m) = sz m" "fg (set_pv a v m) = fg m" "dat (set_pv a v m) = dat m"
  "nx (set_sz a s m) = nx m" "pv (set_sz a s m) = pv m" "sz (set_sz a s m) = (sz m)(a := s)" "fg (set_sz a s m) = fg m" "dat (set_sz a s m) = dat m"
  "nx (set_fg a s m) = nx m" "pv (set_fg a s m) = pv m" "sz (set_fg a s m) = sz m" "fg (set_fg a s m) = (fg m)(a := s)" "dat (set_fg a s m) = dat m"
  by (simp_all add: set_nx_def set_pv_def set_sz_def set_fg_def)

lemma unlink_chain:
  assumes "linked m (xs @ p # node # ys)" "distinct (xs @ p # node # ys)" "0 \<notin> set (node # ys)"
  shows "linked (fl_unlink node m) (xs @ p # ys)" "links_only (set (p # ys)) m (fl_unlink node m)"
proof -
  have c: "lseg m (xs @ [p])" "linked m ys" "pv m node = p" "nx m node = hd0 ys" "ys \<noteq> [] \<Longrightarrow> pv m (hd ys) = node"
    using assms(1) linked_append [of m "xs @ [p]" "node # ys"] by (auto simp: linked_Cons)
  let ?m = "fl_unlink node m"
  have m: "nx ?m = (nx m)(p := hd0 ys)" "pv ?m = (if ys = [] then pv m else (pv m)(hd ys := p))"
    "sz ?m = sz m" "fg ?m = fg m" "dat ?m = dat m"
    using c assms(2,3) by (cases ys; auto simp: fl_unlink_def Let_def)+
  have "lseg ?m (xs @ [p]) = lseg m (xs @ [p])"
  proof (rule lseg_cong)
    show "nx ?m x = nx m x" if "x \<in> set (butlast (xs @ [p]))" for x using that assms(2) by (auto simp: m)
    show "pv ?m x = pv m x" if "x \<in> set (tl (xs @ [p]))" for x
      using in_set_tlD [OF that] assms(2) by (cases ys) (auto simp: m)
  qed
  moreover have "linked ?m ys"
  proof (cases ys)
    case (Cons y zs)
    then have "linked ?m zs = linked m zs" using assms(2) by (intro linked_cong) (auto simp: m)
    moreover have "nx ?m y = nx m y" "zs \<noteq> [] \<Longrightarrow> pv ?m (hd zs) = pv m (hd zs)"
      using Cons assms(2) by (auto simp: m hd_in_set)
    ultimately show ?thesis using c(2) Cons by (simp add: linked_Cons)
  qed (simp add: linked_def)
  ultimately show "linked ?m (xs @ p # ys)"
    using c(1) linked_append [of ?m "xs @ [p]" ys] by (simp add: m)
  show "links_only (set (p # ys)) m ?m"
    by (cases ys) (auto simp: links_only_def m)
qed

lemma link_chain:
  assumes "linked m (xs @ p # ys)" "distinct (xs @ p # ys)" "0 \<notin> set ys" "node \<notin> set (xs @ p # ys)"
  defines "m' \<equiv> (let m = set_nx p node m; m = set_pv node p m; m = set_nx node (hd0 ys) m
                  in if hd0 ys \<noteq> 0 then set_pv (hd0 ys) node m else m)"
  shows "linked m' (xs @ p # node # ys)" "links_only (set (p # node # ys)) m m'"
proof -
  have c: "lseg m (xs @ [p])" "linked m ys"
    using assms(1) linked_append [of m "xs @ [p]" ys] by auto
  have m: "nx m' = (nx m)(p := node, node := hd0 ys)"
    "pv m' = (if ys = [] then (pv m)(node := p) else (pv m)(node := p, hd ys := node))"
    "sz m' = sz m" "fg m' = fg m" "dat m' = dat m"
    using assms(3,4) by (cases ys; auto simp: m'_def Let_def)+
  have "lseg m' (xs @ [p]) = lseg m (xs @ [p])"
  proof (rule lseg_cong)
    show "nx m' x = nx m x" if "x \<in> set (butlast (xs @ [p]))" for x using that assms(2,4) by (auto simp: m)
    show "pv m' x = pv m x" if "x \<in> set (tl (xs @ [p]))" for x
      using in_set_tlD [OF that] assms(2,4) by (cases ys) (auto simp: m)
  qed
  moreover have "linked m' ys"
  proof (cases ys)
    case (Cons y zs)
    then have "linked m' zs = linked m zs" using assms(2,4) by (intro linked_cong) (auto simp: m)
    moreover have "nx m' y = nx m y" "zs \<noteq> [] \<Longrightarrow> pv m' (hd zs) = pv m (hd zs)"
      using Cons assms(2,4) by (auto simp: m hd_in_set)
    ultimately show ?thesis using c(2) Cons by (simp add: linked_Cons)
  qed (simp add: linked_def)
  ultimately have "linked m' (node # ys)" "lseg m' (xs @ [p])"
    using c assms(4) by (auto simp: linked_Cons m)
  moreover have "nx m' p = node" "pv m' node = p" using assms(4) by (cases ys; simp add: m)+
  ultimately show "linked m' (xs @ p # node # ys)"
    using linked_append [of m' "xs @ [p]" "node # ys"] by simp
  show "links_only (set (p # node # ys)) m m'"
    by (cases ys) (auto simp: links_only_def m)
qed

section \<open>Searching\<close>

lemma add_node_loop_eq:
  assumes "linked m (prev # xs @ ys)" "0 \<notin> set (xs @ ys)" "\<forall>x \<in> set xs. sz m x \<noteq> 0" "ys \<noteq> [] \<longrightarrow> sz m (hd ys) = 0"
  shows "\<exists>us vs. xs = us @ vs \<and> add_node_loop n m prev (nx m prev) = Some (last (prev # us), hd0 (vs @ ys))
    \<and> (\<forall>x \<in> set us. sz m x < n) \<and> (vs \<noteq> [] \<longrightarrow> n \<le> sz m (hd vs))"
  using assms
proof (induction xs arbitrary: prev)
  case Nil
  then show ?case
    by (intro exI [of _ "[]"]) (subst add_node_loop.simps, cases ys, auto simp: linked_Cons)
next
  case (Cons x xs)
  have x: "nx m prev = x" "x \<noteq> 0" "sz m x \<noteq> 0" "linked m (x # xs @ ys)" using Cons.prems by (auto simp: linked_Cons)
  show ?case
  proof (cases "sz m x < n")
    case True
    obtain us vs where "xs = us @ vs" "add_node_loop n m x (nx m x) = Some (last (x # us), hd0 (vs @ ys))"
      "\<forall>x \<in> set us. sz m x < n" "vs \<noteq> [] \<longrightarrow> n \<le> sz m (hd vs)"
      using Cons.IH [OF x(4)] Cons.prems by auto
    then show ?thesis using True x
      by (intro exI [of _ "x # us"] exI [of _ vs]) (subst add_node_loop.simps, simp)
  next
    case False
    then show ?thesis using x
      by (intro exI [of _ "[]"] exI [of _ "x # xs"]) (subst add_node_loop.simps, auto simp: not_less)
  qed
qed

lemma fl_search_eq:
  "linked m xs \<Longrightarrow> 0 \<notin> set xs \<Longrightarrow> fl_search n m (hd0 xs) = Some (hd0 (dropWhile (\<lambda>x. sz m x < n) xs))"
proof (induction xs)
  case Nil
  then show ?case by (subst fl_search.simps) simp
next
  case (Cons x xs)
  then show ?case by (subst fl_search.simps) (auto simp: linked_Cons)
qed

section \<open>Size classes\<close>

declare size2i_loop.simps [simp del]

lemma size2i_loop_bounds:
  "n \<noteq> 0 \<Longrightarrow> \<exists>k. size2i_loop n i = i + k \<and> 2 ^ k \<le> unat n \<and> unat n < 2 ^ Suc k"
proof (induction n i rule: size2i_loop.induct)
  case (1 n i)
  show ?case
  proof (cases "n > 1")
    case True
    then have n: "1 < unat n" by (simp add: word_less_unat)
    have h: "unat (drop_bit 1 n) = unat n div 2" using unat_drop_bit [of 1 n] by simp
    then have "drop_bit 1 n \<noteq> 0" using n by (metis div_greater_zero_iff less_2_cases_iff not_less unat_0 less_numeral_extra(3) Suc_1 Suc_leI)
    then obtain k where k: "size2i_loop (drop_bit 1 n) (i + 1) = i + 1 + k" "2 ^ k \<le> unat n div 2" "unat n div 2 < 2 ^ Suc k"
      using "1.IH" [OF True] h by auto
    then have "2 ^ Suc k \<le> unat n" "unat n < 2 ^ Suc (Suc k)" by auto
    then show ?thesis using k(1) True by (intro exI [of _ "Suc k"]) (simp add: size2i_loop.simps [of n])
  next
    case False
    then have "unat n = 1" using "1.prems" by (simp add: word_less_unat unat_eq_zero [symmetric] del: unat_eq_zero) 
    then show ?thesis using False by (intro exI [of _ 0]) (simp add: size2i_loop.simps [of n])
  qed
qed

lemma size2i_bounds:
  assumes "16 \<le> unat n"
  shows "2 ^ (size2i n + 4) \<le> unat n" "unat n < 2 ^ (size2i n + 5)"
proof -
  have d: "unat (drop_bit 4 n) = unat n div 16" using unat_drop_bit [of 4 n] by simp
  then have "drop_bit 4 n \<noteq> 0" using assms by (metis div_greater_zero_iff unat_0 less_numeral_extra(3) zero_less_numeral)
  then obtain k where k: "size2i n = k" "2 ^ k \<le> unat n div 16" "unat n div 16 < 2 ^ Suc k"
    using size2i_loop_bounds [of "drop_bit 4 n" 0] d by (auto simp: size2i_def)
  have "2 ^ k * 16 \<le> unat n" using k(2) by (simp add: less_eq_div_iff_mult_less_eq)
  moreover have "unat n < 2 ^ Suc k * 16" using k(3) by (simp add: div_less_iff_less_mult)
  ultimately show "2 ^ (size2i n + 4) \<le> unat n" "unat n < 2 ^ (size2i n + 5)" by (simp_all add: k(1) power_add)
qed

lemma size2i_less:
  assumes "16 \<le> unat n"
  shows "size2i n < 32"
proof -
  have "(2::nat) ^ (size2i n + 4) < 2 ^ 32" by (rule le_less_trans [OF size2i_bounds(1) [OF assms]]) simp
  then have "size2i n + 4 < 32" by (rule power_less_imp_less_exp [rotated]) simp
  then show ?thesis by simp
qed

lemma size2i_mono:
  assumes "16 \<le> unat a" "a \<le> b"
  shows "size2i a \<le> size2i b"
proof -
  have "unat a \<le> unat b" using assms(2) by (simp add: word_le_unat)
  then have "(2::nat) ^ (size2i a + 4) < 2 ^ (size2i b + 5)"
    using size2i_bounds(1) [OF assms(1)] size2i_bounds(2) [of b] assms(1) by (meson le_less_trans le_trans)
  then have "size2i a + 4 < size2i b + 5" by (rule power_less_imp_less_exp [rotated]) simp
  then show ?thesis by simp
qed

section \<open>The free lists of a zone\<close>

definition flist :: "nat \<Rightarrow> (nat \<Rightarrow> nat list) \<Rightarrow> nat \<Rightarrow> nat \<Rightarrow> nat list" where
  "flist z C a b = concat (map (\<lambda>i. nodelist z i # C i) [a..<b])"

lemma flist_split:
  assumes "a \<le> i" "i < b"
  shows "flist z C a b = flist z C a i @ nodelist z i # C i @ flist z C (Suc i) b"
proof -
  have "[a..<b] = [a..<i] @ i # [Suc i..<b]" using upt_add_eq_append [of a i "b - i"] upt_conv_Cons [of i b] assms by simp
  then show ?thesis by (simp add: flist_def)
qed

lemma flist_upd: "i < a \<or> b \<le> i \<Longrightarrow> flist z (C(i := xs)) a b = flist z C a b"
  unfolding flist_def by (intro arg_cong [where f = concat] map_cong) auto

lemma set_flist: "set (flist z C a b) = (\<Union>i \<in> {a..<b}. insert (nodelist z i) (set (C i)))"
  by (auto simp: flist_def)

lemma nodelist_inj [simp]: "nodelist z i = nodelist z j \<longleftrightarrow> i = j"
  by (simp add: nodelist_def NODE_S_def)

definition heads :: "nat \<Rightarrow> nat set" where
  "heads z = nodelist z ` {..<32}"

definition classes :: "fl_mem \<Rightarrow> nat set \<Rightarrow> (nat \<Rightarrow> nat list) \<Rightarrow> bool" where
  "classes m F C \<longleftrightarrow> (\<forall>i < 32. set (C i) = {a \<in> F. size2i (sz m a) = i} \<and> distinct (C i) \<and> sorted_wrt (\<lambda>a b. sz m a \<le> sz m b) (C i))"

definition free_nodes :: "nat \<Rightarrow> fl_mem \<Rightarrow> nat set \<Rightarrow> bool" where
  "free_nodes z m F \<longleftrightarrow> z \<noteq> 0 \<and> 0 \<notin> F \<and> (\<forall>i < 32. sz m (nodelist z i) = 0) \<and> (\<forall>a \<in> F. 16 \<le> unat (sz m a))"

definition free_lists :: "nat \<Rightarrow> fl_mem \<Rightarrow> nat set \<Rightarrow> bool" where
  "free_lists z m F \<longleftrightarrow> free_nodes z m F \<and> (\<exists>C. classes m F C \<and> linked m (flist z C 0 32))"

lemma free_nodes_head: "free_nodes z m F \<Longrightarrow> i < 32 \<Longrightarrow> nodelist z i \<notin> F"
  by (auto simp: free_nodes_def)

lemma set_flist_F:
  assumes "free_nodes z m F" "classes m F C"
  shows "set (flist z C 0 32) = heads z \<union> F"
proof -
  have "a \<in> set (C (size2i (sz m a)))" "size2i (sz m a) < 32" if "a \<in> F" for a
    using assms that by (auto simp: free_nodes_def classes_def size2i_less)
  moreover have "set (C i) \<subseteq> F" if "i < 32" for i using assms(2) that by (auto simp: classes_def)
  ultimately show ?thesis by (fastforce simp: set_flist heads_def)
qed

lemma distinct_flist:
  assumes "free_nodes z m F" "classes m F C" "b \<le> 32"
  shows "distinct (flist z C 0 b)"
  using assms(3)
proof (induction b)
  case (Suc b)
  have h: "nodelist z j \<notin> set (C i)" if "i < 32" "j < 32" for i j
    using assms(1,2) that free_nodes_head [of z m F j] by (auto simp: classes_def)
  have d: "set (C i) \<inter> set (C j) = {}" if "i < 32" "j < 32" "i \<noteq> j" for i j
    using assms(2) that by (auto simp: classes_def)
  have "distinct (nodelist z b # C b)" using h Suc.prems assms(2) by (simp add: classes_def)
  moreover have "set (flist z C 0 b) \<inter> set (nodelist z b # C b) = {}"
  proof -
    have False if x: "x \<in> set (flist z C 0 b)" "x \<in> set (nodelist z b # C b)" for x
    proof -
      obtain i where "i < b" "x = nodelist z i \<or> x \<in> set (C i)" using x(1) by (auto simp: set_flist)
      then show False using x(2) h [of b i] h [of i b] d [of i b] Suc.prems by auto
    qed
    then show ?thesis by blast
  qed
  moreover have "flist z C 0 (Suc b) = flist z C 0 b @ (nodelist z b # C b)" by (simp add: flist_def)
  ultimately show ?case using Suc by simp
qed (simp add: flist_def)

lemma free_lists_zero:
  assumes "free_nodes z m F" "classes m F C"
  shows "0 \<notin> set (flist z C 0 32)"
  using assms(1) by (auto simp: set_flist_F [OF assms] heads_def free_nodes_def nodelist_def)

lemma flist_sorted:
  assumes "free_nodes z m F" "classes m F C" "b \<le> 32"
  shows "sorted_wrt (\<lambda>x y. sz m y = 0 \<or> sz m x \<le> sz m y) (flist z C a b)"
  using assms(3)
proof (induction b)
  case (Suc b)
  show ?case
  proof (cases "a \<le> b")
    case True
    have e: "flist z C a (Suc b) = flist z C a b @ nodelist z b # C b" using True by (simp add: flist_def)
    have z: "sz m (nodelist z i) = 0" if "i < 32" for i using assms(1) that by (simp add: free_nodes_def)
    have c: "x \<in> F \<and> size2i (sz m x) = i" if "x \<in> set (C i)" "i < 32" for i x using assms(2) that by (auto simp: classes_def)
    have "sz m y = 0 \<or> sz m x \<le> sz m y" if xy: "x \<in> set (flist z C a b)" "y \<in> set (nodelist z b # C b)" for x y
    proof -
      obtain i where i: "i < b" "x = nodelist z i \<or> x \<in> set (C i)" using xy(1) by (auto simp: set_flist)
      show ?thesis
      proof (cases "y = nodelist z b \<or> x = nodelist z i")
        case True
        then show ?thesis using z [of b] z [of i] i Suc.prems by auto
      next
        case False
        then have "x \<in> F" "y \<in> F" "size2i (sz m x) = i" "size2i (sz m y) = b"
          using c [of x i] c [of y b] i xy(2) Suc.prems by auto
        then show ?thesis
          using size2i_mono [of "sz m y" "sz m x"] i(1) assms(1) by (fastforce simp: free_nodes_def)
      qed
    qed
    moreover have "sorted_wrt (\<lambda>x y. sz m y = 0 \<or> sz m x \<le> sz m y) (nodelist z b # C b)"
    proof -
      have "sorted_wrt (\<lambda>x y. sz m x \<le> sz m y) (C b)" using assms(2) Suc.prems by (simp add: classes_def)
      then have "sorted_wrt (\<lambda>x y. sz m y = 0 \<or> sz m x \<le> sz m y) (C b)" by (rule sorted_wrt_mono_rel [rotated]) simp
      then show ?thesis using z [of b] Suc.prems by simp
    qed
    ultimately show ?thesis using Suc e by (simp add: sorted_wrt_append)
  qed (simp add: flist_def)
qed (simp add: flist_def)

lemma sorted_wrt_dropWhile: "sorted_wrt R xs \<Longrightarrow> sorted_wrt R (dropWhile P xs)"
  by (induction xs) auto

text \<open>The search of \<^verbatim>\<open>malloc\<close> gives a smallest free block that is large enough, or 0 if there is none.\<close>

lemma search_ok:
  assumes "free_lists z m F" "16 \<le> unat n"
  obtains r where "fl_search n m (nx m (nodelist z (size2i n))) = Some r"
    "(r = 0 \<and> (\<forall>a \<in> F. sz m a < n)) \<or> (r \<in> F \<and> n \<le> sz m r \<and> (\<forall>a \<in> F. n \<le> sz m a \<longrightarrow> sz m r \<le> sz m a))"
proof -
  obtain C where fn: "free_nodes z m F" and cl: "classes m F C" and ch: "linked m (flist z C 0 32)"
    using assms(1) by (auto simp: free_lists_def)
  let ?i = "size2i n"
  let ?rest = "C ?i @ flist z C (Suc ?i) 32"
  have i: "?i < 32" by (rule size2i_less [OF assms(2)])
  have sp: "flist z C 0 32 = flist z C 0 ?i @ nodelist z ?i # ?rest" using i by (intro flist_split) simp_all
  have rest: "linked m ?rest" "nx m (nodelist z ?i) = hd0 ?rest" "0 \<notin> set ?rest"
    using ch free_lists_zero [OF fn cl] unfolding sp by (simp_all add: linked_append linked_Cons del: append_assoc)
  have sorted: "sorted_wrt (\<lambda>x y. sz m y = 0 \<or> sz m x \<le> sz m y) ?rest"
    using flist_sorted [OF fn cl, of 32 0] unfolding sp by (simp add: sorted_wrt_append)
  have big: "a \<in> set ?rest" if "a \<in> F" "n \<le> sz m a" for a
  proof -
    have k: "?i \<le> size2i (sz m a)" "size2i (sz m a) < 32"
      using size2i_mono [OF assms(2) that(2)] that fn by (auto simp: free_nodes_def size2i_less)
    have "a \<in> set (C (size2i (sz m a)))" using k cl that(1) by (simp add: classes_def)
    then show ?thesis using k by (cases "size2i (sz m a) = ?i") (auto simp: set_flist intro: bexI [of _ "size2i (sz m a)"])
  qed
  let ?d = "dropWhile (\<lambda>x. sz m x < n) ?rest"
  have s: "fl_search n m (nx m (nodelist z ?i)) = Some (hd0 ?d)" using fl_search_eq [OF rest(1,3)] rest(2) by simp
  show thesis
  proof (cases ?d)
    case Nil
    then have "\<forall>x \<in> set ?rest. sz m x < n" by (simp only: dropWhile_eq_Nil_conv)
    then have "\<forall>a \<in> F. sz m a < n" using big by (meson not_less)
    then show thesis using that [OF s] Nil by simp
  next
    case (Cons r ws)
    have r: "r \<in> set ?rest" "n \<le> sz m r" using Cons by (metis list.set_intros(1) set_dropWhileD) (metis Cons hd_dropWhile list.distinct(1) list.sel(1) not_less)
    have "set ?rest \<subseteq> heads z \<union> F" using set_flist_F [OF fn cl] unfolding sp by auto
    moreover have "r \<notin> heads z" using r(2) assms(2) fn by (auto simp: heads_def free_nodes_def)
    ultimately have "r \<in> F" using r(1) by blast
    moreover have "sz m r \<le> sz m a" if "a \<in> F" "n \<le> sz m a" for a
    proof -
      have "a \<in> set ?d" using big [OF that] that(2) by (metis (no_types, lifting) Un_iff not_less set_append set_takeWhileD takeWhile_dropWhile_id)
      moreover have "sz m a \<noteq> 0" using fn that(1) by (auto simp: free_nodes_def)
      moreover have "sorted_wrt (\<lambda>x y. sz m y = 0 \<or> sz m x \<le> sz m y) ?d" by (rule sorted_wrt_dropWhile [OF sorted])
      ultimately show ?thesis using Cons by auto
    qed
    ultimately show thesis using that [OF s] r(2) Cons by simp
  qed
qed

section \<open>The operations on the free lists\<close>

lemma flist_at:
  assumes "j < 32" "C j = us @ vs"
  shows "flist z C 0 32 = (flist z C 0 j @ butlast (nodelist z j # us)) @ last (nodelist z j # us) # vs @ flist z C (Suc j) 32"
proof -
  have "butlast (nodelist z j # us) @ [last (nodelist z j # us)] = nodelist z j # us" by (rule append_butlast_last_id) simp
  then show ?thesis using flist_split [of 0 j 32 z C] assms by (metis (no_types, lifting) append.assoc append_Cons append_Nil le0)
qed

lemma free_nodes_sz: "sz m' = sz m \<Longrightarrow> free_nodes z m F \<Longrightarrow> F' \<subseteq> F \<Longrightarrow> free_nodes z m' F'"
  by (auto simp: free_nodes_def)

lemma classes_upd:
  assumes "classes m F C" "j < 32" "set xs = {a \<in> F'. size2i (sz m a) = j}" "distinct xs" "sorted_wrt (\<lambda>a b. sz m a \<le> sz m b) xs"
    "\<And>a. size2i (sz m a) \<noteq> j \<Longrightarrow> a \<in> F' \<longleftrightarrow> a \<in> F" "sz m' = sz m"
  shows "classes m' F' (C(j := xs))"
  unfolding classes_def
proof (intro allI impI)
  fix i :: nat
  assume "i < 32"
  then have "set (C i) = {a \<in> F. size2i (sz m a) = i} \<and> distinct (C i) \<and> sorted_wrt (\<lambda>a b. sz m a \<le> sz m b) (C i)"
    using assms(1) by (simp add: classes_def)
  then show "set ((C(j := xs)) i) = {a \<in> F'. size2i (sz m' a) = i} \<and> distinct ((C(j := xs)) i)
      \<and> sorted_wrt (\<lambda>a b. sz m' a \<le> sz m' b) ((C(j := xs)) i)"
    using assms(3-7) by (cases "i = j") auto
qed

lemma classesD:
  assumes "classes m F C" "i < 32"
  shows "set (C i) = {a \<in> F. size2i (sz m a) = i}" "distinct (C i)" "sorted_wrt (\<lambda>a b. sz m a \<le> sz m b) (C i)"
  using assms by (simp_all add: classes_def)

lemma unlink_ok:
  assumes "free_lists z m F" "node \<in> F"
  shows "free_lists z (fl_unlink node m) (F - {node})" "links_only (heads z \<union> (F - {node})) m (fl_unlink node m)"
proof -
  obtain C where fn: "free_nodes z m F" and cl: "classes m F C" and ch: "linked m (flist z C 0 32)"
    using assms(1) by (auto simp: free_lists_def)
  let ?m = "fl_unlink node m" and ?j = "size2i (sz m node)"
  have j: "?j < 32" using fn assms(2) by (auto simp: free_nodes_def size2i_less)
  have "node \<in> set (C ?j)" using cl j assms(2) by (simp add: classes_def)
  then obtain us vs where uv: "C ?j = us @ node # vs" by (meson split_list)
  let ?C = "C(?j := us @ vs)"
  note e = flist_at [of ?j C, OF j uv, of z]
  have f: "flist z ?C 0 32 = (flist z C 0 ?j @ butlast (nodelist z ?j # us)) @ last (nodelist z ?j # us) # vs @ flist z C (Suc ?j) 32"
    using flist_at [of ?j ?C us vs z] j by (simp add: flist_upd)
  have dst: "distinct (flist z C 0 32)" by (rule distinct_flist [OF fn cl]) simp
  have "0 \<notin> set (flist z C 0 32)" by (rule free_lists_zero [OF fn cl])
  then have u: "linked ?m (flist z ?C 0 32)"
    "links_only (set (last (nodelist z ?j # us) # vs @ flist z C (Suc ?j) 32)) m ?m"
    using unlink_chain [of m "flist z C 0 ?j @ butlast (nodelist z ?j # us)" "last (nodelist z ?j # us)" node "vs @ flist z C (Suc ?j) 32"] ch dst
    unfolding e f by simp_all
  have s: "sz ?m = sz m" by (rule links_onlyD [OF u(2)])
  have "classes ?m (F - {node}) ?C"
    using classesD [OF cl j] by (intro classes_upd [OF cl j]) (auto simp: uv sorted_wrt_append s)
  moreover have "free_nodes z ?m (F - {node})" using fn by (intro free_nodes_sz [OF s]) auto
  ultimately show "free_lists z ?m (F - {node})" using u(1) by (auto simp: free_lists_def)
  have "set (last (nodelist z ?j # us) # vs @ flist z C (Suc ?j) 32) \<subseteq> set (flist z C 0 32) - {node}"
    using dst unfolding e by auto
  then show "links_only (heads z \<union> (F - {node})) m ?m"
    using u(2) fn cl assms(2) by (intro links_only_mono [OF u(2)]) (auto simp: set_flist_F [OF fn cl])
qed

lemma add_ok:
  assumes "free_lists z m F" "node \<notin> F" "node \<notin> heads z" "node \<noteq> 0" "16 \<le> unat (sz m node)"
  obtains m' where "mdx_fl_add_node z node m = Some m'" "free_lists z m' (insert node F)" "links_only (heads z \<union> insert node F) m m'"
proof -
  obtain C where fn: "free_nodes z m F" and cl: "classes m F C" and ch: "linked m (flist z C 0 32)"
    using assms(1) by (auto simp: free_lists_def)
  let ?j = "size2i (sz m node)" and ?n = "sz m node"
  have j: "?j < 32" by (rule size2i_less [OF assms(5)])
  have z0: "0 \<notin> set (flist z C 0 32)" by (rule free_lists_zero [OF fn cl])
  have dst: "distinct (flist z C 0 32)" by (rule distinct_flist [OF fn cl]) simp
  have sp: "flist z C 0 32 = flist z C 0 ?j @ nodelist z ?j # C ?j @ flist z C (Suc ?j) 32"
    using j by (intro flist_split) simp_all
  have tail: "flist z C (Suc ?j) 32 \<noteq> [] \<longrightarrow> sz m (hd (flist z C (Suc ?j) 32)) = 0"
    using fn j by (cases "Suc ?j < 32") (auto simp: flist_def upt_conv_Cons free_nodes_def)
  have "\<forall>x \<in> set (C ?j). sz m x \<noteq> 0" using fn cl j by (auto simp: free_nodes_def classes_def)
  then obtain us vs where uv: "C ?j = us @ vs"
      "add_node_loop ?n m (nodelist z ?j) (nx m (nodelist z ?j)) = Some (last (nodelist z ?j # us), hd0 (vs @ flist z C (Suc ?j) 32))"
      "\<forall>x \<in> set us. sz m x < ?n" "vs \<noteq> [] \<longrightarrow> ?n \<le> sz m (hd vs)"
    using add_node_loop_eq [of m "nodelist z ?j" "C ?j" "flist z C (Suc ?j) 32" ?n] ch z0 tail unfolding sp
    by (auto simp: linked_append)
  let ?xs = "flist z C 0 ?j @ butlast (nodelist z ?j # us)" and ?p = "last (nodelist z ?j # us)" and ?ys = "vs @ flist z C (Suc ?j) 32"
  let ?C = "C(?j := us @ node # vs)"
  define m' where "m' = (let m = set_nx ?p node m; m = set_pv node ?p m; m = set_nx node (hd0 ?ys) m
                  in if hd0 ?ys \<noteq> 0 then set_pv (hd0 ?ys) node m else m)"
  have m': "mdx_fl_add_node z node m = Some m'" using uv(2) by (simp add: mdx_fl_add_node_def m'_def Let_def)
  note e = flist_at [of ?j C, OF j uv(1), of z]
  have f: "flist z ?C 0 32 = ?xs @ ?p # node # ?ys"
    using flist_at [of ?j ?C us "node # vs" z] j by (simp add: flist_upd)
  have nin: "node \<notin> set (flist z C 0 32)" using assms(2,3) by (simp add: set_flist_F [OF fn cl])
  have u: "linked m' (flist z ?C 0 32)" "links_only (set (?p # node # ?ys)) m m'"
    using link_chain [of m ?xs ?p ?ys node] ch dst z0 nin unfolding e f m'_def by simp_all
  have s: "sz m' = sz m" by (rule links_onlyD [OF u(2)])
  have "sorted_wrt (\<lambda>a b. sz m a \<le> sz m b) (us @ node # vs)"
  proof -
    have "sorted_wrt (\<lambda>a b. sz m a \<le> sz m b) (us @ vs)" using classesD(3) [OF cl j] unfolding uv(1) .
    moreover have "\<forall>y \<in> set vs. ?n \<le> sz m y" using calculation uv(4) by (cases vs) (auto simp: sorted_wrt_append)
    ultimately show ?thesis using uv(3) by (auto simp: sorted_wrt_append less_imp_le)
  qed
  then have "classes m' (insert node F) ?C"
    using classesD [OF cl j] assms(2) by (intro classes_upd [OF cl j]) (auto simp: uv(1) s)
  moreover have "free_nodes z m' (insert node F)" using fn assms(4,5) by (auto simp: free_nodes_def s)
  ultimately have "free_lists z m' (insert node F)" using u(1) by (auto simp: free_lists_def)
  moreover have "set (?p # node # ?ys) \<subseteq> insert node (set (flist z C 0 32))" unfolding e by auto
  then have "links_only (heads z \<union> insert node F) m m'"
    unfolding set_flist_F [OF fn cl] by (intro links_only_mono [OF u(2)]) auto
  ultimately show thesis using that [OF m'] by blast
qed

lemma free_lists_cong:
  assumes "free_lists z m F" "\<And>x. x \<in> heads z \<union> F \<Longrightarrow> nx m' x = nx m x \<and> pv m' x = pv m x \<and> sz m' x = sz m x"
  shows "free_lists z m' F"
proof -
  obtain C where fn: "free_nodes z m F" and cl: "classes m F C" and ch: "linked m (flist z C 0 32)"
    using assms(1) by (auto simp: free_lists_def)
  have "free_nodes z m' F" using fn assms(2) by (auto simp: free_nodes_def heads_def)
  moreover have "classes m' F C"
    unfolding classes_def
  proof (intro allI impI conjI)
    fix i :: nat assume i: "i < 32"
    then have c: "set (C i) = {a \<in> F. size2i (sz m a) = i}" "distinct (C i)" "sorted_wrt (\<lambda>a b. sz m a \<le> sz m b) (C i)"
      using cl by (simp_all add: classes_def)
    show "set (C i) = {a \<in> F. size2i (sz m' a) = i}" "distinct (C i)" using c(1,2) assms(2) by auto
    show "sorted_wrt (\<lambda>a b. sz m' a \<le> sz m' b) (C i)"
      using c(1,3) assms(2) by (intro sorted_wrt_mono_rel [OF _ c(3)]) auto
  qed
  moreover have "linked m' (flist z C 0 32)"
    using ch assms(2) by (subst linked_cong [of _ m' m]) (auto simp: set_flist_F [OF fn cl])
  ultimately show ?thesis by (auto simp: free_lists_def)
qed

end
