(* ===== verification/Freelist_Blocks.thy ===== *)
theory Freelist_Blocks
  imports Freelist_List
begin

text \<open>
  The blocks of \<^verbatim>\<open>kernel/malloc/mdx_freelist.c\<close>: a region of memory is cut into blocks that lie one
  after the other, each with its size, the size of the block before it and its flag in its header,
  between two allocated blocks of a header's size that mark the ends of the region.
\<close>

section \<open>Headers\<close>

text \<open>The field \<^verbatim>\<open>flags\<close>: whether the block is allocated, and the size of the block before it.\<close>

definition alc :: "u32 \<Rightarrow> bool" where
  "alc w \<longleftrightarrow> w AND FLAG_ALLOCATED \<noteq> 0"

definition psz :: "u32 \<Rightarrow> nat" where
  "psz w = unat (w AND NOT FLAG_ALLOCATED)"

lemma bit_FLAG: "bit FLAG_ALLOCATED i \<longleftrightarrow> i = 31"
  unfolding FLAG_ALLOCATED_def bit_push_bit_iff bit_1_iff by auto

lemma alc_bit: "alc w \<longleftrightarrow> bit w 31"
proof -
  have "w AND FLAG_ALLOCATED = (if bit w 31 then FLAG_ALLOCATED else 0)"
    by (rule bit_word_eqI) (auto simp: bit_and_iff bit_FLAG)
  then show ?thesis by (simp add: alc_def FLAG_ALLOCATED_def)
qed

lemma bit_small: "unat w < 2 ^ 31 \<Longrightarrow> bit w i \<Longrightarrow> i < 31" for w :: u32
proof (rule ccontr)
  assume a: "unat w < 2 ^ 31" "bit w i" "\<not> i < 31"
  then have "2 ^ 31 \<le> (2 :: nat) ^ i" by (intro power_increasing) auto
  then have "unat w div 2 ^ i = 0" using a(1) by simp
  then show False using a(2) by (metis bit_iff_odd bit_unsigned_iff even_zero possible_bit_nat)
qed

lemma psz_take: "psz w = take_bit 31 (unat w)"
proof -
  have "w AND NOT FLAG_ALLOCATED = take_bit 31 w"
    by (rule bit_word_eqI) (auto simp: bit_simps bit_FLAG)
  then show ?thesis by (simp add: psz_def unsigned_take_bit_eq)
qed

lemma psz_less [simp]: "psz w < 2147483648"
  using take_bit_nat_less_exp [of 31 "unat w"] by (simp add: psz_take)

lemma psz_bits: "(\<And>i. i < 31 \<Longrightarrow> bit v i \<longleftrightarrow> bit w i) \<Longrightarrow> psz v = psz w"
  unfolding psz_def by (intro arg_cong [where f = unat] bit_word_eqI) (auto simp: bit_simps bit_FLAG less_Suc_eq numeral_eq_Suc)

lemma psz_small: "unat s < 2 ^ 31 \<Longrightarrow> psz s = unat s"
  by (simp add: psz_take take_bit_nat_eq_self)

lemma psz_unat: "\<not> alc w \<Longrightarrow> unat w = psz w"
proof -
  assume "\<not> alc w"
  then have "w AND NOT FLAG_ALLOCATED = w" by (intro bit_word_eqI) (auto simp: bit_simps bit_FLAG alc_bit)
  then show ?thesis by (simp add: psz_def)
qed

lemma flag_simps [simp]:
  "alc (w OR FLAG_ALLOCATED)" "psz (w OR FLAG_ALLOCATED) = psz w"
  "\<not> alc (w AND NOT FLAG_ALLOCATED)" "psz (w AND NOT FLAG_ALLOCATED) = psz w"
  by (auto simp: alc_bit bit_simps bit_FLAG intro!: psz_bits)

lemma flag_prev:
  assumes "unat s < 2 ^ 31"
  shows "alc ((w AND FLAG_ALLOCATED) OR s) = alc w" "psz ((w AND FLAG_ALLOCATED) OR s) = unat s" "\<not> alc s" "psz s = unat s"
proof -
  show a: "\<not> alc s" using bit_small [OF assms, of 31] by (auto simp: alc_bit)
  show "psz s = unat s" by (rule psz_small [OF assms])
  then show "psz ((w AND FLAG_ALLOCATED) OR s) = unat s"
    using psz_bits [of "(w AND FLAG_ALLOCATED) OR s" s] by (simp add: bit_simps bit_FLAG)
  show "alc ((w AND FLAG_ALLOCATED) OR s) = alc w" using a by (simp add: alc_bit bit_simps bit_FLAG)
qed

section \<open>Tilings\<close>

type_synonym blocks = "nat \<Rightarrow> (nat \<times> bool) option"

definition sentinels :: "(nat \<times> nat) set \<Rightarrow> nat set" where
  "sentinels R = (\<Union>(b, l) \<in> R. {b, b + l - 16})"

definition block_ok :: "fl_mem \<Rightarrow> nat \<Rightarrow> nat \<Rightarrow> bool \<Rightarrow> bool" where
  "block_ok m a n al \<longleftrightarrow> unat (sz m a) = n \<and> 16 \<le> n \<and> 16 dvd n \<and> n < 2 ^ 31 \<and> alc (fg m a) = al"

definition disjoint_blocks :: "blocks \<Rightarrow> bool" where
  "disjoint_blocks B \<longleftrightarrow> (\<forall>a n al b k al'. B a = Some (n, al) \<longrightarrow> B b = Some (k, al') \<longrightarrow> a < b \<longrightarrow> a + n \<le> b)"

definition regions_ok :: "blocks \<Rightarrow> (nat \<times> nat) set \<Rightarrow> bool" where
  "regions_ok B R \<longleftrightarrow>
     (\<forall>b l. (b, l) \<in> R \<longrightarrow> B b = Some (16, True) \<and> B (b + l - 16) = Some (16, True) \<and> 48 \<le> l \<and> l < 2 ^ 31)
   \<and> (\<forall>b l b' l'. (b, l) \<in> R \<longrightarrow> (b', l') \<in> R \<longrightarrow> (b, l) \<noteq> (b', l') \<longrightarrow> b + l \<le> b' \<or> b' + l' \<le> b)
   \<and> (\<forall>a n al. B a = Some (n, al) \<longrightarrow> (\<exists>b l. (b, l) \<in> R \<and> b \<le> a \<and> a + n \<le> b + l))"

definition neighbours :: "fl_mem \<Rightarrow> blocks \<Rightarrow> nat \<Rightarrow> nat \<Rightarrow> bool" where
  "neighbours m B a n \<longleftrightarrow> a + n \<in> dom B \<and> psz (fg m (a + n)) = n
     \<and> (\<exists>b k al. B b = Some (k, al) \<and> b + k = a \<and> psz (fg m a) = k)"

definition tiling :: "fl_mem \<Rightarrow> blocks \<Rightarrow> (nat \<times> nat) set \<Rightarrow> bool" where
  "tiling m B R \<longleftrightarrow> disjoint_blocks B \<and> regions_ok B R
     \<and> (\<forall>a n al. B a = Some (n, al) \<longrightarrow> block_ok m a n al)
     \<and> (\<forall>a n al. B a = Some (n, al) \<longrightarrow> a \<notin> sentinels R \<longrightarrow> neighbours m B a n)"

lemma tilingD:
  assumes "tiling m B R"
  shows "disjoint_blocks B" "regions_ok B R" "B a = Some (n, al) \<Longrightarrow> block_ok m a n al"
    "B a = Some (n, al) \<Longrightarrow> a \<notin> sentinels R \<Longrightarrow> neighbours m B a n"
  using assms by (simp_all add: tiling_def)

lemma disjointD: "disjoint_blocks B \<Longrightarrow> B a = Some (n, al) \<Longrightarrow> B b = Some (k, al') \<Longrightarrow> a < b \<Longrightarrow> a + n \<le> b"
  by (simp add: disjoint_blocks_def)

lemma sentinel_block: "regions_ok B R \<Longrightarrow> a \<in> sentinels R \<Longrightarrow> B a = Some (16, True)"
  by (auto simp: sentinels_def regions_ok_def)

lemma prev_unique:
  assumes "disjoint_blocks B" "B a = Some (n, al)" "B b = Some (k, al')" "a + n = b + k" "0 < n" "0 < k"
  shows "a = b"
  using disjointD [OF assms(1,2,3)] disjointD [OF assms(1,3,2)] assms(4-6) by (cases a b rule: linorder_cases) auto

lemma size_pos: "tiling m B R \<Longrightarrow> B a = Some (n, al) \<Longrightarrow> 16 \<le> n"
  using tilingD(3) [of m B R a n al] by (simp add: block_ok_def)

lemma region_of: "tiling m B R \<Longrightarrow> B a = Some (n, al) \<Longrightarrow> \<exists>b l. (b, l) \<in> R \<and> b \<le> a \<and> a + n \<le> b + l"
  using tilingD(2) [of m B R] unfolding regions_ok_def by blast

text \<open>A block that is not at the end of its region and the block after it lie in one region.\<close>

lemma next_same_region:
  assumes "tiling m B R" "B a = Some (n, al)" "B (a + n) = Some (k, al')" "a \<notin> sentinels R"
  obtains b l where "(b, l) \<in> R" "b \<le> a" "a + n + k \<le> b + l"
proof -
  have d: "disjoint_blocks B" and r: "regions_ok B R" and w: "16 \<le> n" "16 \<le> k"
    by (rule tilingD(1) [OF assms(1)], rule tilingD(2) [OF assms(1)], rule size_pos [OF assms(1,2)], rule size_pos [OF assms(1,3)])
  obtain b l where bl: "(b, l) \<in> R" "b \<le> a" "a + n \<le> b + l" using region_of [OF assms(1,2)] by blast
  obtain b' l' where bl': "(b', l') \<in> R" "b' \<le> a + n" "a + n + k \<le> b' + l'" using region_of [OF assms(1,3)] by blast
  have s: "B (b + l - 16) = Some (16, True)" "48 \<le> l" using r bl(1) by (auto simp: regions_ok_def)
  have "a \<noteq> b + l - 16" using assms(4) bl(1) by (auto simp: sentinels_def)
  then have "a + n \<le> b + l - 16"
    using disjointD [OF d assms(2) s(1)] disjointD [OF d s(1) assms(2)] bl(3) s(2) w by (cases a "b + l - 16" rule: linorder_cases) auto
  then have "\<not> (b + l \<le> b' \<or> b' + l' \<le> b)" using bl bl' s(2) w by linarith
  then have "(b, l) = (b', l')" using r bl(1) bl'(1) unfolding regions_ok_def by blast
  then show thesis using that bl bl' by simp
qed

lemma merged_small:
  assumes "tiling m B R" "B a = Some (n, al)" "B (a + n) = Some (k, al')" "a \<notin> sentinels R"
  shows "n + k < 2 ^ 31"
proof -
  obtain b l where "(b, l) \<in> R" "b \<le> a" "a + n + k \<le> b + l" using next_same_region [OF assms] .
  moreover have "l < 2 ^ 31" using tilingD(2) [OF assms(1)] calculation(1) unfolding regions_ok_def by blast
  ultimately show ?thesis by linarith
qed

lemma neighboursE:
  assumes "tiling m B R" "B x = Some (j, f)" "x \<notin> sentinels R"
  obtains c i h where "x + j \<in> dom B" "psz (fg m (x + j)) = j" "B c = Some (i, h)" "c + i = x" "psz (fg m x) = i"
  using tilingD(4) [OF assms] by (auto simp: neighbours_def)

lemma neighboursI:
  "x + j \<in> dom B \<Longrightarrow> psz (fg m (x + j)) = j \<Longrightarrow> B c = Some (i, h) \<Longrightarrow> c + i = x \<Longrightarrow> psz (fg m x) = i \<Longrightarrow> neighbours m B x j"
  unfolding neighbours_def by blast

lemma regions_okI:
  assumes "regions_ok B R" "\<And>x. x \<in> sentinels R \<Longrightarrow> B' x = B x"
    "\<And>a n al. B' a = Some (n, al) \<Longrightarrow> \<exists>b l. (b, l) \<in> R \<and> b \<le> a \<and> a + n \<le> b + l"
  shows "regions_ok B' R"
proof -
  have "b \<in> sentinels R" "b + l - 16 \<in> sentinels R" if "(b, l) \<in> R" for b l using that by (auto simp: sentinels_def)
  then show ?thesis using assms unfolding regions_ok_def by (intro conjI allI impI) auto
qed

section \<open>Changing the tiling\<close>

text \<open>A block becomes free or allocated.\<close>

lemma tiling_flag:
  assumes t: "tiling m B R" and a: "B a = Some (n, al)" "a \<notin> sentinels R"
    and m': "sz m' = sz m" "\<And>x. psz (fg m' x) = psz (fg m x)" "\<And>x. alc (fg m' x) = (if x = a then al' else alc (fg m x))"
  shows "tiling m' (B(a \<mapsto> (n, al'))) R"
proof -
  let ?B = "B(a \<mapsto> (n, al'))"
  have d: "disjoint_blocks ?B"
    using tilingD(1) [OF t] a(1) unfolding disjoint_blocks_def by (auto split: if_splits)
  have r: "regions_ok ?B R"
    by (rule regions_okI [OF tilingD(2) [OF t]]) (use a region_of [OF t] in \<open>auto split: if_splits\<close>)
  have b: "block_ok m' x k f" if "?B x = Some (k, f)" for x k f
    using that tilingD(3) [OF t, of x k f] tilingD(3) [OF t a(1)] by (auto simp: block_ok_def m' split: if_splits)
  have n: "neighbours m' ?B x k" if x: "?B x = Some (k, f)" "x \<notin> sentinels R" for x k f
  proof -
    obtain f0 where f0: "B x = Some (k, f0)" using x(1) a(1) by (auto split: if_splits)
    obtain c i h where nb: "x + k \<in> dom B" "psz (fg m (x + k)) = k" "B c = Some (i, h)" "c + i = x" "psz (fg m x) = i"
      using neighboursE [OF t f0 x(2)] .
    obtain h' where "?B c = Some (i, h')" using nb(3) a(1) by (cases "c = a") auto
    then show ?thesis using nb by (intro neighboursI [of x k ?B m' c i h']) (auto simp: m')
  qed
  show ?thesis using d r b n by (auto simp: tiling_def)
qed

text \<open>A block is cut in two, of which the second is free.\<close>

lemma tiling_split:
  assumes t: "tiling m B R" and a: "B a = Some (n, al)" "a \<notin> sentinels R" and k: "16 \<le> k" "16 dvd k" "k + 16 \<le> n"
    and s: "unat (sz m' a) = k" "unat (sz m' (a + k)) = n - k" "\<And>x. x \<noteq> a \<Longrightarrow> x \<noteq> a + k \<Longrightarrow> sz m' x = sz m x"
    and p: "psz (fg m' (a + k)) = k" "psz (fg m' (a + n)) = n - k" "\<And>x. x \<noteq> a + k \<Longrightarrow> x \<noteq> a + n \<Longrightarrow> psz (fg m' x) = psz (fg m x)"
    and f: "\<not> alc (fg m' (a + k))" "\<And>x. x \<noteq> a + k \<Longrightarrow> alc (fg m' x) = alc (fg m x)"
  shows "tiling m' (B(a \<mapsto> (k, al), a + k \<mapsto> (n - k, False))) R"
proof -
  let ?B = "B(a \<mapsto> (k, al), a + k \<mapsto> (n - k, False))"
  note dj = disjointD [OF tilingD(1) [OF t]]
  have new: "a + k \<notin> dom B" using dj [OF a(1)] k by fastforce
  have ab: "block_ok m a n al" by (rule tilingD(3) [OF t a(1)])
  have d: "disjoint_blocks ?B"
    unfolding disjoint_blocks_def
  proof (intro allI impI)
    fix x i g y j h
    assume xy: "?B x = Some (i, g)" "?B y = Some (j, h)" "x < y"
    have cx: "x = a \<and> i = k \<or> x = a + k \<and> i = n - k \<or> x \<noteq> a \<and> x \<noteq> a + k \<and> B x = Some (i, g)"
      and cy: "y = a \<or> y = a + k \<or> y \<noteq> a \<and> y \<noteq> a + k \<and> B y = Some (j, h)" using xy k by (auto split: if_splits)
    have "y > a \<Longrightarrow> y \<noteq> a + k \<Longrightarrow> a + n \<le> y" using cy dj [OF a(1), of y j h] by auto
    moreover have "x \<noteq> a \<Longrightarrow> x \<noteq> a + k \<Longrightarrow> (x < a \<longrightarrow> x + i \<le> a) \<and> (x > a \<longrightarrow> a + n \<le> x)"
      using cx dj [OF a(1), of x i g] dj [OF _ a(1), of x i g] by auto
    moreover have "x \<noteq> a \<Longrightarrow> x \<noteq> a + k \<Longrightarrow> y \<noteq> a \<Longrightarrow> y \<noteq> a + k \<Longrightarrow> x + i \<le> y" using cx cy dj [of x i g y j h] xy(3) by auto
    ultimately show "x + i \<le> y" using cx cy xy(3) k by (elim disjE conjE) (cases x a rule: linorder_cases; linarith)+
  qed
  have r: "regions_ok ?B R"
  proof (rule regions_okI [OF tilingD(2) [OF t]])
    show "?B x = B x" if "x \<in> sentinels R" for x
      using that a new sentinel_block [OF tilingD(2) [OF t] that] by (auto split: if_splits)
    show "\<exists>b l. (b, l) \<in> R \<and> b \<le> x \<and> x + i \<le> b + l" if "?B x = Some (i, g)" for x i g
    proof -
      obtain b l where bl: "(b, l) \<in> R" "b \<le> a" "a + n \<le> b + l" using region_of [OF t a(1)] by blast
      have "x = a \<and> i = k \<or> x = a + k \<and> i = n - k \<or> B x = Some (i, g)" using that k by (auto split: if_splits)
      then have "b \<le> x \<and> x + i \<le> b + l \<or> B x = Some (i, g)" using bl k by auto
      then show ?thesis using region_of [OF t, of x i g] bl(1) by blast
    qed
  qed
  have b: "block_ok m' x i g" if "?B x = Some (i, g)" for x i g
  proof -
    have "16 dvd n - k" using ab k by (simp add: block_ok_def)
    then have "block_ok m' a k al" "block_ok m' (a + k) (n - k) False"
      using ab k s(1,2) f(1) f(2) [of a] by (auto simp: block_ok_def)
    moreover have "block_ok m' x i g" if "x \<noteq> a" "x \<noteq> a + k" "B x = Some (i, g)"
      using tilingD(3) [OF t that(3)] s(3) [OF that(1,2)] f(2) [OF that(2)] by (simp add: block_ok_def)
    ultimately show ?thesis using that k by (auto split: if_splits)
  qed
  have nb: "neighbours m' ?B x i" if x: "?B x = Some (i, g)" "x \<notin> sentinels R" for x i g
  proof (cases "x = a \<or> x = a + k")
    case True
    obtain c i' h where c: "a + n \<in> dom B" "psz (fg m (a + n)) = n" "B c = Some (i', h)" "c + i' = a" "psz (fg m a) = i'"
      using neighboursE [OF t a] .
    have "c < a" using c(3,4) size_pos [OF t c(3)] by simp
    then have 1: "neighbours m' ?B a k" using c p k by (intro neighboursI [of _ _ _ _ c i' h]) auto
    have 2: "neighbours m' ?B (a + k) (n - k)" using c(1) p k by (intro neighboursI [of _ _ _ _ a k al]) auto
    show ?thesis using True 1 2 x(1) k by (auto split: if_splits)
  next
    case False
    then have xB: "B x = Some (i, g)" using x(1) by (auto split: if_splits)
    obtain c i' h where c: "x + i \<in> dom B" "psz (fg m (x + i)) = i" "B c = Some (i', h)" "c + i' = x" "psz (fg m x) = i'"
      using neighboursE [OF t xB x(2)] .
    note pu = prev_unique [OF tilingD(1) [OF t] _ a(1)]
    have nx: "x + i \<noteq> a + k" "x + i \<noteq> a + n"
      using c(1) new pu [OF xB] size_pos [OF t xB] size_pos [OF t a(1)] False by auto
    show ?thesis
    proof (cases "c = a")
      case True
      then have "x = a + n" using c(3,4) a(1) by simp
      then show ?thesis using c nx p k by (intro neighboursI [of _ _ _ _ "a + k" "n - k" False]) auto
    next
      case ca: False
      then have "x \<noteq> a + n" using pu [OF c(3)] c(4) size_pos [OF t c(3)] size_pos [OF t a(1)] by auto
      moreover have "c \<noteq> a + k" using c(3) new by auto
      ultimately show ?thesis using c nx p False ca by (intro neighboursI [of _ _ _ _ c i' h]) auto
    qed
  qed
  show ?thesis using d r b nb by (auto simp: tiling_def)
qed

text \<open>A block is joined with the one after it.\<close>

lemma tiling_merge:
  assumes t: "tiling m B R" and a: "B a = Some (n, al)" "a \<notin> sentinels R" and b: "B (a + n) = Some (k, al')" "a + n \<notin> sentinels R"
    and s: "unat (sz m' a) = n + k" "\<And>x. x \<noteq> a \<Longrightarrow> x \<noteq> a + n \<Longrightarrow> sz m' x = sz m x"
    and p: "psz (fg m' (a + n + k)) = n + k" "\<And>x. x \<noteq> a + n \<Longrightarrow> x \<noteq> a + n + k \<Longrightarrow> psz (fg m' x) = psz (fg m x)"
    and f: "\<And>x. x \<noteq> a + n \<Longrightarrow> alc (fg m' x) = alc (fg m x)"
  shows "tiling m' (B(a \<mapsto> (n + k, al), a + n := None)) R"
proof -
  let ?B = "B(a \<mapsto> (n + k, al), a + n := None)"
  note dj = disjointD [OF tilingD(1) [OF t]] and pu = prev_unique [OF tilingD(1) [OF t]] and sp = size_pos [OF t]
  have np: "16 \<le> n" "16 \<le> k" by (rule sp [OF a(1)], rule sp [OF b(1)])
  have ab: "block_ok m a n al" "block_ok m (a + n) k al'" by (rule tilingD(3) [OF t a(1)], rule tilingD(3) [OF t b(1)])
  have d: "disjoint_blocks ?B"
    unfolding disjoint_blocks_def
  proof (intro allI impI)
    fix x i g y j h
    assume xy: "?B x = Some (i, g)" "?B y = Some (j, h)" "x < y"
    have cx: "x = a \<and> i = n + k \<or> x \<noteq> a \<and> B x = Some (i, g)"
      and cy: "y \<noteq> a + n" "y = a \<or> y \<noteq> a \<and> B y = Some (j, h)" using xy np by (auto split: if_splits)
    show "x + i \<le> y"
    proof (cases "x = a")
      case True
      then have y: "B y = Some (j, h)" "a < y" using cy xy(3) by auto
      then have "a + n < y" using dj [OF a(1) y(1)] cy(1) by auto
      then show ?thesis using dj [OF b(1) y(1)] cx True by auto
    next
      case False
      then have "B x = Some (i, g)" using cx by auto
      then show ?thesis using dj [OF _ a(1), of x i g] dj [of x i g y j h] cy xy(3) by auto
    qed
  qed
  have r: "regions_ok ?B R"
  proof (rule regions_okI [OF tilingD(2) [OF t]])
    show "?B x = B x" if "x \<in> sentinels R" for x using that a b by (auto split: if_splits)
    show "\<exists>b l. (b, l) \<in> R \<and> b \<le> x \<and> x + i \<le> b + l" if "?B x = Some (i, g)" for x i g
    proof (cases "x = a")
      case True
      obtain b l where "(b, l) \<in> R" "b \<le> a" "a + n + k \<le> b + l" using next_same_region [OF t a(1) b(1) a(2)] .
      moreover have "i = n + k" using True that np by (auto split: if_splits)
      ultimately show ?thesis using True by (metis add.assoc)
    next
      case False
      then show ?thesis using region_of [OF t, of x i g] that by (auto split: if_splits)
    qed
  qed
  have bk: "block_ok m' x i g" if "?B x = Some (i, g)" for x i g
  proof -
    have "block_ok m' a (n + k) al"
      using ab np s(1) f [of a] merged_small [OF t a(1) b(1) a(2)] by (simp add: block_ok_def)
    moreover have "block_ok m' x i g" if "x \<noteq> a" "x \<noteq> a + n" "B x = Some (i, g)"
      using tilingD(3) [OF t that(3)] s(2) [OF that(1,2)] f [OF that(2)] by (simp add: block_ok_def)
    ultimately show ?thesis using that np by (auto split: if_splits)
  qed
  have nb: "neighbours m' ?B x i" if x: "?B x = Some (i, g)" "x \<notin> sentinels R" for x i g
  proof (cases "x = a")
    case True
    obtain c i' h where c: "B c = Some (i', h)" "c + i' = a" "psz (fg m a) = i'" using neighboursE [OF t a] .
    have "a + n + k \<in> dom B" using neighboursE [OF t b] .
    moreover have "c < a" using c sp [OF c(1)] by simp
    moreover have "i = n + k" using x(1) True np by (auto split: if_splits)
    ultimately show ?thesis using True c p np by (intro neighboursI [of _ _ _ _ c i' h]) (auto simp: add.assoc)
  next
    case False
    then have xB: "B x = Some (i, g)" "x \<noteq> a + n" using x(1) by (auto split: if_splits)
    obtain c i' h where c: "x + i \<in> dom B" "psz (fg m (x + i)) = i" "B c = Some (i', h)" "c + i' = x" "psz (fg m x) = i'"
      using neighboursE [OF t xB(1) x(2)] .
    have nx: "x + i \<noteq> a + n" "x + i \<noteq> a + n + k"
      using pu [OF xB(1) a(1)] pu [OF xB(1) b(1)] sp [OF xB(1)] np False xB(2) by auto
    show ?thesis
    proof (cases "c = a + n")
      case True
      then have "x = a + n + k" using c(3,4) b(1) by simp
      then show ?thesis using c nx p np by (intro neighboursI [of _ _ _ _ a "n + k" al]) auto
    next
      case ca: False
      then have "x \<noteq> a + n + k" using pu [OF c(3) b(1)] c(4) sp [OF c(3)] np by auto
      moreover have "c \<noteq> a" using c(3,4) a(1) xB(2) by auto
      ultimately show ?thesis using c nx p False xB(2) ca by (intro neighboursI [of _ _ _ _ c i' h]) auto
    qed
  qed
  show ?thesis using d r bk nb by (auto simp: tiling_def)
qed

end
