(* ===== verification/Freelist_Ops.thy ===== *)
theory Freelist_Ops
  imports Freelist_Blocks
begin

text \<open>
  The operations of the allocator keep the blocks and the free lists together: \<^verbatim>\<open>mdx_fl_malloc\<close> takes a
  free block, cuts it if it is too large and marks it allocated; \<^verbatim>\<open>mdx_fl_free\<close> marks a block free,
  joins it with its free neighbours and puts it into the free list.
\<close>

section \<open>The invariant\<close>

definition frees :: "blocks \<Rightarrow> nat set" where
  "frees B = {a. \<exists>n. B a = Some (n, False)}"

definition clear :: "nat \<Rightarrow> blocks \<Rightarrow> bool" where
  "clear z B \<longleftrightarrow> (\<forall>a n al. B a = Some (n, al) \<longrightarrow> a \<noteq> 0 \<and> (a + n \<le> z \<or> z + 512 \<le> a))"

text \<open>No two free blocks are neighbours, where \<open>H\<close> are blocks that are just being handled.\<close>

definition coalesced :: "nat set \<Rightarrow> blocks \<Rightarrow> bool" where
  "coalesced H B \<longleftrightarrow> (\<forall>a n k al. B a = Some (n, False) \<longrightarrow> B (a + n) = Some (k, al) \<longrightarrow> a \<notin> H \<longrightarrow> a + n \<notin> H \<longrightarrow> al)"

definition fl_inv :: "nat \<Rightarrow> fl_mem \<Rightarrow> blocks \<Rightarrow> (nat \<times> nat) set \<Rightarrow> bool" where
  "fl_inv z m B R \<longleftrightarrow> tiling m B R \<and> clear z B \<and> coalesced {} B \<and> free_lists z m (frees B)"

text \<open>The block \<open>a\<close> is marked free but not in the free list yet.\<close>

definition half_inv :: "nat \<Rightarrow> fl_mem \<Rightarrow> blocks \<Rightarrow> (nat \<times> nat) set \<Rightarrow> nat \<Rightarrow> bool" where
  "half_inv z m B R a \<longleftrightarrow> tiling m B R \<and> clear z B \<and> coalesced {a} B \<and> free_lists z m (frees B - {a}) \<and> a \<in> frees B"

text \<open>Only headers of blocks and list heads are written.\<close>

definition hdr_only :: "nat set \<Rightarrow> fl_mem \<Rightarrow> fl_mem \<Rightarrow> bool" where
  "hdr_only A m m' \<longleftrightarrow> dat m' = dat m \<and> (\<forall>x. x \<notin> A \<longrightarrow> nx m' x = nx m x \<and> pv m' x = pv m x \<and> sz m' x = sz m x \<and> fg m' x = fg m x)"

lemma hdr_only_refl [simp]: "hdr_only A m m"
  by (simp add: hdr_only_def)

lemma hdr_only_mono: "hdr_only A m m' \<Longrightarrow> A \<subseteq> A' \<Longrightarrow> hdr_only A' m m'"
  unfolding hdr_only_def by blast

lemma hdr_only_trans: "hdr_only A m m' \<Longrightarrow> hdr_only A m' m'' \<Longrightarrow> hdr_only A m m''"
  by (simp add: hdr_only_def)

lemma hdr_only_links: "links_only A m m' \<Longrightarrow> A \<subseteq> A' \<Longrightarrow> hdr_only A' m m'"
  by (auto simp: hdr_only_def links_only_def)

lemma tiling_cong: "tiling m B R \<Longrightarrow> sz m' = sz m \<Longrightarrow> fg m' = fg m \<Longrightarrow> tiling m' B R"
  by (simp add: tiling_def block_ok_def neighbours_def)

lemma heads_range: "x \<in> heads z \<Longrightarrow> z \<le> x \<and> x + 16 \<le> z + 512"
  by (auto simp: heads_def nodelist_def NODE_S_def)

lemma clear_heads: "clear z B \<Longrightarrow> B a = Some (n, al) \<Longrightarrow> a \<le> x \<Longrightarrow> x < a + n \<Longrightarrow> x \<notin> heads z \<and> x \<noteq> 0"
  using heads_range [of x z] by (fastforce simp: clear_def)

lemma free_not_sentinel: "regions_ok B R \<Longrightarrow> a \<in> frees B \<Longrightarrow> a \<notin> sentinels R"
  using sentinel_block [of B R a] by (auto simp: frees_def)

section \<open>Alignment\<close>

declare align_loop.simps [simp del]

lemma align_loop_eq: "16 dvd c \<Longrightarrow> unat w \<le> c \<Longrightarrow> c < unat w + 16 \<Longrightarrow> c < 2 ^ 32 \<Longrightarrow> unat (align_loop w) = c"
proof (induction w rule: align_loop.induct)
  case (1 w)
  show ?case
  proof (cases "w AND 0xf = 0")
    case True
    then have "unat w mod 16 = 0" using unat_and_15 [of w] by simp
    then have "unat w = c" using "1.prems" by presburger
    then show ?thesis using True by (simp add: align_loop.simps [of w])
  next
    case False
    then have "unat w mod 16 \<noteq> 0" using unat_and_15 [of w] by (metis unat_eq_zero)
    then have "unat w < c" using "1.prems" by (metis le_neq_implies_less dvd_imp_mod_0)
    then have "unat (w + 1) = unat w + 1" using "1.prems"(4) unat_add_small [of w 1] by simp
    then have "unat (align_loop (w + 1)) = c" using "1.prems" \<open>unat w < c\<close> by (intro "1.IH" [OF False]) auto
    then show ?thesis using False by (simp add: align_loop.simps [of w])
  qed
qed

lemma align_bounds:
  assumes "unat w + 16 \<le> 2 ^ 32"
  shows "16 dvd unat (align_loop w)" "unat w \<le> unat (align_loop w)" "unat (align_loop w) < unat w + 16"
proof -
  define c where "c = (unat w + 15) div 16 * 16"
  have c: "16 dvd c" "unat w \<le> c" "c < unat w + 16" by (auto simp: c_def)
  have "c < 2 ^ 32" using c(3) assms by linarith
  then have "unat (align_loop w) = c" by (rule align_loop_eq [OF c])
  then show "16 dvd unat (align_loop w)" "unat w \<le> unat (align_loop w)" "unat (align_loop w) < unat w + 16" using c by simp_all
qed

section \<open>The steps of allocation\<close>

lemma set_prev_size_sel [simp]:
  "nx (set_prev_size a s m) = nx m" "pv (set_prev_size a s m) = pv m" "sz (set_prev_size a s m) = sz m" "dat (set_prev_size a s m) = dat m"
  "fg (set_prev_size a s m) = (fg m)(a := (fg m a AND FLAG_ALLOCATED) OR s)"
  by (simp_all add: set_prev_size_def Let_def)

lemma half_invD:
  assumes "half_inv z m B R a"
  shows "tiling m B R" "clear z B" "coalesced {a} B" "free_lists z m (frees B - {a})" "a \<in> frees B" "a \<notin> sentinels R"
  using assms free_not_sentinel [OF tilingD(2)] by (auto simp: half_inv_def)

lemma take_ok:
  assumes "fl_inv z m B R" "a \<in> frees B"
  shows "half_inv z (fl_unlink a m) B R a" "hdr_only (heads z \<union> dom B) m (fl_unlink a m)"
proof -
  have f: "free_lists z m (frees B)" "tiling m B R" "clear z B" "coalesced {} B" using assms(1) by (simp_all add: fl_inv_def)
  note u = unlink_ok [OF f(1) assms(2)]
  show "half_inv z (fl_unlink a m) B R a"
    using f u(1) assms(2) tiling_cong [OF f(2) links_onlyD(1,2) [OF u(2)]] by (auto simp: half_inv_def coalesced_def)
  show "hdr_only (heads z \<union> dom B) m (fl_unlink a m)" by (rule hdr_only_links [OF u(2)]) (auto simp: frees_def)
qed

lemma mark_ok:
  assumes "half_inv z m B R a" "B a = Some (n, False)"
  defines "m' \<equiv> set_pv a 0 (set_nx a 0 (set_fg a (fg m a OR FLAG_ALLOCATED) m))"
  shows "fl_inv z m' (B(a \<mapsto> (n, True))) R" "hdr_only {a} m m'"
proof -
  note h = half_invD [OF assms(1)]
  have "tiling m' (B(a \<mapsto> (n, True))) R"
    by (rule tiling_flag [OF h(1) assms(2) h(6)]) (simp_all add: m'_def)
  moreover have "clear z (B(a \<mapsto> (n, True)))" using h(2) assms(2) by (auto simp: clear_def)
  moreover have "coalesced {} (B(a \<mapsto> (n, True)))" using h(3) by (auto simp: coalesced_def split: if_splits)
  moreover have "frees (B(a \<mapsto> (n, True))) = frees B - {a}" by (auto simp: frees_def)
  moreover have "a \<notin> heads z" using clear_heads [OF h(2) assms(2), of a] size_pos [OF h(1) assms(2)] by simp
  then have "free_lists z m' (frees B - {a})" by (intro free_lists_cong [OF h(4)]) (auto simp: m'_def)
  ultimately show "fl_inv z m' (B(a \<mapsto> (n, True))) R" by (simp add: fl_inv_def)
  show "hdr_only {a} m m'" by (simp add: hdr_only_def m'_def)
qed

lemma insert_ok:
  assumes "half_inv z m B R a" "coalesced {} B"
  obtains m' where "mdx_fl_add_node z a m = Some m'" "fl_inv z m' B R" "hdr_only (heads z \<union> dom B) m m'"
proof -
  note h = half_invD [OF assms(1)]
  obtain n where n: "B a = Some (n, False)" using h(5) by (auto simp: frees_def)
  have b: "unat (sz m a) = n" "16 \<le> n" using tilingD(3) [OF h(1) n] by (simp_all add: block_ok_def)
  have "a \<notin> heads z" "a \<noteq> 0" using clear_heads [OF h(2) n, of a] b(2) by simp_all
  then obtain m' where m': "mdx_fl_add_node z a m = Some m'" "free_lists z m' (insert a (frees B - {a}))" "links_only (heads z \<union> insert a (frees B - {a})) m m'"
    using add_ok [OF h(4), of a] b by auto
  have "insert a (frees B - {a}) = frees B" using h(5) by auto
  then have "fl_inv z m' B R"
    using m'(2) h assms(2) tiling_cong [OF h(1) links_onlyD(1,2) [OF m'(3)]] by (simp add: fl_inv_def)
  moreover have "hdr_only (heads z \<union> dom B) m m'" by (rule hdr_only_links [OF m'(3)]) (use n in \<open>auto simp: frees_def\<close>)
  ultimately show thesis using that [OF m'(1)] by blast
qed

text \<open>What changes when a free block is cut or joined: allocated blocks stay as they are.\<close>

definition same_allocated :: "blocks \<Rightarrow> blocks \<Rightarrow> bool" where
  "same_allocated B B' \<longleftrightarrow> (\<forall>x k. B' x = Some (k, True) \<longleftrightarrow> B x = Some (k, True))"

lemma split_ok:
  assumes "half_inv z m B R a" "coalesced {} B" "B a = Some (s, False)" "16 dvd unat w" "16 \<le> unat w" "unat w \<le> s"
  obtains m' B' s' where "fl_split z a w m = Some m'" "half_inv z m' B' R a" "B' a = Some (s', False)" "unat w \<le> s'" "s' \<le> s" "s' \<le> unat w + 16"
    "same_allocated B B'" "hdr_only (heads z \<union> dom B \<union> dom B') m m'"
proof -
  note h = half_invD [OF assms(1)]
  have b: "unat (sz m a) = s" "16 dvd s" "s < 2 ^ 31" using tilingD(3) [OF h(1) assms(3)] by (simp_all add: block_ok_def)
  let ?c = "unat w" and ?avail = "sz m a - w"
  have av: "unat ?avail = s - ?c" using b(1) assms(6) by (simp add: unat_diff_le word_le_unat)
  show thesis
  proof (cases "?avail > NODE_W")
    case False
    then have "fl_split z a w m = Some m" by (simp add: fl_split_def Let_def)
    moreover have "s \<le> ?c + 16" using False av by (simp add: word_less_unat NODE_W_def)
    ultimately show thesis using that [of m B s] assms by (simp add: same_allocated_def)
  next
    case True
    then have big: "16 < s - ?c" using av by (simp add: word_less_unat NODE_W_def)
    define m1 where "m1 = set_fg (a + ?c) w (set_sz (a + ?c) ?avail (set_sz a w (set_prev_size (a + s) ?avail m)))"
    have sp: "fl_split z a w m = mdx_fl_add_node z (a + ?c) m1" using True b(1) by (simp add: fl_split_def Let_def m1_def)
    let ?B = "B(a \<mapsto> (?c, False), a + ?c \<mapsto> (s - ?c, False))"
    have new: "a + ?c \<notin> dom B" using disjointD [OF tilingD(1) [OF h(1)] assms(3)] assms(5) big by fastforce
    have small: "unat ?avail < 2 ^ 31" "?c < 2 ^ 31" using av b(3) assms(6) by linarith+
    note fp = flag_prev [OF small(1)] flag_prev [OF small(2)]
    have ne: "a + s \<noteq> a + ?c" "a \<noteq> a + ?c" "a + s \<noteq> a" using big assms(5) by auto
    have t: "tiling m1 ?B R"
      by (rule tiling_split [OF h(1) assms(3) h(6) assms(5,4)]) (use big ne av fp assms(5) in \<open>auto simp: m1_def\<close>)
    have cl: "clear z ?B" using h(2) assms(3,6) new by (fastforce simp: clear_def split: if_splits)
    have co: "coalesced {a} ?B"
      unfolding coalesced_def
    proof (intro allI impI)
      fix x n k al
      assume x: "?B x = Some (n, False)" "?B (x + n) = Some (k, al)" "x \<notin> {a}" "x + n \<notin> {a}"
      show al
      proof (cases "x = a + ?c")
        case True
        then have "x + n = a + s" using x(1) assms(6) by auto
        then have "B (a + s) = Some (k, al)" using x(2) ne by simp
        then show al using assms(2,3) by (auto simp: coalesced_def)
      next
        case False
        then have xB: "B x = Some (n, False)" using x(1,3) by simp
        then have "x \<notin> sentinels R" by (intro free_not_sentinel [OF tilingD(2) [OF h(1)]]) (auto simp: frees_def)
        then have "x + n \<in> dom B" using neighboursE [OF h(1) xB] by blast
        then have "B (x + n) = Some (k, al)" using x(2,4) new by (auto split: if_splits)
        then show al using xB assms(2) by (auto simp: coalesced_def)
      qed
    qed
    have hd: "a \<notin> heads z" "a + ?c \<notin> heads z" "a + ?c \<noteq> 0"
      using clear_heads [OF h(2) assms(3), of a] clear_heads [OF h(2) assms(3), of "a + ?c"] big assms(5) by auto
    have nf: "a + ?c \<notin> frees B" using new by (auto simp: frees_def)
    have fl: "free_lists z m1 (frees B - {a})"
      using hd nf by (intro free_lists_cong [OF h(4)]) (auto simp: m1_def)
    obtain m' where m': "mdx_fl_add_node z (a + ?c) m1 = Some m'" "free_lists z m' (insert (a + ?c) (frees B - {a}))"
        "links_only (heads z \<union> insert (a + ?c) (frees B - {a})) m1 m'"
      using add_ok [OF fl, of "a + ?c"] hd nf av big by (auto simp: m1_def)
    have fr: "frees ?B - {a} = insert (a + ?c) (frees B - {a})" using ne(2) by (auto simp: frees_def)
    have "half_inv z m' ?B R a"
      unfolding half_inv_def fr using tiling_cong [OF t links_onlyD(1,2) [OF m'(3)]] cl co m'(2) ne(2) by (auto simp: frees_def)
    moreover have "same_allocated B ?B" using assms(3) new by (auto simp: same_allocated_def)
    moreover have "hdr_only (heads z \<union> dom B \<union> dom ?B) m m'"
    proof (rule hdr_only_trans [where m' = m1])
      have "a + s \<in> dom B" using neighboursE [OF h(1) assms(3) h(6)] by blast
      then show "hdr_only (heads z \<union> dom B \<union> dom ?B) m m1" using assms(3) by (auto simp: hdr_only_def m1_def)
      show "hdr_only (heads z \<union> dom B \<union> dom ?B) m1 m'" by (rule hdr_only_links [OF m'(3)]) (auto simp: frees_def)
    qed
    ultimately show thesis using that [of m' ?B ?c] sp m'(1) ne(2) assms(6) by simp
  qed
qed

section \<open>The steps of release\<close>

lemma unmark_ok:
  assumes "fl_inv z m B R" "B a = Some (n, True)" "a \<notin> sentinels R"
  defines "m' \<equiv> set_fg a (fg m a AND NOT FLAG_ALLOCATED) m"
  shows "half_inv z m' (B(a \<mapsto> (n, False))) R a" "hdr_only {a} m m'"
proof -
  have f: "free_lists z m (frees B)" "tiling m B R" "clear z B" "coalesced {} B" using assms(1) by (simp_all add: fl_inv_def)
  have "tiling m' (B(a \<mapsto> (n, False))) R"
    by (rule tiling_flag [OF f(2) assms(2,3)]) (simp_all add: m'_def)
  moreover have "clear z (B(a \<mapsto> (n, False)))" using f(3) assms(2) by (auto simp: clear_def)
  moreover have "coalesced {a} (B(a \<mapsto> (n, False)))" using f(4) by (auto simp: coalesced_def split: if_splits)
  moreover have "frees (B(a \<mapsto> (n, False))) - {a} = frees B" using assms(2) by (auto simp: frees_def)
  moreover have "free_lists z m' (frees B)" by (rule free_lists_cong [OF f(1)]) (simp add: m'_def)
  ultimately show "half_inv z m' (B(a \<mapsto> (n, False))) R a" by (simp add: half_inv_def frees_def)
  show "hdr_only {a} m m'" by (simp add: hdr_only_def m'_def)
qed

text \<open>A free block \<open>b\<close> that is not in the free list any more is joined with the one after it.\<close>

lemma join_ok:
  assumes h: "tiling m B R" "clear z B" "coalesced {a, a'} B" "free_lists z m (frees B - {a, a'})"
    and a: "B a = Some (n, False)" and a': "B a' = Some (k, False)" "a' = a + n"
    and s: "unat s = n + k"
  defines "m' \<equiv> set_prev_size (a' + k) s (set_sz a s m)"
  shows "half_inv z m' (B(a \<mapsto> (n + k, False), a' := None)) R a" "hdr_only (dom B) m m'"
proof -
  let ?B = "B(a \<mapsto> (n + k, False), a' := None)"
  have ns: "a \<notin> sentinels R" "a' \<notin> sentinels R"
    using a a' by (auto intro!: free_not_sentinel [OF tilingD(2) [OF h(1)]] simp: frees_def)
  have p: "16 \<le> n" "16 \<le> k" by (rule size_pos [OF h(1) a], rule size_pos [OF h(1) a'(1)])
  have small: "unat s < 2 ^ 31" using merged_small [OF h(1) a _ ns(1), of k False] a' s by simp
  have t: "tiling m' ?B R"
    unfolding a'(2) by (rule tiling_merge [OF h(1) a ns(1) a'(1) [unfolded a'(2)] ns(2) [unfolded a'(2)]])
      (use flag_prev [OF small] s p in \<open>auto simp: m'_def a'(2)\<close>)
  have cl: "clear z ?B"
  proof -
    have "a \<noteq> 0" "a + n \<le> z \<or> z + 512 \<le> a" "a + n + k \<le> z \<or> z + 512 \<le> a + n" using h(2) a a' by (auto simp: clear_def)
    then have "a \<noteq> 0" "a + n + k \<le> z \<or> z + 512 \<le> a" by linarith+
    then show ?thesis using h(2) a by (auto simp: clear_def split: if_splits)
  qed
  have co: "coalesced {a} ?B" using h(3) by (auto simp: coalesced_def split: if_splits)
  have fr: "frees ?B - {a} = frees B - {a, a'}" by (auto simp: frees_def)
  have "a \<notin> heads z" using clear_heads [OF h(2) a, of a] p by simp
  then have "free_lists z m' (frees B - {a, a'})" by (intro free_lists_cong [OF h(4)]) (auto simp: m'_def)
  then show "half_inv z m' ?B R a"
    unfolding half_inv_def fr using t cl co p by (simp add: frees_def a'(2))
  have "a' + k \<in> dom B" using neighboursE [OF h(1) a'(1) ns(2)] by blast
  then show "hdr_only (dom B) m m'" using a by (auto simp: hdr_only_def m'_def)
qed

lemma next_block:
  assumes "tiling m B R" "B a = Some (n, al)" "a \<notin> sentinels R"
  obtains k al' where "B (a + n) = Some (k, al')"
  using neighboursE [OF assms] by (metis domD prod.exhaust)

lemma detach_ok:
  assumes "half_inv z m B R a" "b \<in> frees B" "b \<noteq> a"
  shows "free_lists z (fl_unlink b m) (frees B - {a, b})" "tiling (fl_unlink b m) B R" "sz (fl_unlink b m) = sz m" "fg (fl_unlink b m) = fg m"
    "hdr_only (heads z \<union> dom B) m (fl_unlink b m)"
proof -
  note h = half_invD [OF assms(1)]
  have "b \<in> frees B - {a}" using assms(2,3) by simp
  note u = unlink_ok [OF h(4) this]
  have "frees B - {a, b} = frees B - {a} - {b}" by auto
  then show "free_lists z (fl_unlink b m) (frees B - {a, b})" using u(1) by simp
  show s: "sz (fl_unlink b m) = sz m" "fg (fl_unlink b m) = fg m" by (rule links_onlyD [OF u(2)])+
  show "tiling (fl_unlink b m) B R" by (rule tiling_cong [OF h(1) s])
  show "hdr_only (heads z \<union> dom B) m (fl_unlink b m)" by (rule hdr_only_links [OF u(2)]) (auto simp: frees_def)
qed

lemma coalesced_mono: "coalesced H B \<Longrightarrow> H \<subseteq> H' \<Longrightarrow> coalesced H' B"
  unfolding coalesced_def by blast

lemma merge_next_ok:
  assumes "half_inv z m B R a" "B a = Some (n, False)"
  obtains m' B' n' k where "fl_merge_next a m = (a + n', m')" "half_inv z m' B' R a" "B' a = Some (n', False)" "B' (a + n') = Some (k, True)"
    "same_allocated B B'" "dom B' \<subseteq> dom B" "hdr_only (heads z \<union> dom B) m m'"
proof -
  note h = half_invD [OF assms(1)]
  have sa: "unat (sz m a) = n" "16 \<le> n" using tilingD(3) [OF h(1) assms(2)] by (simp_all add: block_ok_def)
  obtain k al where k: "B (a + n) = Some (k, al)" by (rule next_block [OF h(1) assms(2) h(6)])
  have sn: "unat (sz m (a + n)) = k" "alc (fg m (a + n)) = al" using tilingD(3) [OF h(1) k] by (simp_all add: block_ok_def)
  show thesis
  proof (cases al)
    case True
    then have "fl_merge_next a m = (a + n, m)" using sa(1) sn(2) by (simp add: fl_merge_next_def Let_def alc_def)
    then show thesis using that [of n m B k] assms k True by (simp add: same_allocated_def)
  next
    case False
    then have kf: "B (a + n) = Some (k, False)" "a + n \<in> frees B" "a + n \<noteq> a" using k sa(2) by (auto simp: frees_def)
    note u = detach_ok [OF assms(1) kf(2,3)]
    let ?m = "fl_unlink (a + n) m" and ?s = "sz m a + sz m (a + n)" and ?B = "B(a \<mapsto> (n + k, False), a + n := None)"
    have s: "unat ?s = n + k"
      using merged_small [OF h(1) assms(2) k h(6)] sa(1) sn(1) by (simp add: unat_add_small)
    note j = join_ok [OF u(2) h(2) coalesced_mono [OF h(3)] u(1) assms(2) kf(1) refl s]
    have mn: "fl_merge_next a m = (a + (n + k), set_prev_size (a + n + k) ?s (set_sz a ?s ?m))"
      using sa(1) sn False u(3) by (simp add: fl_merge_next_def Let_def alc_def add.assoc)
    obtain i al' where i: "B (a + n + k) = Some (i, al')"
      by (rule next_block [OF h(1) kf(1) free_not_sentinel [OF tilingD(2) [OF h(1)] kf(2)]])
    have "al'" using h(3) kf(1) i sa(2) unfolding coalesced_def by force
    then have "?B (a + (n + k)) = Some (i, True)" using i sa(2) size_pos [OF h(1) k] by (simp add: add.assoc)
    moreover have "same_allocated B ?B" using assms(2) kf(1) by (auto simp: same_allocated_def)
    moreover have "hdr_only (heads z \<union> dom B) m (set_prev_size (a + n + k) ?s (set_sz a ?s ?m))"
      by (rule hdr_only_trans [OF u(5) hdr_only_mono [OF j(2)]]) auto
    ultimately show thesis
      using that [OF mn, of ?B i] j(1) assms(2) sa(2) by auto
  qed
qed

lemma merge_prev_ok:
  assumes "half_inv z m B R a" "B a = Some (n, False)" "B (a + n) = Some (k, True)"
  obtains m' B' c where "fl_merge_prev a (a + n) m = (c, m')" "half_inv z m' B' R c" "coalesced {} B'"
    "same_allocated B B'" "dom B' \<subseteq> dom B" "hdr_only (heads z \<union> dom B) m m'"
proof -
  note h = half_invD [OF assms(1)]
  have sa: "unat (sz m a) = n" "16 \<le> n" "\<not> alc (fg m a)" using tilingD(3) [OF h(1) assms(2)] by (simp_all add: block_ok_def)
  obtain c i al where c: "B c = Some (i, al)" "c + i = a" "psz (fg m a) = i" using neighboursE [OF h(1) assms(2) h(6)] .
  have sc: "unat (sz m c) = i" "alc (fg m c) = al" "16 \<le> i" using tilingD(3) [OF h(1) c(1)] by (simp_all add: block_ok_def)
  have pr: "a - unat (fg m a) = c" using psz_unat [OF sa(3)] c(2,3) by simp
  show thesis
  proof (cases al)
    case True
    then have mp: "fl_merge_prev a (a + n) m = (a, m)" using pr sc(2) by (simp add: fl_merge_prev_def Let_def alc_def)
    have "coalesced {} B"
      unfolding coalesced_def
    proof (intro allI impI)
      fix x j l f
      assume x: "B x = Some (j, False)" "B (x + j) = Some (l, f)"
      have "x + j = a \<Longrightarrow> x = c"
        using prev_unique [OF tilingD(1) [OF h(1)] x(1) c(1)] size_pos [OF h(1) x(1)] sc(3) c(2) by simp
      then have "x + j \<noteq> a" using x(1) c(1) True by auto
      then show f using h(3) x assms(2,3) unfolding coalesced_def by (cases "x = a") auto
    qed
    then show thesis using that [OF mp assms(1)] by (simp add: same_allocated_def)
  next
    case False
    then have cf: "B c = Some (i, False)" "c \<in> frees B" "c \<noteq> a" using c sc(3) by (auto simp: frees_def)
    note u = detach_ok [OF assms(1) cf(2,3)]
    let ?m = "fl_unlink c m" and ?s = "sz m c + sz m a" and ?B = "B(c \<mapsto> (i + n, False), a := None)"
    have "c \<notin> sentinels R" by (rule free_not_sentinel [OF tilingD(2) [OF h(1)] cf(2)])
    then have s: "unat ?s = i + n"
      using merged_small [OF h(1) cf(1), of n False] assms(2) c(2) sa(1) sc(1) by (simp add: unat_add_small)
    have "{a, c} = {c, a}" by auto
    note j = join_ok [OF u(2) h(2) coalesced_mono [OF h(3)] u(1) [unfolded this] cf(1) assms(2) c(2) [symmetric] s]
    have mp: "fl_merge_prev a (a + n) m = (c, set_prev_size (a + n) ?s (set_sz c ?s ?m))"
      using pr sc False u(3,4) by (simp add: fl_merge_prev_def Let_def alc_def)
    have hc: "half_inv z (set_prev_size (a + n) ?s (set_sz c ?s ?m)) ?B R c" by (rule j(1)) auto
    have "coalesced {} ?B"
      unfolding coalesced_def
    proof (intro allI impI)
      fix x j l f
      assume x: "?B x = Some (j, False)" "?B (x + j) = Some (l, f)"
      show f
      proof (cases "x = c")
        case True
        then show f using x assms(3) c(2) sa(2) cf(3) by (auto simp: add.assoc [symmetric] split: if_splits)
      next
        case xc: False
        then have xB: "B x = Some (j, False)" "x \<noteq> a" using x(1) by (auto split: if_splits)
        have "x + j \<noteq> c" using h(3) xB cf(1,3) unfolding coalesced_def by force
        then show f using half_invD(3) [OF hc] x xc unfolding coalesced_def by blast
      qed
    qed
    moreover have "same_allocated B ?B" using assms(2) cf(1) by (auto simp: same_allocated_def)
    moreover have "hdr_only (heads z \<union> dom B) m (set_prev_size (a + n) ?s (set_sz c ?s ?m))"
      by (rule hdr_only_trans [OF u(5) hdr_only_mono [OF j(2)]]) auto
    ultimately show thesis using that [OF mp hc] cf(1) by auto
  qed
qed

end
