(* ===== verification/Freelist_Properties.thy ===== *)
theory Freelist_Properties
  imports Freelist_Ops
begin

text \<open>
  What the allocator of \<^verbatim>\<open>kernel/malloc/mdx_freelist.c\<close> promises: a zone that has been initialised
  and given a region stays well formed under every sequence of allocations and releases, all of
  which return, and the blocks it has handed out never overlap.
\<close>

section \<open>Allocation\<close>

text \<open>The outcome in terms of the size \<open>w\<close> that the code searches for.\<close>

lemma malloc_core:
  assumes inv: "fl_inv z m B R" and n: "n \<noteq> 0" and w: "w = align_loop (n + NODE_W)" "16 dvd unat w" "16 \<le> unat w"
  shows "\<exists>p m'. mdx_fl_malloc z n m = Some (p, m') \<and>
    (p = 0 \<and> m' = m \<and> (\<forall>a s. B a = Some (s, False) \<longrightarrow> s < unat w) \<or>
     (\<exists>a s B' s'. p = a + 16 \<and> B a = Some (s, False) \<and> (\<forall>b k. B b = Some (k, False) \<longrightarrow> unat w \<le> k \<longrightarrow> s \<le> k)
        \<and> B' a = Some (s', True) \<and> unat w \<le> s' \<and> s' \<le> s \<and> s' \<le> unat w + 16 \<and> fl_inv z m' B' R
        \<and> (\<forall>b k. b \<noteq> a \<longrightarrow> B' b = Some (k, True) \<longleftrightarrow> B b = Some (k, True))
        \<and> hdr_only (heads z \<union> dom B \<union> dom B') m m'))"
proof -
  have f: "free_lists z m (frees B)" "tiling m B R" "coalesced {} B" using inv by (simp_all add: fl_inv_def)
  have sz: "B a = Some (s, al) \<Longrightarrow> unat (sz m a) = s" for a s al
    using tilingD(3) [OF f(2), of a s al] by (simp add: block_ok_def)
  obtain r where r: "fl_search w m (nx m (nodelist z (size2i w))) = Some r"
    "(r = 0 \<and> (\<forall>a \<in> frees B. sz m a < w)) \<or> (r \<in> frees B \<and> w \<le> sz m r \<and> (\<forall>a \<in> frees B. w \<le> sz m a \<longrightarrow> sz m r \<le> sz m a))"
    using search_ok [OF f(1) w(3)] by metis
  show ?thesis
  proof (cases "r = 0")
    case True
    have "0 \<notin> frees B" using f(1) by (simp add: free_lists_def free_nodes_def)
    then have "\<forall>a \<in> frees B. sz m a < w" using r(2) True by auto
    then have "s < unat w" if "B a = Some (s, False)" for a s
      using that sz [OF that] by (auto simp: frees_def word_less_unat)
    then show ?thesis using r(1) True n w(1) by (auto simp: mdx_fl_malloc_def Let_def)
  next
    case False
    then obtain s where s: "r \<in> frees B" "B r = Some (s, False)" "unat w \<le> s"
      and best: "\<forall>a \<in> frees B. w \<le> sz m a \<longrightarrow> sz m r \<le> sz m a"
      using r(2) sz by (auto simp: frees_def word_le_unat)
    have bf: "s \<le> k" if "B b = Some (k, False)" "unat w \<le> k" for b k
      using best sz [OF that(1)] sz [OF s(2)] that by (auto simp: frees_def word_le_unat)
    note tk = take_ok [OF inv s(1)]
    obtain m1 B1 s1 where m1: "fl_split z r w (fl_unlink r m) = Some m1" "half_inv z m1 B1 R r" "B1 r = Some (s1, False)"
        "unat w \<le> s1" "s1 \<le> s" "s1 \<le> unat w + 16" "same_allocated B B1" "hdr_only (heads z \<union> dom B \<union> dom B1) (fl_unlink r m) m1"
      by (rule split_ok [OF tk(1) f(3) s(2) w(2,3) s(3)])
    let ?m = "set_pv r 0 (set_nx r 0 (set_fg r (fg m1 r OR FLAG_ALLOCATED) m1))" and ?B = "B1(r \<mapsto> (s1, True))"
    note mk = mark_ok [OF m1(2,3)]
    have m: "mdx_fl_malloc z n m = Some (r + 16, ?m)"
      using r(1) False n m1(1) w(1) by (simp add: mdx_fl_malloc_def Let_def NODE_S_def)
    have h: "hdr_only (heads z \<union> dom B \<union> dom ?B) m ?m"
      by (intro hdr_only_trans [OF hdr_only_mono [OF tk(2)] hdr_only_trans [OF hdr_only_mono [OF m1(8)] hdr_only_mono [OF mk(2)]]]) auto
    have "\<forall>b k. b \<noteq> r \<longrightarrow> ?B b = Some (k, True) \<longleftrightarrow> B b = Some (k, True)" using m1(7) by (simp add: same_allocated_def)
    then have "r + 16 = r + 16 \<and> B r = Some (s, False) \<and> (\<forall>b k. B b = Some (k, False) \<longrightarrow> unat w \<le> k \<longrightarrow> s \<le> k)
        \<and> ?B r = Some (s1, True) \<and> unat w \<le> s1 \<and> s1 \<le> s \<and> s1 \<le> unat w + 16 \<and> fl_inv z ?m ?B R
        \<and> (\<forall>b k. b \<noteq> r \<longrightarrow> ?B b = Some (k, True) \<longleftrightarrow> B b = Some (k, True)) \<and> hdr_only (heads z \<union> dom B \<union> dom ?B) m ?m"
      using bf s(2) m1(4,5,6) mk(1) h by (intro conjI) auto
    then show ?thesis using m by blast
  qed
qed

lemma malloc_ok:
  assumes inv: "fl_inv z m B R" and n: "n \<noteq> 0" "unat n + 32 \<le> 2 ^ 32"
  shows "\<exists>p m'. mdx_fl_malloc z n m = Some (p, m') \<and>
    (p = 0 \<and> m' = m \<and> (\<forall>a s. B a = Some (s, False) \<longrightarrow> s < unat n + 16) \<or>
     (\<exists>a s B' s'. p = a + 16 \<and> B a = Some (s, False) \<and> (\<forall>b k. B b = Some (k, False) \<longrightarrow> unat n + 16 \<le> k \<longrightarrow> s \<le> k)
        \<and> B' a = Some (s', True) \<and> unat n + 16 \<le> s' \<and> s' \<le> s \<and> s' < unat n + 48 \<and> fl_inv z m' B' R
        \<and> (\<forall>b k. b \<noteq> a \<longrightarrow> B' b = Some (k, True) \<longleftrightarrow> B b = Some (k, True))
        \<and> hdr_only (heads z \<union> dom B \<union> dom B') m m'))"
proof -
  define w where "w = align_loop (n + NODE_W)"
  have "unat (n + NODE_W) = unat n + 16" using n(2) by (simp add: NODE_W_def unat_add_small)
  then have w: "16 dvd unat w" "unat n + 16 \<le> unat w" "unat w < unat n + 32"
    using align_bounds [of "n + NODE_W"] n(2) by (auto simp: w_def)
  have dv: "16 dvd k" if "B b = Some (k, al)" for b k al
    using that inv tilingD(3) [of m B R b k al] by (simp add: fl_inv_def block_ok_def)
  have fits: "unat w \<le> k \<longleftrightarrow> unat n + 16 \<le> k" if bk: "B b = Some (k, False)" for b k
  proof -
    obtain i j where ij: "k = 16 * i" "unat w = 16 * j" using dv [OF bk] w(1) by (auto elim!: dvdE)
    have "unat n + 16 \<le> k \<Longrightarrow> 16 * j < 16 * (i + 1)" using w(3) ij by simp
    then show ?thesis using ij w(2) by auto
  qed
  have "16 \<le> unat w" using w(2) by simp
  note core = malloc_core [OF inv n(1) w_def w(1) this]
  then obtain p m' where m: "mdx_fl_malloc z n m = Some (p, m')"
    and c: "p = 0 \<and> m' = m \<and> (\<forall>a s. B a = Some (s, False) \<longrightarrow> s < unat w) \<or>
     (\<exists>a s B' s'. p = a + 16 \<and> B a = Some (s, False) \<and> (\<forall>b k. B b = Some (k, False) \<longrightarrow> unat w \<le> k \<longrightarrow> s \<le> k)
        \<and> B' a = Some (s', True) \<and> unat w \<le> s' \<and> s' \<le> s \<and> s' \<le> unat w + 16 \<and> fl_inv z m' B' R
        \<and> (\<forall>b k. b \<noteq> a \<longrightarrow> B' b = Some (k, True) \<longleftrightarrow> B b = Some (k, True))
        \<and> hdr_only (heads z \<union> dom B \<union> dom B') m m')" by blast
  from c show ?thesis
  proof (elim disjE exE conjE)
    assume "p = 0" "m' = m" and s: "\<forall>a s. B a = Some (s, False) \<longrightarrow> s < unat w"
    then show ?thesis using m fits by (metis not_le)
  next
    fix a s B' s'
    assume a: "p = a + 16" "B a = Some (s, False)" "\<forall>b k. B b = Some (k, False) \<longrightarrow> unat w \<le> k \<longrightarrow> s \<le> k"
        "B' a = Some (s', True)" "unat w \<le> s'" "s' \<le> s" "s' \<le> unat w + 16" "fl_inv z m' B' R"
        "\<forall>b k. b \<noteq> a \<longrightarrow> B' b = Some (k, True) \<longleftrightarrow> B b = Some (k, True)" "hdr_only (heads z \<union> dom B \<union> dom B') m m'"
    then have "\<forall>b k. B b = Some (k, False) \<longrightarrow> unat n + 16 \<le> k \<longrightarrow> s \<le> k" "unat n + 16 \<le> s'" "s' < unat n + 48"
      using fits w by auto
    then show ?thesis using m a by blast
  qed
qed

section \<open>Release\<close>

lemma free_ok:
  assumes "fl_inv z m B R" "B a = Some (n, True)" "a \<notin> sentinels R"
  shows "\<exists>m' B'. mdx_fl_free z (a + 16) m = Some m' \<and> fl_inv z m' B' R \<and> dom B' \<subseteq> dom B
    \<and> (\<forall>b k. B' b = Some (k, True) \<longleftrightarrow> b \<noteq> a \<and> B b = Some (k, True)) \<and> hdr_only (heads z \<union> dom B) m m'"
proof -
  let ?m = "set_fg a (fg m a AND NOT FLAG_ALLOCATED) m" and ?B = "B(a \<mapsto> (n, False))"
  note um = unmark_ok [OF assms]
  obtain m1 B1 n1 k where m1: "fl_merge_next a ?m = (a + n1, m1)" "half_inv z m1 B1 R a" "B1 a = Some (n1, False)" "B1 (a + n1) = Some (k, True)"
      "same_allocated ?B B1" "dom B1 \<subseteq> dom ?B" "hdr_only (heads z \<union> dom ?B) ?m m1"
    by (rule merge_next_ok [OF um(1)]) simp
  obtain m2 B2 c where m2: "fl_merge_prev a (a + n1) m1 = (c, m2)" "half_inv z m2 B2 R c" "coalesced {} B2"
      "same_allocated B1 B2" "dom B2 \<subseteq> dom B1" "hdr_only (heads z \<union> dom B1) m1 m2"
    by (rule merge_prev_ok [OF m1(2-4)])
  obtain m3 where m3: "mdx_fl_add_node z c m2 = Some m3" "fl_inv z m3 B2 R" "hdr_only (heads z \<union> dom B2) m2 m3"
    by (rule insert_ok [OF m2(2,3)])
  have d: "dom ?B = dom B" using assms(2) by auto
  have d1: "dom B1 \<subseteq> dom B" using m1(6) unfolding d .
  have d2: "dom B2 \<subseteq> dom B" by (rule subset_trans [OF m2(5) d1])
  have "mdx_fl_free z (a + 16) m = Some m3"
    using m1(1) m2(1) m3(1) by (simp add: mdx_fl_free_def Let_def NODE_S_def)
  moreover have "hdr_only (heads z \<union> dom B) m m3"
    using d d1 d2 assms(2)
    by (intro hdr_only_trans [OF hdr_only_mono [OF um(2)] hdr_only_trans [OF hdr_only_mono [OF m1(7)]
          hdr_only_trans [OF hdr_only_mono [OF m2(6)] hdr_only_mono [OF m3(3)]]]]) blast+
  moreover have "\<forall>b k. B2 b = Some (k, True) \<longleftrightarrow> b \<noteq> a \<and> B b = Some (k, True)"
    using m1(5) m2(4) by (auto simp: same_allocated_def)
  ultimately show ?thesis using m3(2) d2 by blast
qed

section \<open>Initialisation\<close>

lemma zero_heads_sel:
  "dat (fl_zero_heads z n m) = dat m" "sz (fl_zero_heads z n m) x = (if x \<in> nodelist z ` {..<n} then 0 else sz m x)"
  "nx (fl_zero_heads z n m) x = (if x \<in> nodelist z ` {..<n} then 0 else nx m x)"
  by (induction n) (auto simp: Let_def lessThan_Suc)

lemma link_heads_sel:
  "sz (fl_link_heads z n m) = sz m"
  "nx (fl_link_heads z n m) (nodelist z j) = (if j < n then nodelist z (Suc j) else nx m (nodelist z j))"
  "j < n \<Longrightarrow> pv (fl_link_heads z n m) (nodelist z (Suc j)) = nodelist z j"
  by (induction n) (auto simp: Let_def less_Suc_eq)

lemma lseg_map:
  "(\<And>i. a \<le> i \<Longrightarrow> Suc i < b \<Longrightarrow> nx m (f i) = f (Suc i) \<and> pv m (f (Suc i)) = f i) \<Longrightarrow> lseg m (map f [a..<b])"
proof (induction b)
  case (Suc b)
  then have "lseg m (map f [a..<b])" by simp
  then show ?case using Suc.prems [of "b - 1"] by (cases "a < b") (auto simp: lseg_append last_map)
qed simp

lemma init_ok:
  assumes "z \<noteq> 0"
  shows "free_lists z (mdx_fl_init z m) {}"
proof -
  let ?m = "mdx_fl_init z m"
  have f: "flist z (\<lambda>_. []) 0 32 = map (nodelist z) [0..<32]" by (simp add: flist_def concat_map_singleton)
  have "lseg ?m (map (nodelist z) [0..<32])"
    by (rule lseg_map) (simp add: mdx_fl_init_def link_heads_sel)
  moreover have "nx ?m (nodelist z 31) = 0" by (simp add: mdx_fl_init_def link_heads_sel zero_heads_sel)
  moreover have "last (map (nodelist z) [0..<32]) = nodelist z 31" by (simp add: last_map)
  ultimately have "linked ?m (flist z (\<lambda>_. []) 0 32)" unfolding f linked_def by simp
  moreover have "classes ?m {} (\<lambda>_. [])" by (simp add: classes_def)
  moreover have "free_nodes z ?m {}" using assms by (simp add: free_nodes_def mdx_fl_init_def link_heads_sel zero_heads_sel)
  ultimately show ?thesis by (auto simp: free_lists_def)
qed

definition region_blocks :: "nat \<Rightarrow> nat \<Rightarrow> blocks" where
  "region_blocks b l = [b \<mapsto> (16, True), b + 16 \<mapsto> (l - 32, False), b + l - 16 \<mapsto> (16, True)]"

lemma region_blocks_Some:
  "48 \<le> l \<Longrightarrow> region_blocks b l a = Some (n, al) \<longleftrightarrow>
     a = b \<and> n = 16 \<and> al \<or> a = b + 16 \<and> n = l - 32 \<and> \<not> al \<or> a = b + l - 16 \<and> n = 16 \<and> al"
  by (auto simp: region_blocks_def)

text \<open>The place of a region: not at address 0, apart from the zone, and of a size that headers can hold.\<close>

definition region_fits :: "nat \<Rightarrow> nat \<Rightarrow> u32 \<Rightarrow> bool" where
  "region_fits z b l \<longleftrightarrow> z \<noteq> 0 \<and> b \<noteq> 0 \<and> 48 \<le> unat l \<and> unat l < 2 ^ 31 \<and> 16 dvd unat l \<and> (b + unat l \<le> z \<or> z + 512 \<le> b)"

lemma region_tiling:
  assumes "48 \<le> l" "l < 2 ^ 31" "16 dvd l"
    and s: "unat (sz m b) = 16" "unat (sz m (b + 16)) = l - 32" "unat (sz m (b + l - 16)) = 16"
    and f: "alc (fg m b)" "\<not> alc (fg m (b + 16))" "alc (fg m (b + l - 16))" "psz (fg m (b + 16)) = 16" "psz (fg m (b + l - 16)) = l - 32"
  shows "tiling m (region_blocks b l) {(b, l)}"
proof -
  note rb = region_blocks_Some [OF assms(1)]
  have "16 dvd l - 32" using assms(3) by (simp add: dvd_diff_nat)
  then have "block_ok m a n al" if "region_blocks b l a = Some (n, al)" for a n al
    using that assms by (auto simp: rb block_ok_def)
  moreover have "disjoint_blocks (region_blocks b l)" using assms(1) by (auto simp: disjoint_blocks_def rb)
  moreover have "regions_ok (region_blocks b l) {(b, l)}" using assms(1,2) by (auto simp: regions_ok_def rb)
  moreover have "neighbours m (region_blocks b l) (b + 16) (l - 32)"
  proof (rule neighboursI)
    have e: "b + 16 + (l - 32) = b + l - 16" using assms(1) by simp
    show "b + 16 + (l - 32) \<in> dom (region_blocks b l)" unfolding e by (auto simp: rb dom_def)
    show "psz (fg m (b + 16 + (l - 32))) = l - 32" unfolding e by (rule f(5))
    show "region_blocks b l b = Some (16, True)" by (simp add: rb)
  qed (use f in auto)
  then have "neighbours m (region_blocks b l) a n" if "region_blocks b l a = Some (n, al)" "a \<notin> sentinels {(b, l)}" for a n al
    using that by (auto simp: rb sentinels_def)
  ultimately show ?thesis by (simp add: tiling_def)
qed

lemma add_region_ok:
  assumes "free_lists z m {}" "region_fits z b l"
  shows "\<exists>m'. mdx_fl_add_region z b l m = Some m' \<and> fl_inv z m' (region_blocks b (unat l)) {(b, unat l)}"
proof -
  let ?n = "unat l"
  have r: "b \<noteq> 0" "48 \<le> ?n" "?n < 2 ^ 31" "16 dvd ?n" "b + ?n \<le> z \<or> z + 512 \<le> b" using assms(2) by (simp_all add: region_fits_def)
  note rb = region_blocks_Some [OF r(2)]
  have l: "unat (l - 2 * NODE_W) = ?n - 32" using r(2) unat_diff_le [of 32 l] by (simp add: NODE_W_def word_le_unat)
  have hz: "x \<notin> heads z" if "b \<le> x" "x < b + ?n" for x using that r(5) heads_range [of x z] by auto
  define m1 where "m1 = set_fg (b + 16) NODE_W (set_sz (b + 16) (l - 2 * NODE_W) (set_fg b FLAG_ALLOCATED (set_sz b NODE_W m)))"
  have f1: "free_lists z m1 {}" using hz [of b] hz [of "b + 16"] r(2) by (intro free_lists_cong [OF assms(1)]) (auto simp: m1_def)
  have "16 \<le> unat (sz m1 (b + 16))" using l r(2) by (simp add: m1_def)
  then obtain m2 where m2: "mdx_fl_add_node z (b + 16) m1 = Some m2" "free_lists z m2 {b + 16}" "links_only (heads z \<union> {b + 16}) m1 m2"
    using add_ok [OF f1, of "b + 16"] hz [of "b + 16"] r(2) by auto
  define m3 where "m3 = set_fg (b + ?n - 16) ((l - 2 * NODE_W) OR FLAG_ALLOCATED) (set_sz (b + ?n - 16) NODE_W m2)"
  have m3: "mdx_fl_add_region z b l m = Some m3" using m2(1) by (simp add: mdx_fl_add_region_def Let_def m1_def m3_def NODE_S_def)
  have sel: "sz m3 = (sz m)(b := NODE_W, b + 16 := l - 2 * NODE_W, b + ?n - 16 := NODE_W)"
    "fg m3 = (fg m)(b := FLAG_ALLOCATED, b + 16 := NODE_W, b + ?n - 16 := (l - 2 * NODE_W) OR FLAG_ALLOCATED)"
    by (simp_all add: m3_def m1_def links_onlyD(1,2) [OF m2(3)])
  have "unat (l - 2 * NODE_W) < 2 ^ 31" "unat NODE_W < 2 ^ 31" using l r(3) by (auto simp: NODE_W_def)
  note fp = flag_prev(3,4) [OF this(1)] flag_prev(3,4) [OF this(2)]
  have "alc FLAG_ALLOCATED" using flag_simps(1) [of 0] by simp
  then have "tiling m3 (region_blocks b ?n) {(b, ?n)}"
    using r fp l by (intro region_tiling) (auto simp: sel NODE_W_def)
  moreover have "clear z (region_blocks b ?n)" using r by (auto simp: clear_def rb)
  moreover have "coalesced {} (region_blocks b ?n)" using r(2) by (auto simp: coalesced_def rb)
  moreover have "frees (region_blocks b ?n) = {b + 16}" by (auto simp: frees_def rb)
  moreover have "free_lists z m3 {b + 16}"
  proof (rule free_lists_cong [OF m2(2)])
    fix x
    assume "x \<in> heads z \<union> {b + 16}"
    moreover have "b \<le> b + ?n - 16" "b + ?n - 16 < b + ?n" "b + ?n - 16 \<noteq> b + 16" using r(2) by linarith+
    ultimately have "x \<noteq> b + ?n - 16" using hz [of "b + ?n - 16"] by blast
    then show "nx m3 x = nx m2 x \<and> pv m3 x = pv m2 x \<and> sz m3 x = sz m2 x" by (simp add: m3_def)
  qed
  ultimately show ?thesis using m3 by (simp add: fl_inv_def)
qed

section \<open>All sequences of operations\<close>

text \<open>The states of a zone at \<open>z\<close> with one region, with the blocks that are in use: the pointers that have
  been returned and not yet released, with the sizes asked for.\<close>

inductive fl_reach :: "nat \<Rightarrow> nat \<Rightarrow> u32 \<Rightarrow> fl_mem \<Rightarrow> (nat \<Rightarrow> nat option) \<Rightarrow> bool" for z b l where
  start: "mdx_fl_add_region z b l (mdx_fl_init z m) = Some m' \<Longrightarrow> fl_reach z b l m' Map.empty"
| malloc: "fl_reach z b l m L \<Longrightarrow> unat n + 32 \<le> 2 ^ 32 \<Longrightarrow> mdx_fl_malloc z n m = Some (p, m') \<Longrightarrow>
    fl_reach z b l m' (if p = 0 then L else L(p \<mapsto> unat n))"
| free: "fl_reach z b l m L \<Longrightarrow> p \<in> dom L \<Longrightarrow> mdx_fl_free z p m = Some m' \<Longrightarrow> fl_reach z b l m' (L(p := None))"

text \<open>The blocks in use are the allocated blocks between the ends of the region.\<close>

definition in_use :: "blocks \<Rightarrow> (nat \<times> nat) set \<Rightarrow> (nat \<Rightarrow> nat option) \<Rightarrow> bool" where
  "in_use B R L \<longleftrightarrow> (\<forall>p n. L p = Some n \<longrightarrow> (\<exists>a k. p = a + 16 \<and> B a = Some (k, True) \<and> n + 16 \<le> k \<and> a \<notin> sentinels R))"

lemma in_useE:
  assumes "in_use B R L" "L p = Some n"
  obtains a k where "p = a + 16" "B a = Some (k, True)" "n + 16 \<le> k" "a \<notin> sentinels R"
  using assms unfolding in_use_def by blast

lemma fl_reach_inv:
  assumes "fl_reach z b l m L" "region_fits z b l"
  shows "\<exists>B. fl_inv z m B {(b, unat l)} \<and> in_use B {(b, unat l)} L"
  using assms(1)
proof induction
  case (start m m')
  have "z \<noteq> 0" using assms(2) by (simp add: region_fits_def)
  from add_region_ok [OF init_ok [OF this] assms(2), of m] start show ?case by (auto simp: in_use_def)
next
  case (malloc m L n p m')
  then obtain B where B: "fl_inv z m B {(b, unat l)}" "in_use B {(b, unat l)} L" by blast
  show ?case
  proof (cases "n = 0 \<or> p = 0")
    case True
    then have "m' = m \<and> p = 0"
    proof (cases "n = 0")
      case nz: False
      then show ?thesis using True malloc.hyps(2,3) malloc_ok [OF B(1) nz] by auto
    qed (use malloc.hyps(3) in \<open>simp add: mdx_fl_malloc_def\<close>)
    then show ?thesis using B by auto
  next
    case False
    then have n: "n \<noteq> 0" "p \<noteq> 0" by auto
    obtain a s B' s' where a: "p = a + 16" "B a = Some (s, False)" "B' a = Some (s', True)" "unat n + 16 \<le> s'" "fl_inv z m' B' {(b, unat l)}"
        "\<forall>x k. x \<noteq> a \<longrightarrow> B' x = Some (k, True) \<longleftrightarrow> B x = Some (k, True)"
      using malloc_ok [OF B(1) n(1) malloc.hyps(2)] unfolding malloc.hyps(3) using n(2) by blast
    have s: "a \<notin> sentinels {(b, unat l)}"
      using B(1) a(2) by (intro free_not_sentinel [of B]) (auto simp: fl_inv_def tiling_def frees_def)
    have "in_use B' {(b, unat l)} (L(p \<mapsto> unat n))"
      unfolding in_use_def
    proof (intro allI impI)
      fix q j
      assume q: "(L(p \<mapsto> unat n)) q = Some j"
      show "\<exists>a k. q = a + 16 \<and> B' a = Some (k, True) \<and> j + 16 \<le> k \<and> a \<notin> sentinels {(b, unat l)}"
      proof (cases "q = p")
        case True
        then show ?thesis using q a(1,3,4) s by auto
      next
        case False
        then have "L q = Some j" using q by simp
        then obtain a' k' where a': "q = a' + 16" "B a' = Some (k', True)" "j + 16 \<le> k'" "a' \<notin> sentinels {(b, unat l)}"
          by (rule in_useE [OF B(2)])
        moreover have "a' \<noteq> a" using False a(1) a'(1) by simp
        ultimately show ?thesis using a(6) by blast
      qed
    qed
    then show ?thesis using a(5) n(2) unfolding if_not_P [OF n(2)] by blast
  qed
next
  case (free m L p m')
  then obtain B where B: "fl_inv z m B {(b, unat l)}" "in_use B {(b, unat l)} L" by blast
  obtain n where "L p = Some n" using free.hyps(2) by blast
  then obtain a k where a: "p = a + 16" "B a = Some (k, True)" "a \<notin> sentinels {(b, unat l)}" by (rule in_useE [OF B(2)])
  obtain B' where B': "fl_inv z m' B' {(b, unat l)}" "\<forall>x k. B' x = Some (k, True) \<longleftrightarrow> x \<noteq> a \<and> B x = Some (k, True)"
    using free_ok [OF B(1) a(2,3)] free.hyps(3) a(1) by auto
  have "in_use B' {(b, unat l)} (L(p := None))"
    unfolding in_use_def
  proof (intro allI impI)
    fix q j
    assume "(L(p := None)) q = Some j"
    then have q: "q \<noteq> p" "L q = Some j" by (auto split: if_splits)
    from q(2) obtain a' k' where a': "q = a' + 16" "B a' = Some (k', True)" "j + 16 \<le> k'" "a' \<notin> sentinels {(b, unat l)}"
      by (rule in_useE [OF B(2)])
    moreover have "a' \<noteq> a" using q(1) a(1) a'(1) by simp
    ultimately show "\<exists>a k. q = a + 16 \<and> B' a = Some (k, True) \<and> j + 16 \<le> k \<and> a \<notin> sentinels {(b, unat l)}" using B'(2) by blast
  qed
  then show ?case using B'(1) by blast
qed

lemma inside_region:
  assumes t: "tiling m B {(b, l)}" and a: "B a = Some (k, al)" "a \<notin> sentinels {(b, l)}"
  shows "b + 16 \<le> a" "a + k \<le> b + l - 16"
proof -
  note dj = disjointD [OF tilingD(1) [OF t]]
  have s: "B b = Some (16, True)" "B (b + l - 16) = Some (16, True)" "48 \<le> l"
    using tilingD(2) [OF t] by (simp_all add: regions_ok_def)
  have "b \<le> a" "a + k \<le> b + l" "16 \<le> k" using region_of [OF t a(1)] size_pos [OF t a(1)] by auto
  moreover have "a \<noteq> b" "a \<noteq> b + l - 16" using a(2) by (auto simp: sentinels_def)
  ultimately show "b + 16 \<le> a" "a + k \<le> b + l - 16"
    using dj [OF s(1) a(1)] dj [OF a(1) s(2)] dj [OF s(2) a(1)] s(3) by linarith+
qed

section \<open>What the allocator promises\<close>

text \<open>C4. In every state that allocations and releases can reach, the memory in use lies within the region,
  no two pieces of memory in use overlap, each is as long as was asked for, and the next
  operation returns: an allocation of any size up to \<open>2 ^ 32 - 32\<close>, and the release of any pointer in use.\<close>

theorem allocator_safe:
  assumes "fl_reach z b l m L" "region_fits z b l"
  shows "(\<forall>p n. L p = Some n \<longrightarrow> b + 32 \<le> p \<and> p + n \<le> b + unat l - 16 \<and> (\<exists>m'. mdx_fl_free z p m = Some m'))
    \<and> (\<forall>p q n k. L p = Some n \<longrightarrow> L q = Some k \<longrightarrow> p < q \<longrightarrow> p + n \<le> q)
    \<and> (\<forall>n. unat n + 32 \<le> 2 ^ 32 \<longrightarrow> (\<exists>p m'. mdx_fl_malloc z n m = Some (p, m')))"
proof (intro conjI allI impI)
  let ?R = "{(b, unat l)}"
  obtain B where B: "fl_inv z m B ?R" "in_use B ?R L" using fl_reach_inv [OF assms] by blast
  have t: "tiling m B ?R" using B(1) by (simp add: fl_inv_def)
  fix p n
  assume Lp: "L p = Some n"
  obtain a i where a: "p = a + 16" "B a = Some (i, True)" "n + 16 \<le> i" "a \<notin> sentinels ?R" using Lp by (rule in_useE [OF B(2)])
  show "b + 32 \<le> p" "p + n \<le> b + unat l - 16" "\<exists>m'. mdx_fl_free z p m = Some m'"
    using a inside_region [OF t a(2,4)] free_ok [OF B(1) a(2,4)] by auto
  show "p + n \<le> q" if q: "L q = Some k" "p < q" for q k
  proof -
    obtain c j where c: "q = c + 16" "B c = Some (j, True)" using q(1) by (rule in_useE [OF B(2)])
    show ?thesis using disjointD [OF tilingD(1) [OF t] a(2) c(2)] a c q(2) by simp
  qed
next
  fix n :: u32
  assume "unat n + 32 \<le> 2 ^ 32"
  moreover obtain B where "fl_inv z m B {(b, unat l)}" using fl_reach_inv [OF assms] by blast
  ultimately show "\<exists>p m'. mdx_fl_malloc z n m = Some (p, m')"
    using malloc_ok [of z m B "{(b, unat l)}" n] by (cases "n = 0") (auto simp: mdx_fl_malloc_def)
qed

definition fl_mem0 :: fl_mem where
  "fl_mem0 = \<lparr>nx = (\<lambda>_. 0), pv = (\<lambda>_. 0), sz = (\<lambda>_. 0), fg = (\<lambda>_. 0), dat = (\<lambda>_. 0)\<rparr>"

lemma region_fits_demo: "region_fits 512 4096 1024"
  by (simp add: region_fits_def)

lemma demo_started: "\<exists>m. mdx_fl_add_region 512 4096 1024 (mdx_fl_init 512 fl_mem0) = Some m \<and> fl_inv 512 m (region_blocks 4096 1024) {(4096, 1024)}"
  using add_region_ok [OF init_ok region_fits_demo, of fl_mem0] by simp

theorem allocator_safe_witness:
  "\<exists>m p. fl_reach 512 4096 1024 m [p \<mapsto> 100] \<and> 4128 \<le> p \<and> p + 100 \<le> 5104"
proof -
  obtain m where m: "mdx_fl_add_region 512 4096 1024 (mdx_fl_init 512 fl_mem0) = Some m" "fl_inv 512 m (region_blocks 4096 1024) {(4096, 1024)}"
    using demo_started by blast
  have r: "fl_reach 512 4096 1024 m Map.empty" by (rule fl_reach.start [OF m(1)])
  have free: "region_blocks 4096 1024 4112 = Some (992, False)" by (simp add: region_blocks_def)
  obtain p m' where p: "mdx_fl_malloc 512 100 m = Some (p, m')" "p \<noteq> 0"
    using malloc_ok [OF m(2), of 100] free by force
  have "fl_reach 512 4096 1024 m' [p \<mapsto> 100]"
    using fl_reach.malloc [OF r _ p(1)] p(2) by simp
  then show ?thesis using allocator_safe [OF _ region_fits_demo, of m' "[p \<mapsto> 100]"] by (intro exI [of _ m'] exI [of _ p]) simp
qed

text \<open>C9. An allocation gives the smallest free block that is large enough, cut to size, and fails only if
  there is none. It keeps the zone well formed and every block in use as it is, and it writes only
  to list heads and to headers of blocks, never into memory in use.\<close>

theorem malloc_best_fit:
  assumes "fl_inv z m B R" "n \<noteq> 0" "unat n + 32 \<le> 2 ^ 32"
  shows "\<exists>p m'. mdx_fl_malloc z n m = Some (p, m') \<and>
    (p = 0 \<and> m' = m \<and> (\<forall>a s. B a = Some (s, False) \<longrightarrow> s < unat n + 16) \<or>
     (\<exists>a s B' s'. p = a + 16 \<and> B a = Some (s, False) \<and> (\<forall>b k. B b = Some (k, False) \<longrightarrow> unat n + 16 \<le> k \<longrightarrow> s \<le> k)
        \<and> B' a = Some (s', True) \<and> unat n + 16 \<le> s' \<and> s' \<le> s \<and> s' < unat n + 48 \<and> fl_inv z m' B' R
        \<and> (\<forall>b k. b \<noteq> a \<longrightarrow> B' b = Some (k, True) \<longleftrightarrow> B b = Some (k, True))
        \<and> hdr_only (heads z \<union> dom B \<union> dom B') m m'))"
  by (rule malloc_ok [OF assms])

theorem malloc_best_fit_witness: "\<exists>m p m'. mdx_fl_malloc 512 100 m = Some (p, m') \<and> p = 4128"
proof -
  obtain m where m: "fl_inv 512 m (region_blocks 4096 1024) {(4096, 1024)}" using demo_started by blast
  have b: "region_blocks 4096 1024 a = Some (s, False) \<longleftrightarrow> a = 4112 \<and> s = 992" for a s by (auto simp: region_blocks_Some)
  obtain p m' where "mdx_fl_malloc 512 100 m = Some (p, m')" "p = 4128"
    using malloc_best_fit [OF m, of 100] unfolding b by auto
  then show ?thesis by blast
qed

text \<open>C10. Releasing a block in use keeps the zone well formed: the blocks tile the region with
  consistent headers, the free lists hold exactly the free blocks, each in its size class and in order
  of size, and no two free blocks are neighbours. All other blocks in use stay as they are, and only
  list heads and headers are written.\<close>

theorem free_keeps_well_formed:
  assumes "fl_inv z m B R" "B a = Some (n, True)" "a \<notin> sentinels R"
  shows "\<exists>m' B'. mdx_fl_free z (a + 16) m = Some m' \<and> fl_inv z m' B' R \<and> dom B' \<subseteq> dom B
    \<and> (\<forall>b k. B' b = Some (k, True) \<longleftrightarrow> b \<noteq> a \<and> B b = Some (k, True)) \<and> hdr_only (heads z \<union> dom B) m m'"
  by (rule free_ok [OF assms])

theorem free_keeps_well_formed_witness:
  "\<exists>m m' m''. mdx_fl_malloc 512 100 m = Some (4128, m') \<and> mdx_fl_free 512 4128 m' = Some m''"
proof -
  obtain m where m: "fl_inv 512 m (region_blocks 4096 1024) {(4096, 1024)}" using demo_started by blast
  have b: "region_blocks 4096 1024 a = Some (s, False) \<longleftrightarrow> a = 4112 \<and> s = 992" for a s by (auto simp: region_blocks_Some)
  obtain m' B' s' where "mdx_fl_malloc 512 100 m = Some (4128, m')" "B' 4112 = Some (s', True)" "fl_inv 512 m' B' {(4096, 1024)}"
    using malloc_ok [OF m, of 100] unfolding b by auto
  moreover have "4112 \<notin> sentinels {(4096, 1024)}" by (simp add: sentinels_def)
  ultimately show ?thesis using free_keeps_well_formed [of 512 m' B' "{(4096, 1024)}" 4112 s'] by auto
qed

text \<open>C35. A request close to the largest size wraps around when the header is added: the block that is
  returned has room for at most 16 bytes.\<close>

theorem malloc_size_wraps:
  assumes "fl_inv z m B R" "B a = Some (s, False)"
  shows "\<exists>p m' B' k. mdx_fl_malloc z 0xFFFFFFF8 m = Some (p + 16, m') \<and> B' p = Some (k, True) \<and> fl_inv z m' B' R \<and> k \<le> 32"
proof -
  have w: "unat (align_loop (0xFFFFFFF8 + NODE_W)) = 16"
    by (rule align_loop_eq) (simp_all add: NODE_W_def)
  have "16 \<le> s" using size_pos [of m B R] assms by (auto simp: fl_inv_def)
  then show ?thesis
    using malloc_core [OF assms(1) _ refl, of "0xFFFFFFF8"] assms(2) unfolding w by fastforce
qed

theorem malloc_size_wraps_witness:
  "\<exists>m p m' B' k. mdx_fl_malloc 512 0xFFFFFFF8 m = Some (p + 16, m') \<and> B' p = Some (k, True) \<and> fl_inv 512 m' B' {(4096, 1024)} \<and> k \<le> 32"
proof -
  obtain m where m: "fl_inv 512 m (region_blocks 4096 1024) {(4096, 1024)}" using demo_started by blast
  have "region_blocks 4096 1024 4112 = Some (992, False)" by (simp add: region_blocks_def)
  from malloc_size_wraps [OF m this] show ?thesis by blast
qed

end
