(* ===== verification/Ringbuf.thy ===== *)
theory Ringbuf
  imports Prelude
begin

text \<open>
  The ring of buffers of \<^verbatim>\<open>kernel/systm/mdx_ringbuf.c\<close>, shared by a sender and a receiver that
  may run on different cores. The entries form a cyclic list in shared memory; each side has
  its own head, and the flag \<^verbatim>\<open>MDX_RINGBUF_OWN\<close> of an entry says whose turn it is. The memory maps
  the address of an entry to its fields; an entry has 24 bytes in the 32-bit layout.

  An interface of bounded channels states what the ring promises its users, and the ring
  implements it: messages arrive in order, none is lost, none is overwritten.
\<close>

section \<open>The code\<close>

record mdx_ringbuf =
  rb_buf :: u32
  rb_bufsize :: u32
  rb_fill :: u32
  rb_flags :: u32
  rb_next :: nat
  rb_user :: u32

record mdx_ringbuf_softc =
  rb_head :: nat
  nentries :: nat
  role :: u8

type_synonym rbmem = "nat \<Rightarrow> mdx_ringbuf"

definition MDX_RINGBUF_OWN :: u32 where "MDX_RINGBUF_OWN = push_bit 1 1"
definition MDX_RINGBUF_ROLE_RECVER :: u8 where "MDX_RINGBUF_ROLE_RECVER = push_bit 0 0"
definition MDX_RINGBUF_ROLE_SENDER :: u8 where "MDX_RINGBUF_ROLE_SENDER = push_bit 0 1"

definition SIZEOF_RB :: nat where "SIZEOF_RB = 24"

abbreviation rb_at :: "nat \<Rightarrow> nat \<Rightarrow> nat" where
  "rb_at base i \<equiv> base + SIZEOF_RB * i"

text \<open>The loop of the initialisation, from entry \<open>i\<close> on; \<open>k\<close> entries are left.\<close>

primrec ringbuf_init_loop :: "nat \<Rightarrow> nat \<Rightarrow> nat \<Rightarrow> nat \<Rightarrow> u32 \<Rightarrow> u32 \<Rightarrow> rbmem \<Rightarrow> rbmem" where
  "ringbuf_init_loop 0 i n base buf entry_bufsize m = m"
| "ringbuf_init_loop (Suc k) i n base buf entry_bufsize m =
     (let e = m (rb_at base i);
          e = e\<lparr>rb_buf := buf + entry_bufsize * of_nat i\<rparr>;
          e = e\<lparr>rb_bufsize := entry_bufsize\<rparr>;
          e = e\<lparr>rb_fill := 0\<rparr>;
          e = e\<lparr>rb_flags := 0\<rparr>;
          e = (if i = n - 1 then e\<lparr>rb_next := rb_at base 0\<rparr> else e\<lparr>rb_next := rb_at base (i + 1)\<rparr>)
      in ringbuf_init_loop k (i + 1) n base buf entry_bufsize (m(rb_at base i := e)))"

text \<open>The two ways in which the initialisation does not return: the assertion on the size fails, or
  the number of entries, by which it divides, is zero.\<close>

datatype rb_fault = Assertion_failed | Division_by_zero

definition mdx_ringbuf_init :: "nat \<Rightarrow> u32 \<Rightarrow> u32 \<Rightarrow> u32 \<Rightarrow> mdx_ringbuf_softc \<Rightarrow> rbmem \<Rightarrow>
    rb_fault + mdx_ringbuf_softc \<times> rbmem" where
  "mdx_ringbuf_init base basesize buf bufsize sc m =
     (if \<not> basesize > 0 then Inl Assertion_failed
      else
        (let sc = sc\<lparr>nentries := unat basesize div SIZEOF_RB\<rparr>
         in if nentries sc = 0 then Inl Division_by_zero
            else
              (let entry_bufsize = bufsize div of_nat (nentries sc);
                   m = ringbuf_init_loop (nentries sc) 0 (nentries sc) base buf entry_bufsize m
               in Inr (sc\<lparr>role := MDX_RINGBUF_ROLE_SENDER, rb_head := rb_at base 0\<rparr>, m))))"

definition mdx_ringbuf_join :: "nat \<Rightarrow> mdx_ringbuf_softc \<Rightarrow> mdx_ringbuf_softc" where
  "mdx_ringbuf_join base sc = sc\<lparr>role := MDX_RINGBUF_ROLE_RECVER, rb_head := rb_at base 0\<rparr>"

definition mdx_ringbuf_head :: "mdx_ringbuf_softc \<Rightarrow> rbmem \<Rightarrow> mdx_result + nat" where
  "mdx_ringbuf_head sc m =
     (let rb = m (rb_head sc)
      in if role sc = MDX_RINGBUF_ROLE_SENDER \<and> rb_flags rb AND MDX_RINGBUF_OWN \<noteq> 0 then Inl MDX_ERROR
         else if role sc = MDX_RINGBUF_ROLE_RECVER \<and> rb_flags rb AND MDX_RINGBUF_OWN = 0 then Inl MDX_ERROR
         else Inr (rb_head sc))"

definition mdx_ringbuf_submit :: "mdx_ringbuf_softc \<Rightarrow> rbmem \<Rightarrow> mdx_ringbuf_softc \<times> rbmem" where
  "mdx_ringbuf_submit sc m =
     (let rb = m (rb_head sc);
          rb = (if role sc = MDX_RINGBUF_ROLE_SENDER then rb\<lparr>rb_flags := rb_flags rb OR MDX_RINGBUF_OWN\<rparr>
                else rb\<lparr>rb_flags := rb_flags rb AND NOT MDX_RINGBUF_OWN\<rparr>)
      in (sc\<lparr>rb_head := rb_next rb\<rparr>, m(rb_head sc := rb)))"

section \<open>Channels\<close>

text \<open>A channel of capacity \<open>n\<close> that holds \<open>xs\<close>. Putting and taking are refused, with no change,
  by the value \<open>None\<close>.\<close>

locale channel =
  fixes holds :: "nat \<Rightarrow> 's \<Rightarrow> 'm list \<Rightarrow> bool" and put :: "'m \<Rightarrow> 's \<Rightarrow> 's option" and take1 :: "'s \<Rightarrow> ('m \<times> 's) option"
  assumes put_room: "holds n s xs \<Longrightarrow> length xs < n \<Longrightarrow> \<exists>s'. put v s = Some s' \<and> holds n s' (xs @ [v])"
    and put_full: "holds n s xs \<Longrightarrow> length xs = n \<Longrightarrow> put v s = None"
    and take_first: "holds n s (x # xs) \<Longrightarrow> \<exists>s'. take1 s = Some (x, s') \<and> holds n s' xs"
    and take_none: "holds n s [] \<Longrightarrow> take1 s = None"
    and holds_bound: "holds n s xs \<Longrightarrow> length xs \<le> n"

primrec put_all :: "('m \<Rightarrow> 's \<Rightarrow> 's option) \<Rightarrow> 'm list \<Rightarrow> 's \<Rightarrow> 's option" where
  "put_all put [] s = Some s"
| "put_all put (v # vs) s = do { s \<leftarrow> put v s; put_all put vs s }"

primrec take_all :: "('s \<Rightarrow> ('m \<times> 's) option) \<Rightarrow> nat \<Rightarrow> 's \<Rightarrow> ('m list \<times> 's) option" where
  "take_all take1 0 s = Some ([], s)"
| "take_all take1 (Suc k) s = do { (x, s) \<leftarrow> take1 s; (xs, s) \<leftarrow> take_all take1 k s; Some (x # xs, s) }"

context channel
begin

lemma put_all_room:
  assumes "holds n s xs" and "length xs + length vs \<le> n"
  shows "\<exists>s'. put_all put vs s = Some s' \<and> holds n s' (xs @ vs)"
  using assms
proof (induction vs arbitrary: s xs)
  case (Cons v vs)
  from put_room [OF Cons.prems(1), of v] Cons.prems(2) obtain s1 where s1: "put v s = Some s1" "holds n s1 (xs @ [v])" by auto
  from Cons.IH [OF s1(2)] Cons.prems(2) s1(1) show ?case by auto
qed auto

lemma take_all_first:
  assumes "holds n s (xs @ ys)"
  shows "\<exists>s'. take_all take1 (length xs) s = Some (xs, s') \<and> holds n s' ys"
  using assms
proof (induction xs arbitrary: s)
  case (Cons x xs)
  from take_first [of n s x "xs @ ys"] Cons.prems obtain s1 where s1: "take1 s = Some (x, s1)" "holds n s1 (xs @ ys)" by auto
  from Cons.IH [OF s1(2)] s1(1) show ?case by auto
qed auto

lemma round_trip:
  assumes "holds n s []" and "length vs \<le> n"
  shows "\<exists>s1 s2. put_all put vs s = Some s1 \<and> take_all take1 (length vs) s1 = Some (vs, s2) \<and> holds n s2 []"
  using put_all_room [OF assms(1), of vs] assms(2) take_all_first [of n _ vs "[]"] by fastforce

end

section \<open>The ring as a channel\<close>

text \<open>Both ends of a ring. A sender asks for the head, fills the entry in and submits it; a
  receiver asks for the head, reads the entry and submits it. These two are what a client of the
  ring does; a message is the fill level and the user word of an entry, the contents of the
  buffers are not modelled.\<close>

record ring =
  tx :: mdx_ringbuf_softc
  rx :: mdx_ringbuf_softc
  shm :: rbmem

type_synonym message = "u32 \<times> u32"

definition message_of :: "mdx_ringbuf \<Rightarrow> message" where
  "message_of rb = (rb_fill rb, rb_user rb)"

definition ring_send :: "message \<Rightarrow> ring \<Rightarrow> ring option" where
  "ring_send v r =
     (case mdx_ringbuf_head (tx r) (shm r) of
        Inl _ \<Rightarrow> None
      | Inr p \<Rightarrow>
          (let m = (shm r)(p := (shm r p)\<lparr>rb_fill := fst v, rb_user := snd v\<rparr>);
               (sc, m) = mdx_ringbuf_submit (tx r) m
           in Some (r\<lparr>tx := sc, shm := m\<rparr>)))"

definition ring_recv :: "ring \<Rightarrow> (message \<times> ring) option" where
  "ring_recv r =
     (case mdx_ringbuf_head (rx r) (shm r) of
        Inl _ \<Rightarrow> None
      | Inr p \<Rightarrow>
          (let v = message_of (shm r p);
               (sc, m) = mdx_ringbuf_submit (rx r) (shm r)
           in Some (v, r\<lparr>rx := sc, shm := m\<rparr>)))"

definition owned :: "mdx_ringbuf \<Rightarrow> bool" where
  "owned rb \<longleftrightarrow> rb_flags rb AND MDX_RINGBUF_OWN \<noteq> 0"

text \<open>The entries in transit start at the head of the receiver and end before the head of the
  sender; they are the entries with the flag set.\<close>

definition ring_holds :: "nat \<Rightarrow> nat \<Rightarrow> ring \<Rightarrow> message list \<Rightarrow> bool" where
  "ring_holds base n r xs \<longleftrightarrow>
     role (tx r) = MDX_RINGBUF_ROLE_SENDER \<and> role (rx r) = MDX_RINGBUF_ROLE_RECVER \<and> length xs \<le> n \<and>
     (\<forall>i < n. rb_next (shm r (rb_at base i)) = rb_at base ((i + 1) mod n)) \<and>
     (\<exists>h < n. rb_head (rx r) = rb_at base h \<and> rb_head (tx r) = rb_at base ((h + length xs) mod n) \<and>
        (\<forall>j < n. owned (shm r (rb_at base ((h + j) mod n))) \<longleftrightarrow> j < length xs) \<and>
        (\<forall>j < length xs. message_of (shm r (rb_at base ((h + j) mod n))) = xs ! j))"

lemma SIZEOF_RB_pos [simp]: "SIZEOF_RB > 0" "SIZEOF_RB \<noteq> 0"
  by (simp_all add: SIZEOF_RB_def)

lemma ring_index: "h < n \<Longrightarrow> j < n \<Longrightarrow> (h + j) mod n = (if h + j < n then h + j else h + j - n)" for n :: nat
  by (simp add: mod_if)

lemma ring_index_inj: "h < n \<Longrightarrow> j < n \<Longrightarrow> k < n \<Longrightarrow> (h + j) mod n = (h + k) mod n \<longleftrightarrow> j = k" for n :: nat
  by (auto simp: ring_index)

lemma roles [simp]: "MDX_RINGBUF_ROLE_SENDER \<noteq> MDX_RINGBUF_ROLE_RECVER" "MDX_RINGBUF_ROLE_RECVER \<noteq> MDX_RINGBUF_ROLE_SENDER"
  by (simp_all add: MDX_RINGBUF_ROLE_SENDER_def MDX_RINGBUF_ROLE_RECVER_def)

lemma owned_flags:
  "owned (rb\<lparr>rb_flags := f OR MDX_RINGBUF_OWN\<rparr>)" "\<not> owned (rb\<lparr>rb_flags := f AND NOT MDX_RINGBUF_OWN\<rparr>)" "\<not> owned (rb\<lparr>rb_flags := 0\<rparr>)"
proof -
  have "(f OR MDX_RINGBUF_OWN) AND MDX_RINGBUF_OWN = MDX_RINGBUF_OWN" "(f AND NOT MDX_RINGBUF_OWN) AND MDX_RINGBUF_OWN = 0"
    by (rule bit_word_eqI; auto simp: bit_simps)+
  then show "owned (rb\<lparr>rb_flags := f OR MDX_RINGBUF_OWN\<rparr>)" "\<not> owned (rb\<lparr>rb_flags := f AND NOT MDX_RINGBUF_OWN\<rparr>)"
      "\<not> owned (rb\<lparr>rb_flags := 0\<rparr>)"
    by (simp_all add: owned_def) (simp add: MDX_RINGBUF_OWN_def)
qed

lemma owned_upd [simp]: "owned (rb\<lparr>rb_fill := a\<rparr>) = owned rb" "owned (rb\<lparr>rb_user := b\<rparr>) = owned rb"
  by (simp_all add: owned_def)

lemma message_of_upd [simp]:
  "message_of (rb\<lparr>rb_flags := f\<rparr>) = message_of rb" "message_of (rb\<lparr>rb_fill := a, rb_user := b\<rparr>) = (a, b)"
  by (simp_all add: message_of_def)

lemma ring_send_room:
  assumes r: "ring_holds base n r xs" and room: "length xs < n"
  shows "\<exists>r'. ring_send v r = Some r' \<and> ring_holds base n r' (xs @ [v])"
proof -
  from r obtain h where h: "h < n" "rb_head (rx r) = rb_at base h" "rb_head (tx r) = rb_at base ((h + length xs) mod n)"
      and own: "\<And>j. j < n \<Longrightarrow> owned (shm r (rb_at base ((h + j) mod n))) \<longleftrightarrow> j < length xs"
      and msg: "\<And>j. j < length xs \<Longrightarrow> message_of (shm r (rb_at base ((h + j) mod n))) = xs ! j"
      and next': "\<And>i. i < n \<Longrightarrow> rb_next (shm r (rb_at base i)) = rb_at base ((i + 1) mod n)"
      and role: "role (tx r) = MDX_RINGBUF_ROLE_SENDER" "role (rx r) = MDX_RINGBUF_ROLE_RECVER"
    by (auto simp: ring_holds_def)
  let ?e = "(h + length xs) mod n"
  let ?rb = "(shm r (rb_at base ?e))\<lparr>rb_fill := fst v, rb_user := snd v\<rparr>"
  let ?rb' = "?rb\<lparr>rb_flags := rb_flags ?rb OR MDX_RINGBUF_OWN\<rparr>"
  let ?r' = "r\<lparr>tx := (tx r)\<lparr>rb_head := rb_at base ((?e + 1) mod n)\<rparr>, shm := (shm r)(rb_at base ?e := ?rb')\<rparr>"
  have e: "?e < n" using h(1) by simp
  have "\<not> owned (shm r (rb_at base ?e))" using own [OF room] by simp
  then have "ring_send v r = Some ?r'"
    using role h(3) next' [OF e] by (simp add: ring_send_def mdx_ringbuf_head_def mdx_ringbuf_submit_def owned_def)
  moreover have "ring_holds base n ?r' (xs @ [v])"
    unfolding ring_holds_def
  proof (intro conjI allI impI exI [of _ h])
    fix j assume j: "j < n"
    have "(h + j) mod n = ?e \<longleftrightarrow> j = length xs" by (rule ring_index_inj [OF h(1) j room])
    then show "owned (shm ?r' (rb_at base ((h + j) mod n))) \<longleftrightarrow> j < length (xs @ [v])"
      using own [OF j] owned_flags(1) [of "rb_flags ?rb" ?rb] by auto
  next
    fix j assume j: "j < length (xs @ [v])"
    then have "(h + j) mod n = ?e \<longleftrightarrow> j = length xs" using ring_index_inj [OF h(1) _ room, of j] room by auto
    then show "message_of (shm ?r' (rb_at base ((h + j) mod n))) = (xs @ [v]) ! j"
      using msg [of j] j by (auto simp: nth_append)
  qed (use h role next' room in \<open>auto simp: mod_simps\<close>)
  ultimately show ?thesis by blast
qed

lemma ring_recv_first:
  assumes r: "ring_holds base n r (x # xs)"
  shows "\<exists>r'. ring_recv r = Some (x, r') \<and> ring_holds base n r' xs"
proof -
  from r obtain h where h: "h < n" "rb_head (rx r) = rb_at base h" "rb_head (tx r) = rb_at base ((h + length (x # xs)) mod n)"
      and own: "\<And>j. j < n \<Longrightarrow> owned (shm r (rb_at base ((h + j) mod n))) \<longleftrightarrow> j < length (x # xs)"
      and msg: "\<And>j. j < length (x # xs) \<Longrightarrow> message_of (shm r (rb_at base ((h + j) mod n))) = (x # xs) ! j"
      and next': "\<And>i. i < n \<Longrightarrow> rb_next (shm r (rb_at base i)) = rb_at base ((i + 1) mod n)"
      and role: "role (tx r) = MDX_RINGBUF_ROLE_SENDER" "role (rx r) = MDX_RINGBUF_ROLE_RECVER"
      and len: "Suc (length xs) \<le> n"
    by (auto simp: ring_holds_def)
  let ?rb = "shm r (rb_at base h)"
  let ?rb' = "?rb\<lparr>rb_flags := rb_flags ?rb AND NOT MDX_RINGBUF_OWN\<rparr>"
  let ?h = "(h + 1) mod n"
  let ?r' = "r\<lparr>rx := (rx r)\<lparr>rb_head := rb_at base ?h\<rparr>, shm := (shm r)(rb_at base h := ?rb')\<rparr>"
  have "owned ?rb" "message_of ?rb = x" using own [of 0] msg [of 0] h(1) by simp_all
  then have "ring_recv r = Some (x, ?r')"
    using role h(2) next' [OF h(1)] by (simp add: ring_recv_def mdx_ringbuf_head_def mdx_ringbuf_submit_def owned_def Let_def)
  moreover have "ring_holds base n ?r' xs"
    unfolding ring_holds_def
  proof (intro conjI allI impI exI [of _ ?h])
    have sh: "(?h + j) mod n = (h + Suc j) mod n" for j by (simp add: mod_simps)
    fix j assume j: "j < n"
    show "owned (shm ?r' (rb_at base ((?h + j) mod n))) \<longleftrightarrow> j < length xs"
    proof (cases "Suc j = n")
      case True
      then show ?thesis using h(1) len owned_flags(2) [of "rb_flags ?rb" ?rb] unfolding sh by auto
    next
      case False
      then have "Suc j < n" using j by simp
      moreover from this have "(h + Suc j) mod n \<noteq> h" using ring_index_inj [OF h(1), of "Suc j" 0] h(1) by simp
      ultimately show ?thesis using own [of "Suc j"] unfolding sh by auto
    qed
  next
    have sh: "(?h + j) mod n = (h + Suc j) mod n" for j by (simp add: mod_simps)
    fix j assume j: "j < length xs"
    then have "(h + Suc j) mod n \<noteq> h" using ring_index_inj [OF h(1), of "Suc j" 0] h(1) len by simp
    then show "message_of (shm ?r' (rb_at base ((?h + j) mod n))) = xs ! j" using msg [of "Suc j"] j unfolding sh by auto
  qed (use h role next' len in \<open>auto simp: mod_simps\<close>)
  ultimately show ?thesis by blast
qed

interpretation rc: channel "ring_holds base" ring_send ring_recv for base
proof
  fix n r xs v
  show "ring_holds base n r xs \<Longrightarrow> length xs < n \<Longrightarrow> \<exists>r'. ring_send v r = Some r' \<and> ring_holds base n r' (xs @ [v])"
    by (rule ring_send_room)
  assume "ring_holds base n r xs" "length xs = n"
  then obtain h where "h < n" "rb_head (tx r) = rb_at base h" "owned (shm r (rb_at base h))" "role (tx r) = MDX_RINGBUF_ROLE_SENDER"
    unfolding ring_holds_def by (metis mod_add_self2 mod_less add_0_right gr0I not_less0)
  then show "ring_send v r = None" by (simp add: ring_send_def mdx_ringbuf_head_def owned_def)
next
  fix n r x xs
  show "ring_holds base n r (x # xs) \<Longrightarrow> \<exists>r'. ring_recv r = Some (x, r') \<and> ring_holds base n r' xs"
    by (rule ring_recv_first)
next
  fix n r
  assume "ring_holds base n r []"
  then obtain h where "h < n" "rb_head (rx r) = rb_at base h" "\<not> owned (shm r (rb_at base h))" "role (rx r) = MDX_RINGBUF_ROLE_RECVER"
    unfolding ring_holds_def by (metis mod_less add_0_right list.size(3) not_less0 gr0I)
  then show "ring_recv r = None" by (simp add: ring_recv_def mdx_ringbuf_head_def owned_def)
next
  fix n r xs
  show "ring_holds base n r xs \<Longrightarrow> length xs \<le> n" by (simp add: ring_holds_def)
qed

section \<open>Initialisation\<close>

lemma init_loop_before: "j < i \<Longrightarrow> ringbuf_init_loop k i n base buf eb m (rb_at base j) = m (rb_at base j)"
  by (induction k arbitrary: i m) (auto simp: Let_def)

lemma init_loop_entry:
  assumes "i + k = n" and "i \<le> j" and "j < n"
  shows "let e = ringbuf_init_loop k i n base buf eb m (rb_at base j)
    in rb_next e = rb_at base ((j + 1) mod n) \<and> rb_flags e = 0 \<and> rb_fill e = 0 \<and> rb_bufsize e = eb \<and> rb_buf e = buf + eb * of_nat j"
  using assms
proof (induction k arbitrary: i m)
  case (Suc k)
  show ?case
  proof (cases "j = i")
    case True
    have "(i + 1) mod n = (if i = n - 1 then 0 else i + 1)" using Suc.prems by auto
    then show ?thesis using True Suc.prems by (simp add: init_loop_before Let_def)
  next
    case False
    then show ?thesis using Suc.IH [of "i + 1"] Suc.prems by (simp add: Let_def)
  qed
qed simp

text \<open>After the sender has initialised the ring and the receiver has joined it, the ring is
  an empty channel with a place for every entry, and the entries share the buffer evenly.\<close>

lemma ring_init_holds:
  assumes "SIZEOF_RB \<le> unat basesize"
  defines "n \<equiv> unat basesize div SIZEOF_RB"
  shows "\<exists>sc' m'. mdx_ringbuf_init base basesize buf bufsize sc m = Inr (sc', m') \<and>
    ring_holds base n \<lparr>tx = sc', rx = mdx_ringbuf_join base rsc, shm = m'\<rparr> [] \<and>
    (\<forall>i < n. rb_bufsize (m' (rb_at base i)) = bufsize div of_nat n \<and>
       rb_buf (m' (rb_at base i)) = buf + (bufsize div of_nat n) * of_nat i)"
proof -
  have n: "0 < n" using assms(1) by (simp add: n_def div_greater_zero_iff)
  have "basesize \<noteq> 0" using assms(1) by (auto simp: SIZEOF_RB_def)
  then have pos: "basesize > 0" by (simp add: word_neq_0_conv)
  let ?m = "ringbuf_init_loop n 0 n base buf (bufsize div of_nat n) m"
  let ?sc = "sc\<lparr>nentries := n, role := MDX_RINGBUF_ROLE_SENDER, rb_head := rb_at base 0\<rparr>"
  have "mdx_ringbuf_init base basesize buf bufsize sc m = Inr (?sc, ?m)"
    using pos n by (simp add: mdx_ringbuf_init_def n_def [symmetric] Let_def)
  moreover note entry = init_loop_entry [of 0 n n _ base buf "bufsize div of_nat n" m, unfolded Let_def, simplified]
  have "ring_holds base n \<lparr>tx = ?sc, rx = mdx_ringbuf_join base rsc, shm = ?m\<rparr> []"
    using n entry by (auto simp: ring_holds_def mdx_ringbuf_join_def owned_def intro!: exI [of _ 0])
  ultimately show ?thesis using entry by auto
qed

section \<open>Properties\<close>

text \<open>C17. A ring that the sender has set up with \<^verbatim>\<open>mdx_ringbuf_init\<close> and the receiver has joined
  delivers: as many messages as there are entries can be sent without waiting, and the
  receiver then gets exactly these messages in the same order, after which the ring is empty.\<close>

theorem ringbuf_round_trip:
  assumes "SIZEOF_RB \<le> unat basesize" and "length vs \<le> unat basesize div SIZEOF_RB"
  shows "\<exists>sc' m' r1 r2. mdx_ringbuf_init base basesize buf bufsize sc m = Inr (sc', m') \<and>
    put_all ring_send vs \<lparr>tx = sc', rx = mdx_ringbuf_join base rsc, shm = m'\<rparr> = Some r1 \<and>
    take_all ring_recv (length vs) r1 = Some (vs, r2) \<and> ring_recv r2 = None"
proof -
  from ring_init_holds [OF assms(1), of base buf bufsize sc m rsc] obtain sc' m' where
    i: "mdx_ringbuf_init base basesize buf bufsize sc m = Inr (sc', m')"
    "ring_holds base (unat basesize div SIZEOF_RB) \<lparr>tx = sc', rx = mdx_ringbuf_join base rsc, shm = m'\<rparr> []" by blast
  from rc.round_trip [OF i(2) assms(2)] i(1) rc.take_none show ?thesis by blast
qed

definition ring_sc0 :: mdx_ringbuf_softc where
  "ring_sc0 = \<lparr>rb_head = 0, nentries = 0, role = 0\<rparr>"

definition ring_mem0 :: rbmem where
  "ring_mem0 = (\<lambda>p. \<lparr>rb_buf = 0, rb_bufsize = 0, rb_fill = 0, rb_flags = 0, rb_next = 0, rb_user = 0\<rparr>)"

theorem ringbuf_round_trip_witness:
  "\<exists>sc' m' r1 r2. mdx_ringbuf_init 4096 72 8192 3000 ring_sc0 ring_mem0 = Inr (sc', m') \<and>
    put_all ring_send [(10, 1), (20, 2), (30, 3)] \<lparr>tx = sc', rx = mdx_ringbuf_join 4096 ring_sc0, shm = m'\<rparr> = Some r1 \<and>
    take_all ring_recv 3 r1 = Some ([(10, 1), (20, 2), (30, 3)], r2)"
  using ringbuf_round_trip [of 72 "[(10, 1), (20, 2), (30, 3)]" 4096 8192 3000 ring_sc0 ring_mem0 ring_sc0]
  by (auto simp: SIZEOF_RB_def numeral_3_eq_3)

text \<open>C16. A ring in use implements a bounded first-in first-out queue: \<^verbatim>\<open>mdx_ringbuf_head\<close> gives the
  sender an entry exactly while the ring is not full and the receiver one exactly while it is
  not empty; submitting a message appends it, and receiving takes the oldest one.\<close>

theorem ringbuf_refines_queue:
  assumes "ring_holds base n r xs"
  shows "(if length xs < n then \<exists>r'. ring_send v r = Some r' \<and> ring_holds base n r' (xs @ [v]) else ring_send v r = None) \<and>
    (case xs of [] \<Rightarrow> ring_recv r = None | y # ys \<Rightarrow> \<exists>r'. ring_recv r = Some (y, r') \<and> ring_holds base n r' ys)"
  using rc.put_room [OF assms] rc.put_full [OF assms] rc.holds_bound [OF assms] rc.take_none [of base n r] rc.take_first [of base n r]
    assms by (auto split: list.split)

theorem ringbuf_refines_queue_witness:
  "\<exists>sc' m' r'. mdx_ringbuf_init 4096 72 8192 3000 ring_sc0 ring_mem0 = Inr (sc', m') \<and>
    ring_send (10, 1) \<lparr>tx = sc', rx = mdx_ringbuf_join 4096 ring_sc0, shm = m'\<rparr> = Some r' \<and>
    ring_holds 4096 3 r' [(10, 1)]"
proof -
  from ring_init_holds [of 72 4096 8192 3000 ring_sc0 ring_mem0 ring_sc0] obtain sc' m' where
    i: "mdx_ringbuf_init 4096 72 8192 3000 ring_sc0 ring_mem0 = Inr (sc', m')"
    "ring_holds 4096 3 \<lparr>tx = sc', rx = mdx_ringbuf_join 4096 ring_sc0, shm = m'\<rparr> []" by (auto simp: SIZEOF_RB_def)
  from ringbuf_refines_queue [OF i(2), of "(10, 1)"] i(1) show ?thesis by auto
qed

text \<open>C37. When \<^verbatim>\<open>mdx_ringbuf_init\<close> does not return. Its assertion refuses the empty region only: a
  region that is not empty, but smaller than an entry, passes the assertion, makes the number of
  entries zero and is divided by. Every other region is initialised.\<close>

theorem ringbuf_init_small_region:
  "(mdx_ringbuf_init base basesize buf bufsize sc m = Inl Assertion_failed \<longleftrightarrow> basesize = 0) \<and>
   (mdx_ringbuf_init base basesize buf bufsize sc m = Inl Division_by_zero \<longleftrightarrow> 0 < basesize \<and> unat basesize < SIZEOF_RB)"
  by (auto simp: mdx_ringbuf_init_def Let_def div_eq_0_iff word_gt_0)

end
