(* ===== verification/Startup.thy ===== *)
theory Startup
  imports Prelude "HOL-Library.Multiset" "HOL-Library.Product_Lexorder"
begin

text \<open>
  System initialisation, \<^verbatim>\<open>kernel/init/mdx_startup.c\<close>. The linker collects the \<^verbatim>\<open>SYSINIT\<close> entries
  of all modules in a table; \<^verbatim>\<open>mi_startup\<close> sorts it in place by subsystem and order and calls the
  functions. The table is a list, the functions are an argument. The log output is left out.
\<close>

section \<open>The code\<close>

datatype mdx_subsystem_id = SI_SUB_BOARD | SI_SUB_DRIVERS | SI_SUB_CLOCKS

datatype mdx_order_id =
    SI_ORDER_FIRST | SI_ORDER_SECOND | SI_ORDER_THIRD | SI_ORDER_FOURTH | SI_ORDER_FIFTH | SI_ORDER_MIDDLE | SI_ORDER_ANY

text \<open>The enumerations are compared by their position.\<close>

primrec subsystem_rank :: "mdx_subsystem_id \<Rightarrow> nat" where
  "subsystem_rank SI_SUB_BOARD = 0"
| "subsystem_rank SI_SUB_DRIVERS = 1"
| "subsystem_rank SI_SUB_CLOCKS = 2"

primrec order_rank :: "mdx_order_id \<Rightarrow> nat" where
  "order_rank SI_ORDER_FIRST = 0"
| "order_rank SI_ORDER_SECOND = 1"
| "order_rank SI_ORDER_THIRD = 2"
| "order_rank SI_ORDER_FOURTH = 3"
| "order_rank SI_ORDER_FIFTH = 4"
| "order_rank SI_ORDER_MIDDLE = 5"
| "order_rank SI_ORDER_ANY = 6"

lemma subsystem_rank_inj: "subsystem_rank x = subsystem_rank y \<Longrightarrow> x = y"
  by (cases x; cases y) auto

lemma order_rank_inj: "order_rank x = order_rank y \<Longrightarrow> x = y"
  by (cases x; cases y) auto

instantiation mdx_subsystem_id :: linorder
begin

definition less_eq_mdx_subsystem_id :: "mdx_subsystem_id \<Rightarrow> mdx_subsystem_id \<Rightarrow> bool" where
  "less_eq_mdx_subsystem_id x y = (subsystem_rank x \<le> subsystem_rank y)"

definition less_mdx_subsystem_id :: "mdx_subsystem_id \<Rightarrow> mdx_subsystem_id \<Rightarrow> bool" where
  "less_mdx_subsystem_id x y = (subsystem_rank x < subsystem_rank y)"

instance
  by standard (auto simp: less_eq_mdx_subsystem_id_def less_mdx_subsystem_id_def subsystem_rank_inj)

end

instantiation mdx_order_id :: linorder
begin

definition less_eq_mdx_order_id :: "mdx_order_id \<Rightarrow> mdx_order_id \<Rightarrow> bool" where
  "less_eq_mdx_order_id x y = (order_rank x \<le> order_rank y)"

definition less_mdx_order_id :: "mdx_order_id \<Rightarrow> mdx_order_id \<Rightarrow> bool" where
  "less_mdx_order_id x y = (order_rank x < order_rank y)"

instance
  by standard (auto simp: less_eq_mdx_order_id_def less_mdx_order_id_def order_rank_inj)

end

record ('f, 'a) mdx_sysinit =
  subsystem :: mdx_subsystem_id
  order_id :: mdx_order_id
  func :: 'f
  arg :: 'a

text \<open>The two loops of the sort, with \<^verbatim>\<open>si\<close> and \<^verbatim>\<open>xi\<close> as positions in the table.\<close>

function sysinit_inner :: "nat \<Rightarrow> nat \<Rightarrow> ('f, 'a) mdx_sysinit list \<Rightarrow> ('f, 'a) mdx_sysinit list" where
  "sysinit_inner si xi t =
     (if xi < length t then
        (if subsystem (t ! si) < subsystem (t ! xi) \<or>
            subsystem (t ! si) = subsystem (t ! xi) \<and> order_id (t ! si) \<le> order_id (t ! xi)
         then sysinit_inner si (xi + 1) t
         else (let save = t ! si;
                   t = t[si := t ! xi];
                   t = t[xi := save]
               in sysinit_inner si (xi + 1) t))
      else t)"
  by auto
termination
  by (relation "measure (\<lambda>(si, xi, t). length t - xi)") auto

declare sysinit_inner.simps [simp del]

lemma length_sysinit_inner [simp]: "length (sysinit_inner si xi t) = length t"
  by (induction si xi t rule: sysinit_inner.induct) (subst sysinit_inner.simps, auto simp: Let_def)

function sysinit_outer :: "nat \<Rightarrow> ('f, 'a) mdx_sysinit list \<Rightarrow> ('f, 'a) mdx_sysinit list" where
  "sysinit_outer si t = (if si < length t then sysinit_outer (si + 1) (sysinit_inner si (si + 1) t) else t)"
  by auto
termination
  by (relation "measure (\<lambda>(si, t). length t - si)") auto

declare sysinit_outer.simps [simp del]

primrec run_sysinits :: "('f \<Rightarrow> 'a \<Rightarrow> 's \<Rightarrow> 's option) \<Rightarrow> ('f, 'a) mdx_sysinit list \<Rightarrow> 's \<Rightarrow> 's option" where
  "run_sysinits call [] s = Some s"
| "run_sysinits call (si # t) s = do { s \<leftarrow> call (func si) (arg si) s; run_sysinits call t s }"

definition mi_startup :: "('f \<Rightarrow> 'a \<Rightarrow> 's \<Rightarrow> 's option) \<Rightarrow> ('f, 'a) mdx_sysinit list \<Rightarrow> 's \<Rightarrow>
    (('f, 'a) mdx_sysinit list \<times> 's) option" where
  "mi_startup call t s =
     do { let t = sysinit_outer 0 t;
          s \<leftarrow> run_sysinits call t s;
          Some (t, s) }"

section \<open>The sort\<close>

definition si_key :: "('f, 'a) mdx_sysinit \<Rightarrow> mdx_subsystem_id \<times> mdx_order_id" where
  "si_key e = (subsystem e, order_id e)"

text \<open>The inner loop brings a least entry of the rest of the table to position \<open>si\<close> and leaves
  the entries before it alone.\<close>

lemma sysinit_inner_spec:
  assumes "si < xi" and "si < length t" and "\<forall>m. si < m \<and> m < xi \<and> m < length t \<longrightarrow> si_key (t ! si) \<le> si_key (t ! m)"
  shows "mset (sysinit_inner si xi t) = mset t \<and> take si (sysinit_inner si xi t) = take si t \<and>
    (\<forall>m. si < m \<and> m < length t \<longrightarrow> si_key (sysinit_inner si xi t ! si) \<le> si_key (sysinit_inner si xi t ! m))"
  using assms
proof (induction si xi t rule: sysinit_inner.induct)
  case (1 si xi t)
  let ?t = "t[si := t ! xi, xi := t ! si]"
  let ?c = "subsystem (t ! si) < subsystem (t ! xi) \<or>
            subsystem (t ! si) = subsystem (t ! xi) \<and> order_id (t ! si) \<le> order_id (t ! xi)"
  have c: "?c \<longleftrightarrow> si_key (t ! si) \<le> si_key (t ! xi)" by (auto simp: si_key_def less_eq_prod_def)
  consider (stop) "\<not> xi < length t" | (keep) "xi < length t" ?c | (swap) "xi < length t" "\<not> ?c" by blast
  then show ?case
  proof cases
    case stop
    then show ?thesis using "1.prems" by (simp add: sysinit_inner.simps)
  next
    case keep
    moreover from keep(2) have "si_key (t ! si) \<le> si_key (t ! xi)" unfolding c .
    ultimately show ?thesis using "1.IH"(1) [OF keep] "1.prems" by (subst (1 2 3 4) sysinit_inner.simps) (auto simp: less_Suc_eq)
  next
    case swap
    then have less: "si_key (t ! xi) < si_key (t ! si)" unfolding c by simp
    have pre: "\<forall>m. si < m \<and> m < xi + 1 \<and> m < length ?t \<longrightarrow> si_key (?t ! si) \<le> si_key (?t ! m)"
      using less "1.prems" swap(1) by (auto simp: nth_list_update less_Suc_eq)
    have eq: "sysinit_inner si xi t = sysinit_inner si (xi + 1) ?t"
      using swap by (subst sysinit_inner.simps) (auto simp: Let_def)
    have "mset ?t = mset t" using "1.prems" swap(1) by (simp add: mset_swap)
    moreover have "take si ?t = take si t" using "1.prems" by simp
    ultimately show ?thesis using "1.IH"(2) [OF swap refl refl] pre "1.prems" unfolding eq by simp
  qed
qed

lemma sysinit_outer_spec:
  assumes "sorted (map si_key (take si t))" and "\<forall>x \<in> set (take si t). \<forall>y \<in> set (drop si t). si_key x \<le> si_key y"
  shows "mset (sysinit_outer si t) = mset t \<and> sorted (map si_key (sysinit_outer si t))"
  using assms
proof (induction si t rule: sysinit_outer.induct)
  case (1 si t)
  show ?case
  proof (cases "si < length t")
    case False
    then show ?thesis using "1.prems" by (simp add: sysinit_outer.simps)
  next
    case True
    define t' where "t' = sysinit_inner si (si + 1) t"
    have "\<forall>m. si < m \<and> m < si + 1 \<and> m < length t \<longrightarrow> si_key (t ! si) \<le> si_key (t ! m)" by auto
    from sysinit_inner_spec [OF _ True this]
    have len: "length t' = length t" and sp: "mset t' = mset t" "take si t' = take si t" "\<And>m. si < m \<Longrightarrow> m < length t \<Longrightarrow> si_key (t' ! si) \<le> si_key (t' ! m)"
      by (simp_all add: t'_def)
    have "mset (take si t) + mset (drop si t') = mset (take si t) + mset (drop si t)"
      using sp(1,2) by (metis append_take_drop_id mset_append)
    then have dr: "set (drop si t') = set (drop si t)" by (metis add_left_imp_eq set_mset_mset)
    have tk: "take (Suc si) t' = take si t @ [t' ! si]" using True sp(2) len by (simp add: take_Suc_conv_app_nth)
    have mem: "t' ! si \<in> set (drop si t)" unfolding dr [symmetric]
      using True by (metis Cons_nth_drop_Suc len list.set_intros(1))
    have "sorted (map si_key (take (si + 1) t'))"
      using "1.prems" mem by (auto simp: tk sorted_append)
    moreover have "si_key x \<le> si_key y" if x: "x \<in> set (take (si + 1) t')" and y: "y \<in> set (drop (si + 1) t')" for x y
    proof -
      obtain m where m: "si < m" "m < length t" "y = t' ! m"
      proof -
        from y obtain j where "j < length (drop (si + 1) t')" "y = drop (si + 1) t' ! j" by (metis in_set_conv_nth)
        then show ?thesis using len by (intro that [of "si + 1 + j"]) auto
      qed
      have "y \<in> set (drop si t)" unfolding dr [symmetric] using y set_drop_subset_set_drop [of si "si + 1" t'] by auto
      then show ?thesis using x m sp(3) "1.prems"(2) by (auto simp: tk)
    qed
    ultimately show ?thesis using "1.IH" [OF True] sp(1) True unfolding t'_def by (subst (1 2) sysinit_outer.simps) simp
  qed
qed

section \<open>Properties\<close>

text \<open>C18. \<^verbatim>\<open>mi_startup\<close> leaves the table a permutation of the entries the linker collected, sorted by
  subsystem and, within a subsystem, by order, and it calls the function of every entry
  exactly once, in the order of that table.\<close>

theorem startup_sorts_and_calls:
  "\<exists>t'. mset t' = mset t \<and> sorted (map si_key t') \<and>
     mi_startup call t s = map_option (Pair t') (run_sysinits call t' s)"
proof -
  have "mset (sysinit_outer 0 t) = mset t" "sorted (map si_key (sysinit_outer 0 t))" using sysinit_outer_spec [of 0 t] by simp_all
  moreover have "mi_startup call t s = map_option (Pair (sysinit_outer 0 t)) (run_sysinits call (sysinit_outer 0 t) s)"
    by (cases "run_sysinits call (sysinit_outer 0 t) s") (simp_all add: mi_startup_def)
  ultimately show ?thesis by blast
qed

end
