(* ===== verification/Rendezvous.thy ===== *)
theory Rendezvous
  imports Prelude
begin

text \<open>
  The rendezvous of CPUs, \<^verbatim>\<open>smp_rendezvous_cpus\<close> and \<^verbatim>\<open>smp_rendezvous_action\<close> of
  \<^verbatim>\<open>kernel/sched/mdx_smp.c\<close>, as a step relation of the CPUs \<open>0 .. n - 1\<close>, where \<open>n\<close> is \<^verbatim>\<open>MDX_CPU_MAX\<close>. A step makes at
  most one access to a shared variable, and the CPUs interleave between any two steps. The
  memory is sequentially consistent: the acquire and release order of the atomic operations is
  not weakened further. The request that \<^verbatim>\<open>send_ipi\<close> leaves for a CPU is one step, whose parts are modelled
  in \<open>Sched\<close>.

  A CPU that calls the function waits for \<^verbatim>\<open>smp_lock\<close>, stores the shared variables one by one,
  interrupts the CPUs of the mask, takes part itself if it is in the mask, and waits for all to
  leave. The interrupted CPUs are a second thread of control, since an interrupt finds a CPU
  anywhere, also waiting for the lock itself.
\<close>

section \<open>The steps\<close>

text \<open>Where a CPU is in \<^verbatim>\<open>smp_rendezvous_cpus\<close>, with its arguments \<^verbatim>\<open>cpus\<close>, \<^verbatim>\<open>fn\<close> and \<^verbatim>\<open>arg\<close>; \<open>Store\<close> has the
  variable to be stored next, \<open>Send\<close> the CPUs that are not interrupted yet.\<close>

datatype rv_store = St_func | St_arg | St_ncpus | St_room1 | St_room0

datatype ('f, 'a) rv_main =
    Outside
  | Trylock u32 'f 'a
  | Store rv_store u32 'f 'a
  | Send u32 'f 'a "nat set"
  | Action u32 'f 'a
  | Finish u32 'f 'a
  | Unlock u32 'f 'a

text \<open>Where a CPU is in \<^verbatim>\<open>smp_rendezvous_action\<close>; \<open>Pending\<close> is an interrupt not taken yet. The arguments
  are the values the CPU has read: \<open>Compare\<close> the counter \<^verbatim>\<open>room[0]\<close> in the condition of the loop,
  \<open>Load_arg\<close> and \<open>Call\<close> the local copies of the function and its argument.\<close>

datatype ('f, 'a) rv_phase = Idle | Pending | Enter | Wait | Compare nat | Load_func | Load_arg 'f | Call 'f 'a | Leave

text \<open>The shared variables, the place of each CPU, the nesting of critical sections of its
  current thread, and the calls made since the lock was last taken.\<close>

record ('f, 'a) rv_state =
  smp_lock :: "nat option"
  smp_rendezvous_func :: 'f
  smp_rendezvous_arg :: 'a
  smp_rendezvous_ncpus :: nat
  room0 :: nat
  room1 :: nat
  td_nest :: "nat \<Rightarrow> nat"
  main :: "nat \<Rightarrow> ('f, 'a) rv_main"
  phase :: "nat \<Rightarrow> ('f, 'a) rv_phase"
  calls :: "(nat \<times> 'f \<times> 'a) list"

definition members :: "nat \<Rightarrow> u32 \<Rightarrow> nat set" where
  "members n cpus = {i. i < n \<and> bit cpus i}"

text \<open>The loop that counts the CPUs of the mask.\<close>

primrec count_cpus :: "nat \<Rightarrow> u32 \<Rightarrow> nat" where
  "count_cpus 0 cpus = 0"
| "count_cpus (Suc i) cpus = count_cpus i cpus + (if cpus AND push_bit i 1 \<noteq> 0 then 1 else 0)"

abbreviation to_main :: "nat \<Rightarrow> ('f, 'a) rv_main \<Rightarrow> ('f, 'a) rv_state \<Rightarrow> ('f, 'a) rv_state" where
  "to_main c x s \<equiv> s\<lparr>main := (main s)(c := x)\<rparr>"

abbreviation to_phase :: "nat \<Rightarrow> ('f, 'a) rv_phase \<Rightarrow> ('f, 'a) rv_state \<Rightarrow> ('f, 'a) rv_state" where
  "to_phase c x s \<equiv> s\<lparr>phase := (phase s)(c := x)\<rparr>"

text \<open>A CPU calls \<^verbatim>\<open>smp_rendezvous_cpus\<close>. The code panics outside of a critical section and on an empty
  mask; a caller has \<open>k > 0\<close> critical sections open and names a CPU.\<close>

inductive rv_call :: "nat \<Rightarrow> ('f, 'a) rv_state \<Rightarrow> ('f, 'a) rv_state \<Rightarrow> bool" for n where
  call: "c < n \<Longrightarrow> main s c = Outside \<Longrightarrow> phase s c = Idle \<Longrightarrow> k > 0 \<Longrightarrow> count_cpus n m \<noteq> 0 \<Longrightarrow>
    rv_call n s (to_main c (Trylock m f a) (s\<lparr>td_nest := (td_nest s)(c := k)\<rparr>))"

text \<open>The caller \<open>c\<close> in \<^verbatim>\<open>smp_rendezvous_cpus\<close>.\<close>

inductive rv_cpus :: "nat \<Rightarrow> nat \<Rightarrow> ('f, 'a) rv_state \<Rightarrow> ('f, 'a) rv_state \<Rightarrow> bool" for n c where
  trylock: "main s c = Trylock m f a \<Longrightarrow> phase s c \<in> {Idle, Pending} \<Longrightarrow> smp_lock s = None \<Longrightarrow>
    rv_cpus n c s (to_main c (Store St_func m f a) (s\<lparr>smp_lock := Some c, calls := []\<rparr>))"
| st_func: "main s c = Store St_func m f a \<Longrightarrow>
    rv_cpus n c s (to_main c (Store St_arg m f a) (s\<lparr>smp_rendezvous_func := f\<rparr>))"
| st_arg: "main s c = Store St_arg m f a \<Longrightarrow>
    rv_cpus n c s (to_main c (Store St_ncpus m f a) (s\<lparr>smp_rendezvous_arg := a\<rparr>))"
| st_ncpus: "main s c = Store St_ncpus m f a \<Longrightarrow>
    rv_cpus n c s (to_main c (Store St_room1 m f a) (s\<lparr>smp_rendezvous_ncpus := count_cpus n m\<rparr>))"
| st_room1: "main s c = Store St_room1 m f a \<Longrightarrow>
    rv_cpus n c s (to_main c (Store St_room0 m f a) (s\<lparr>room1 := 0\<rparr>))"
| st_room0: "main s c = Store St_room0 m f a \<Longrightarrow>
    rv_cpus n c s (to_main c (Send m f a (members n m - {c})) (s\<lparr>room0 := 0\<rparr>))"
| send: "main s c = Send m f a R \<Longrightarrow> d \<in> R \<Longrightarrow>
    rv_cpus n c s (to_main c (Send m f a (R - {d})) (to_phase d Pending s))"
| join: "main s c = Send m f a {} \<Longrightarrow> c \<in> members n m \<Longrightarrow>
    rv_cpus n c s (to_main c (Action m f a) (to_phase c Enter s))"
| skip: "main s c = Send m f a {} \<Longrightarrow> c \<notin> members n m \<Longrightarrow>
    rv_cpus n c s (to_main c (Finish m f a) s)"
| acted: "main s c = Action m f a \<Longrightarrow> phase s c = Idle \<Longrightarrow>
    rv_cpus n c s (to_main c (Finish m f a) s)"
| finish: "main s c = Finish m f a \<Longrightarrow> \<not> room1 s < count_cpus n m \<Longrightarrow>
    rv_cpus n c s (to_main c (Unlock m f a) s)"
| unlock: "main s c = Unlock m f a \<Longrightarrow>
    rv_cpus n c s (to_main c Outside (s\<lparr>smp_lock := None\<rparr>))"

text \<open>The CPU \<open>d\<close> takes the interrupt, which begins by entering a critical section of the interrupt
  thread, or finds the request in \<^verbatim>\<open>ipi_handler\<close> while it waits for the lock. It then goes through
  \<^verbatim>\<open>smp_rendezvous_action\<close>, whose assertion is a condition of the step \<open>enter\<close>.\<close>

inductive rv_action :: "nat \<Rightarrow> ('f, 'a) rv_state \<Rightarrow> ('f, 'a) rv_state \<Rightarrow> bool" for d where
  interrupt: "phase s d = Pending \<Longrightarrow> main s d = Outside \<Longrightarrow>
    rv_action d s (to_phase d Enter (s\<lparr>td_nest := (td_nest s)(d := Suc k)\<rparr>))"
| poll: "phase s d = Pending \<Longrightarrow> main s d = Trylock m f a \<Longrightarrow> rv_action d s (to_phase d Enter s)"
| enter: "phase s d = Enter \<Longrightarrow> td_nest s d > 0 \<Longrightarrow> rv_action d s (to_phase d Wait (s\<lparr>room0 := room0 s + 1\<rparr>))"
| read_room: "phase s d = Wait \<Longrightarrow> rv_action d s (to_phase d (Compare (room0 s)) s)"
| pass: "phase s d = Compare r \<Longrightarrow>
    rv_action d s (to_phase d (if r < smp_rendezvous_ncpus s then Wait else Load_func) s)"
| load_func: "phase s d = Load_func \<Longrightarrow> rv_action d s (to_phase d (Load_arg (smp_rendezvous_func s)) s)"
| load_arg: "phase s d = Load_arg f \<Longrightarrow> rv_action d s (to_phase d (Call f (smp_rendezvous_arg s)) s)"
| run: "phase s d = Call f a \<Longrightarrow> rv_action d s (to_phase d Leave (s\<lparr>calls := calls s @ [(d, f, a)]\<rparr>))"
| leave: "phase s d = Leave \<Longrightarrow> rv_action d s (to_phase d Idle (s\<lparr>room1 := room1 s + 1\<rparr>))"

inductive rv_step :: "nat \<Rightarrow> ('f, 'a) rv_state \<Rightarrow> ('f, 'a) rv_state \<Rightarrow> bool" for n where
  cpus: "rv_cpus n c s s' \<Longrightarrow> rv_step n s s'"
| action: "rv_action d s s' \<Longrightarrow> rv_step n s s'"

inductive rv_reach :: "nat \<Rightarrow> ('f, 'a) rv_state \<Rightarrow> bool" for n where
  init: "smp_lock s = None \<Longrightarrow> main s = (\<lambda>c. Outside) \<Longrightarrow> phase s = (\<lambda>c. Idle) \<Longrightarrow> rv_reach n s"
| call: "rv_reach n s \<Longrightarrow> rv_call n s s' \<Longrightarrow> rv_reach n s'"
| step: "rv_reach n s \<Longrightarrow> rv_step n s s' \<Longrightarrow> rv_reach n s'"

lemma finite_members [simp]: "finite (members n m)"
  by (simp add: members_def)

lemma count_cpus_eq: "count_cpus n m = card (members n m)"
proof (induction n)
  case (Suc n)
  have "members (Suc n) m = (if bit m n then insert n (members n m) else members n m)"
    by (auto simp: members_def less_Suc_eq)
  moreover have "m AND push_bit n 1 \<noteq> 0 \<longleftrightarrow> bit m n"
  proof -
    have "m AND push_bit n 1 \<noteq> 0 \<longleftrightarrow> (\<exists>k. bit (m AND push_bit n 1) k)" using bit_eqI [of "m AND push_bit n 1" 0] by auto
    also have "\<dots> \<longleftrightarrow> bit m n" by (auto simp: bit_simps dest: bit_imp_le_length)
    finally show ?thesis .
  qed
  moreover have "n \<notin> members n m" by (simp add: members_def)
  ultimately show ?case using Suc by simp
qed (simp add: members_def)

section \<open>The invariant\<close>

text \<open>The CPUs that have been told of a rendezvous, that are inside the room, and that have
  passed the barrier.\<close>

definition told :: "('f, 'a) rv_phase \<Rightarrow> bool" where
  "told p \<longleftrightarrow> p = Pending \<or> p = Enter"

fun inside :: "('f, 'a) rv_phase \<Rightarrow> bool" where
  "inside Idle = False"
| "inside Pending = False"
| "inside Enter = False"
| "inside _ = True"

fun passed :: "('f, 'a) rv_phase \<Rightarrow> bool" where
  "passed Load_func = True"
| "passed (Load_arg _) = True"
| "passed (Call _ _) = True"
| "passed Leave = True"
| "passed _ = False"

text \<open>While the variables of a rendezvous are in use: \<open>E\<close> are the CPUs that have entered the
  room, \<open>L\<close> those that have left it, \<open>W\<close> those still to be told, \<open>f\<close> and \<open>a\<close> the function and its argument.\<close>

definition in_room :: "nat set \<Rightarrow> 'f \<Rightarrow> 'a \<Rightarrow> nat set \<Rightarrow> nat set \<Rightarrow> nat set \<Rightarrow> ('f, 'a) rv_state \<Rightarrow> bool" where
  "in_room M f a W E L s \<longleftrightarrow>
     smp_rendezvous_func s = f \<and> smp_rendezvous_arg s = a \<and> smp_rendezvous_ncpus s = card M \<and>
     room0 s = card E \<and> room1 s = card L \<and> W \<subseteq> M \<and> L \<subseteq> E \<and> E \<subseteq> M \<and> W \<inter> E = {} \<and>
     (\<forall>d. inside (phase s d) \<longleftrightarrow> d \<in> E - L) \<and> (\<forall>d. told (phase s d) \<longleftrightarrow> d \<in> M - E - W) \<and>
     (L \<noteq> {} \<longrightarrow> E = M) \<and> (\<forall>d r. phase s d = Compare r \<longrightarrow> r \<le> card E) \<and>
     (\<forall>d. passed (phase s d) \<longrightarrow> E = M \<and> phase s d \<in> {Load_func, Load_arg f, Call f a, Leave}) \<and>
     distinct (map fst (calls s)) \<and> set (calls s) = (\<lambda>d. (d, f, a)) ` (L \<union> {d. phase s d = Leave})"

abbreviation caller :: "('f, 'a) rv_main \<Rightarrow> bool" where
  "caller x \<equiv> x \<noteq> Outside \<and> (\<forall>m f a. x \<noteq> Trylock m f a)"

text \<open>What holds while the CPU \<open>c\<close> has the lock, by the place where it is.\<close>

fun place :: "nat \<Rightarrow> nat \<Rightarrow> ('f, 'a) rv_main \<Rightarrow> ('f, 'a) rv_state \<Rightarrow> bool" where
  "place n c (Store v m f a) s \<longleftrightarrow> phase s = (\<lambda>d. Idle) \<and> calls s = [] \<and>
     (v \<noteq> St_func \<longrightarrow> smp_rendezvous_func s = f) \<and> (v \<noteq> St_func \<and> v \<noteq> St_arg \<longrightarrow> smp_rendezvous_arg s = a) \<and>
     (v = St_room1 \<or> v = St_room0 \<longrightarrow> smp_rendezvous_ncpus s = card (members n m)) \<and> (v = St_room0 \<longrightarrow> room1 s = 0)"
| "place n c (Send m f a R) s \<longleftrightarrow> R \<subseteq> members n m - {c} \<and> phase s c = Idle \<and>
     (\<exists>E L. in_room (members n m) f a (R \<union> (members n m \<inter> {c})) E L s)"
| "place n c (Action m f a) s \<longleftrightarrow> phase s c \<noteq> Pending \<and> (\<exists>E L. in_room (members n m) f a {} E L s)"
| "place n c (Finish m f a) s \<longleftrightarrow> phase s c = Idle \<and> (\<exists>E L. in_room (members n m) f a {} E L s)"
| "place n c (Unlock m f a) s \<longleftrightarrow> in_room (members n m) f a {} (members n m) (members n m) s"
| "place n c _ s \<longleftrightarrow> False"

definition rv_inv :: "nat \<Rightarrow> ('f, 'a) rv_state \<Rightarrow> bool" where
  "rv_inv n s \<longleftrightarrow>
     (\<forall>c. caller (main s c) \<longleftrightarrow> smp_lock s = Some c) \<and> (\<forall>c. main s c \<noteq> Outside \<longrightarrow> c < n) \<and>
     (\<forall>d. main s d \<noteq> Outside \<or> phase s d = Enter \<longrightarrow> td_nest s d > 0) \<and>
     (case smp_lock s of None \<Rightarrow> phase s = (\<lambda>d. Idle) | Some c \<Rightarrow> place n c (main s c) s)"

lemma rv_invI:
  assumes "\<And>c. caller (main s c) \<longleftrightarrow> smp_lock s = Some c" "\<And>c. main s c \<noteq> Outside \<Longrightarrow> c < n"
    and "\<And>d. main s d \<noteq> Outside \<or> phase s d = Enter \<Longrightarrow> td_nest s d > 0"
    and "smp_lock s = None \<Longrightarrow> phase s = (\<lambda>d. Idle)" "\<And>c. smp_lock s = Some c \<Longrightarrow> place n c (main s c) s"
  shows "rv_inv n s"
  using assms unfolding rv_inv_def by (auto split: option.split)

lemma rv_invD:
  assumes "rv_inv n s"
  shows "caller (main s c) \<longleftrightarrow> smp_lock s = Some c" "main s c \<noteq> Outside \<Longrightarrow> c < n"
    "main s d \<noteq> Outside \<or> phase s d = Enter \<Longrightarrow> td_nest s d > 0"
    "smp_lock s = None \<Longrightarrow> phase s = (\<lambda>d. Idle)" "smp_lock s = Some c \<Longrightarrow> place n c (main s c) s"
  using assms unfolding rv_inv_def by (auto split: option.splits)

lemma phase_cases: "p = Idle \<or> told p \<or> inside p"
  by (cases p) (simp_all add: told_def)

lemma told_inside: "told p \<Longrightarrow> \<not> inside p" "\<not> told Idle" "told Pending" "told Enter"
    "\<not> told Wait" "\<not> told (Compare r)" "\<not> told Load_func" "\<not> told (Load_arg f)" "\<not> told (Call f a)" "\<not> told Leave"
  by (auto simp: told_def)

lemmas room_simps = told_inside(2-)

lemma in_roomD:
  assumes "in_room M f a W E L s"
  shows "smp_rendezvous_func s = f" "smp_rendezvous_arg s = a" "smp_rendezvous_ncpus s = card M" "room0 s = card E" "room1 s = card L"
    "W \<subseteq> M" "L \<subseteq> E" "E \<subseteq> M" "W \<inter> E = {}" "inside (phase s d) \<longleftrightarrow> d \<in> E - L" "told (phase s d) \<longleftrightarrow> d \<in> M - E - W"
    "passed (phase s d) \<Longrightarrow> E = M" "L \<noteq> {} \<Longrightarrow> E = M" "phase s d = Compare r \<Longrightarrow> r \<le> card E"
    "passed (phase s d) \<Longrightarrow> phase s d \<in> {Load_func, Load_arg f, Call f a, Leave}" "distinct (map fst (calls s))"
    "set (calls s) = (\<lambda>d. (d, f, a)) ` (L \<union> {d. phase s d = Leave})"
  using assms unfolding in_room_def by (elim conjE; (assumption | metis))+

lemma in_room_finite: "in_room (members n m) f a W E L s \<Longrightarrow> finite E \<and> finite L"
  by (meson finite_members finite_subset in_roomD(7,8))

lemma in_room_other [simp]:
  "in_room M f a W E L (s\<lparr>main := x\<rparr>) = in_room M f a W E L s" "in_room M f a W E L (s\<lparr>smp_lock := y\<rparr>) = in_room M f a W E L s"
  "in_room M f a W E L (s\<lparr>td_nest := k\<rparr>) = in_room M f a W E L s"
  by (simp_all add: in_room_def)

lemma place_other [simp]:
  "place n c x (s\<lparr>main := y\<rparr>) = place n c x s" "place n c x (s\<lparr>smp_lock := z\<rparr>) = place n c x s" "place n c x (s\<lparr>td_nest := k\<rparr>) = place n c x s"
  by (cases x; simp)+

text \<open>The steps of the CPUs that take part.\<close>

lemma in_room_tell:
  assumes r: "in_room M f a W E L s" and d: "d \<in> W" and p: "told p"
  shows "in_room M f a (W - {d}) E L (to_phase d p s)"
proof -
  have "\<not> inside (phase s d)" "\<not> told (phase s d)" using in_roomD(10,11) [OF r, of d] in_roomD(9) [OF r] d by auto
  then have "phase s d = Idle" using phase_cases [of "phase s d"] by blast
  moreover have "\<not> inside p" "\<not> passed p" "p \<noteq> Leave" using p by (cases p; simp add: told_def)+
  moreover have "d \<in> M - E" using in_roomD(6,9) [OF r] d by blast
  ultimately show ?thesis using r d p unfolding in_room_def by (auto simp: room_simps)
qed

lemma in_room_move:
  assumes r: "in_room M f a W E L s" and p: "inside (phase s d)" "inside p" "phase s d \<noteq> Leave" "p \<noteq> Leave"
    and l: "\<And>x. p = Compare x \<Longrightarrow> x \<le> card E" "passed p \<Longrightarrow> E = M \<and> p \<in> {Load_func, Load_arg f, Call f a, Leave}"
  shows "in_room M f a W E L (to_phase d p s)"
proof -
  have "\<not> told (phase s d)" "\<not> told p" using p(1,2) told_inside(1) by blast+
  then show ?thesis using r p l unfolding in_room_def by auto
qed

lemma in_room_enter:
  assumes r: "in_room M f a W E L s" and d: "phase s d = Enter" and fin: "finite E"
  shows "in_room M f a W (insert d E) L (to_phase d Wait (s\<lparr>room0 := room0 s + 1\<rparr>))"
proof -
  have m: "d \<in> M - E - W" using in_roomD(11) [OF r, of d] d by (simp add: room_simps)
  then have "L = {}" "\<And>e. \<not> passed (phase s e)" using in_roomD(12,13) [OF r] by auto
  moreover have "r \<le> Suc (card E)" if "phase s e = Compare r" for e r using in_roomD(14) [OF r that] by simp
  ultimately show ?thesis using r d m fin unfolding in_room_def by (auto simp: room_simps)
qed

lemma in_room_full:
  assumes r: "in_room M f a W E L s" and fin: "finite M" and "phase s d = Compare x" "\<not> x < smp_rendezvous_ncpus s"
  shows "E = M"
  using assms(4) in_roomD(3,8) [OF r] in_roomD(14) [OF r assms(3)] by (intro card_seteq fin) auto

lemma in_room_run:
  assumes r: "in_room M f a W E L s" and d: "phase s d = Call g b"
  shows "in_room M f a W E L (to_phase d Leave (s\<lparr>calls := calls s @ [(d, g, b)]\<rparr>))"
proof -
  have e: "d \<in> E - L" "E = M" "g = f" "b = a" using in_roomD(10,12,15) [OF r, of d] d by simp_all
  have "d \<notin> fst ` set (calls s)" unfolding in_roomD(17) [OF r] using e(1) d by auto
  then show ?thesis using r d e(1,2) unfolding e(3,4) in_room_def by (auto simp: room_simps)
qed

lemma in_room_leave:
  assumes r: "in_room M f a W E L s" and d: "phase s d = Leave" and fin: "finite L"
  shows "in_room M f a W E (insert d L) (to_phase d Idle (s\<lparr>room1 := room1 s + 1\<rparr>))"
proof -
  have "d \<in> E - L" "E = M" using in_roomD(10,12) [OF r, of d] d by simp_all
  then show ?thesis using r d fin unfolding in_room_def by (auto simp: room_simps)
qed

lemma in_room_action:
  assumes r: "in_room (members n m) f a W E L s" and st: "rv_action d s s'"
  shows "\<exists>E L. in_room (members n m) f a W E L s'"
proof -
  have fin: "finite E" "finite L" using in_room_finite [OF r] by auto
  have tell: "in_room (members n m) f a W E L (to_phase d Enter s)" "in_room (members n m) f a W E L (to_phase d Enter (s\<lparr>td_nest := x\<rparr>))"
    if "phase s d = Pending" for x
    using in_roomD(11) [OF r, of d] r that unfolding in_room_def by (auto simp: room_simps)
  show ?thesis
    using st
  proof cases
    case (interrupt k)
    then show ?thesis using tell(2) by blast
  next
    case (poll m f a)
    then show ?thesis using tell(1) by blast
  next
    case enter
    then show ?thesis using in_room_enter [OF r enter(2) fin(1)] by blast
  next
    case read_room
    then have "in_room (members n m) f a W E L s'"
      unfolding read_room(1) using in_roomD(4) [OF r] by (intro in_room_move [OF r]) simp_all
    then show ?thesis by blast
  next
    case (pass x)
    then have "in_room (members n m) f a W E L s'"
      unfolding pass(1) using in_room_full [OF r finite_members pass(2)] by (intro in_room_move [OF r]) (simp_all split: if_splits)
    then show ?thesis by blast
  next
    case load_func
    then have "in_room (members n m) f a W E L s'"
      unfolding load_func(1) using in_roomD(1) [OF r] in_roomD(12) [OF r, of d] by (intro in_room_move [OF r]) simp_all
    then show ?thesis by blast
  next
    case (load_arg g)
    then have "in_room (members n m) f a W E L s'"
      unfolding load_arg(1) using in_roomD(2) [OF r] in_roomD(12,15) [OF r, of d] by (intro in_room_move [OF r]) simp_all
    then show ?thesis by blast
  next
    case (run g b)
    then show ?thesis using in_room_run [OF r run(2)] by blast
  next
    case leave
    then show ?thesis using in_room_leave [OF r leave(2) fin(2)] by blast
  qed
qed

lemma in_room_start:
  "phase s = (\<lambda>c. Idle) \<Longrightarrow> smp_rendezvous_func s = f \<Longrightarrow> smp_rendezvous_arg s = a \<Longrightarrow> smp_rendezvous_ncpus s = card M \<Longrightarrow>
    room1 s = 0 \<Longrightarrow> room0 s = 0 \<Longrightarrow> calls s = [] \<Longrightarrow> in_room M f a M {} {} s"
  by (simp add: in_room_def room_simps)

lemma room_left:
  assumes r: "in_room (members n m) f a W E L s" and "\<not> room1 s < card (members n m)"
  shows "L = members n m" "E = members n m"
proof -
  show "L = members n m" using assms(2) in_roomD(5,7,8) [OF r] by (intro card_seteq) auto
  then show "E = members n m" using in_roomD(7,8) [OF r] by blast
qed

lemma room_empty: "in_room M f a {} M M s \<Longrightarrow> phase s = (\<lambda>c. Idle)"
proof
  fix d
  assume r: "in_room M f a {} M M s"
  show "phase s d = Idle" using in_roomD(10,11) [OF r, of d] phase_cases [of "phase s d"] by blast
qed

text \<open>A step of a CPU that takes part, whatever the caller does.\<close>

lemma rv_action_frame:
  assumes "rv_action d s s'"
  shows "main s' = main s" "smp_lock s' = smp_lock s" "phase s d \<noteq> Idle" "\<And>c. c \<noteq> d \<Longrightarrow> phase s' c = phase s c"
    "phase s' d \<noteq> Pending" "td_nest s' c = td_nest s c \<or> c = d \<and> td_nest s' c > 0"
  using assms by (cases; auto)+

lemma rv_action_inv:
  assumes inv: "rv_inv n s" and st: "rv_action d s s'"
  shows "rv_inv n s'"
proof (rule rv_invI)
  note fr = rv_action_frame [OF st]
  fix c
  show "caller (main s' c) \<longleftrightarrow> smp_lock s' = Some c" "main s' c \<noteq> Outside \<Longrightarrow> c < n"
    using rv_invD(1,2) [OF inv, of c] fr(1,2) by simp_all
  show "td_nest s' c > 0" if "main s' c \<noteq> Outside \<or> phase s' c = Enter"
    using st rv_invD(3) [OF inv, of c] that by cases (auto split: if_splits)
  show "phase s' = (\<lambda>c. Idle)" if "smp_lock s' = None"
    using that rv_invD(4) [OF inv] fr(2,3) by simp
  show "place n c (main s' c) s'" if "smp_lock s' = Some c"
  proof -
    have p: "place n c (main s c) s" using rv_invD(5) [OF inv] that fr(2) by simp
    show ?thesis unfolding fr(1)
    proof (cases "main s c")
      case (Store v m f a)
      then show "place n c (main s c) s'" using p fr(3) by simp
    next
      case (Send m f a R)
      then have "c \<noteq> d" using p fr(3) by auto
      then show "place n c (main s c) s'" using Send p fr(4) in_room_action [OF _ st] by auto
    next
      case (Action m f a)
      then show "place n c (main s c) s'" using p fr(4) [of c] fr(5) in_room_action [OF _ st] by (cases "c = d") auto
    next
      case (Finish m f a)
      then have "c \<noteq> d" using p fr(3) by auto
      then show "place n c (main s c) s'" using Finish p fr(4) in_room_action [OF _ st] by auto
    next
      case (Unlock m f a)
      then show "place n c (main s c) s'" using p fr(3) room_empty by fastforce
    qed (use p in auto)
  qed
qed

text \<open>A step of the caller that holds the lock and keeps it.\<close>

lemma rv_cpus_inv:
  assumes inv: "rv_inv n s" and c: "smp_lock s = Some c" and x: "caller x" and p: "place n c x s'"
    and fr: "main s' = main s" "smp_lock s' = smp_lock s" "td_nest s' = td_nest s" "\<And>d. phase s' d = Enter \<Longrightarrow> phase s d = Enter \<or> d = c"
  shows "rv_inv n (to_main c x s')"
proof (rule rv_invI)
  have mc: "main s c \<noteq> Outside" using rv_invD(1) [OF inv, of c] c by simp
  fix d
  show "caller (main (to_main c x s') d) \<longleftrightarrow> smp_lock (to_main c x s') = Some d"
    using rv_invD(1) [OF inv, of d] fr c x by (auto simp: fun_upd_def)
  show "main (to_main c x s') d \<noteq> Outside \<Longrightarrow> d < n" using rv_invD(2) [OF inv] mc fr(1) by (auto split: if_splits)
  show "td_nest (to_main c x s') d > 0" if "main (to_main c x s') d \<noteq> Outside \<or> phase (to_main c x s') d = Enter"
    using rv_invD(3) [OF inv, of d] that mc fr by (auto split: if_splits)
  show "phase (to_main c x s') = (\<lambda>c. Idle)" if "smp_lock (to_main c x s') = None" using that c fr(2) by simp
  show "place n d (main (to_main c x s') d) (to_main c x s')" if "smp_lock (to_main c x s') = Some d"
    using that c fr(2) p by simp
qed

lemma rv_store_inv:
  assumes inv: "rv_inv n s" and st: "rv_cpus n c s s'" "main s c = Store v m0 f0 a0"
  shows "rv_inv n s'"
proof -
  have lk: "smp_lock s = Some c" "place n c (main s c) s" if "caller (main s c)"
    using rv_invD(1,5) [OF inv] that by blast+
  note step = rv_cpus_inv [OF inv lk(1)]
  show ?thesis
    using st assms(3)
  proof cases
    case (st_func m f a)
    then show ?thesis unfolding st_func(1) using lk(2) by (intro step) (auto simp: count_cpus_eq)
  next
    case (st_arg m f a)
    then show ?thesis unfolding st_arg(1) using lk(2) by (intro step) (auto simp: count_cpus_eq)
  next
    case (st_ncpus m f a)
    then show ?thesis unfolding st_ncpus(1) using lk(2) by (intro step) (auto simp: count_cpus_eq)
  next
    case (st_room1 m f a)
    then show ?thesis unfolding st_room1(1) using lk(2) by (intro step) (auto simp: count_cpus_eq)
  next
    case (st_room0 m f a)
    have "in_room (members n m) f a (members n m) {} {} (s\<lparr>room0 := 0\<rparr>)"
      using lk(2) st_room0(2) by (intro in_room_start) simp_all
    moreover have "members n m - {c} \<union> members n m \<inter> {c} = members n m" by blast
    ultimately show ?thesis unfolding st_room0(1) using st_room0(2) lk(2) by (intro step) auto
  qed simp_all
qed

lemma rv_told_inv:
  assumes inv: "rv_inv n s" and st: "rv_cpus n c s s'"
    and p: "(\<exists>m f a R. main s c = Send m f a R) \<or> (\<exists>m f a. main s c = Action m f a)"
  shows "rv_inv n s'"
proof -
  have lk: "smp_lock s = Some c" "place n c (main s c) s" if "caller (main s c)"
    using rv_invD(1,5) [OF inv] that by blast+
  note step = rv_cpus_inv [OF inv lk(1)]
  show ?thesis
    using st p
  proof cases
    case (send m f a R d)
    from lk(2) send(2) obtain E L where r: "R \<subseteq> members n m - {c}" "phase s c = Idle"
      "in_room (members n m) f a (R \<union> (members n m \<inter> {c})) E L s" by auto
    have "R - {d} \<union> members n m \<inter> {c} = (R \<union> members n m \<inter> {c}) - {d}" using r(1) send(3) by auto
    moreover have "d \<noteq> c" using r(1) send(3) by blast
    ultimately show ?thesis unfolding send(1) using send(2,3) r in_room_tell [OF r(3), of d Pending]
      by (intro step) (auto simp: room_simps split: if_splits)
  next
    case (join m f a)
    from lk(2) join(2,3) obtain E L where r: "in_room (members n m) f a {c} E L s" by auto
    show ?thesis unfolding join(1) using join(2) in_room_tell [OF r, of c Enter]
      by (intro step) (auto simp: room_simps split: if_splits)
  next
    case (skip m f a)
    then have "members n m \<inter> {c} = {}" by blast
    then show ?thesis unfolding skip(1) using skip(2) lk(2) by (intro step) auto
  next
    case (acted m f a)
    then show ?thesis unfolding acted(1) using lk(2) by (intro step) (auto simp: count_cpus_eq)
  qed auto
qed

lemma rv_step_inv:
  assumes inv: "rv_inv n s" and st: "rv_cpus n c s s'"
  shows "rv_inv n s'"
proof -
  have lk: "smp_lock s = Some c" "place n c (main s c) s" if "caller (main s c)"
    using rv_invD(1,5) [OF inv] that by blast+
  show ?thesis
    using st
  proof cases
    case (trylock m f a)
    have "\<not> caller (main s d)" for d using rv_invD(1) [OF inv, of d] trylock(4) by simp
    moreover have "phase s = (\<lambda>d. Idle)" using rv_invD(4) [OF inv] trylock(4) .
    ultimately show ?thesis unfolding trylock(1)
      using rv_invD(2,3) [OF inv] trylock(2) by (intro rv_invI) (auto simp: fun_upd_def split: if_splits)
  next
    case (finish m f a)
    from lk(2) finish(2) obtain E L where r: "in_room (members n m) f a {} E L s" by auto
    have "in_room (members n m) f a {} (members n m) (members n m) s"
      using r room_left [OF r] finish(3) by (simp add: count_cpus_eq)
    then show ?thesis unfolding finish(1) using finish(2) by (intro rv_cpus_inv [OF inv lk(1)]) auto
  next
    case (unlock m f a)
    have "phase s = (\<lambda>d. Idle)" using lk(2) unlock(2) room_empty by fastforce
    moreover have "\<not> caller (main s d)" if "d \<noteq> c" for d using rv_invD(1) [OF inv, of d] lk(1) unlock(2) that by auto
    ultimately show ?thesis unfolding unlock(1) using rv_invD(2,3) [OF inv] by (intro rv_invI) (auto split: if_splits)
  qed (use rv_store_inv [OF inv st] rv_told_inv [OF inv st] in blast)+
qed

lemma rv_call_inv:
  assumes inv: "rv_inv n s" and st: "rv_call n s s'"
  shows "rv_inv n s'"
  using st
proof cases
  case (call c k m f a)
  then have l: "smp_lock s \<noteq> Some c" using rv_invD(1) [OF inv, of c] by auto
  show ?thesis unfolding call(1)
  proof (rule rv_invI)
    fix d
    let ?s = "to_main c (Trylock m f a) (s\<lparr>td_nest := (td_nest s)(c := k)\<rparr>)"
    show "caller (main ?s d) \<longleftrightarrow> smp_lock ?s = Some d" "main ?s d \<noteq> Outside \<Longrightarrow> d < n"
      using rv_invD(1,2) [OF inv, of d] l call(2) by auto
    show "td_nest ?s d > 0" if "main ?s d \<noteq> Outside \<or> phase ?s d = Enter"
      using rv_invD(3) [OF inv, of d] that call(5) by (auto split: if_splits)
    show "phase ?s = (\<lambda>c. Idle)" if "smp_lock ?s = None" using that rv_invD(4) [OF inv] by simp
    show "place n d (main ?s d) ?s" if "smp_lock ?s = Some d" using that rv_invD(5) [OF inv, of d] l by auto
  qed
qed

lemma rv_reach_inv: "rv_reach n s \<Longrightarrow> rv_inv n s"
proof (induction rule: rv_reach.induct)
  case (init s)
  then show ?case by (simp add: rv_inv_def)
next
  case (step s s')
  from step(2,3) show ?case by (auto elim!: rv_step.cases intro: rv_step_inv rv_action_inv)
qed (rule rv_call_inv)

section \<open>Progress\<close>

text \<open>How far a CPU is from the end, in the caller and in the room. A CPU that has read the
  counter too early has to read it again.\<close>

fun main_rank :: "nat \<Rightarrow> ('f, 'a) rv_main \<Rightarrow> nat" where
  "main_rank n Outside = 0"
| "main_rank n (Unlock m f a) = 1"
| "main_rank n (Finish m f a) = 2"
| "main_rank n (Action m f a) = 3"
| "main_rank n (Send m f a R) = 20 + 10 * card R"
| "main_rank n (Store v m f a) =
     (case v of St_room0 \<Rightarrow> 21 | St_room1 \<Rightarrow> 22 | St_ncpus \<Rightarrow> 23 | St_arg \<Rightarrow> 24 | St_func \<Rightarrow> 25) + 10 * n"
| "main_rank n (Trylock m f a) = 26 + 10 * n"

fun phase_rank :: "nat \<Rightarrow> ('f, 'a) rv_phase \<Rightarrow> nat" where
  "phase_rank k Idle = 0"
| "phase_rank k Leave = 1"
| "phase_rank k (Call f a) = 2"
| "phase_rank k (Load_arg f) = 3"
| "phase_rank k Load_func = 4"
| "phase_rank k (Compare r) = (if r < k then 7 else 5)"
| "phase_rank k Wait = 6"
| "phase_rank k Enter = 8"
| "phase_rank k Pending = 9"

definition rv_rank :: "nat \<Rightarrow> ('f, 'a) rv_state \<Rightarrow> nat" where
  "rv_rank n s = (\<Sum>c<n. main_rank n (main s c)) + (\<Sum>d<n. phase_rank (smp_rendezvous_ncpus s) (phase s d))"

definition rv_done :: "('f, 'a) rv_state \<Rightarrow> bool" where
  "rv_done s \<longleftrightarrow> main s = (\<lambda>c. Outside) \<and> phase s = (\<lambda>d. Idle) \<and> smp_lock s = None"

lemma sum_upd:
  fixes c n :: nat and h :: "'b \<Rightarrow> nat"
  assumes "c < n"
  shows "(\<Sum>i<n. h ((f(c := x)) i)) + h (f c) = (\<Sum>i<n. h (f i)) + h x"
proof -
  have "(\<Sum>i<n. h (g i)) = h (g c) + (\<Sum>i \<in> {..<n} - {c}. h (g i))" for g using assms by (intro sum.remove) simp_all
  from this [of f] this [of "f(c := x)"] show ?thesis by simp
qed

lemma rank_less:
  assumes "c < n" "d < n" "main s' = (main s)(c := x)" "phase s' = (phase s)(d := p)"
    and "smp_rendezvous_ncpus s' = smp_rendezvous_ncpus s \<or> phase s = (\<lambda>d. Idle) \<and> p = Idle"
    and "main_rank n x + phase_rank (smp_rendezvous_ncpus s) p <
      main_rank n (main s c) + phase_rank (smp_rendezvous_ncpus s) (phase s d)"
  shows "rv_rank n s' < rv_rank n s"
proof -
  have "(\<Sum>d<n. phase_rank (smp_rendezvous_ncpus s') (phase s' d)) = (\<Sum>i<n. phase_rank (smp_rendezvous_ncpus s) (phase s' i))"
    using assms(4,5) by (elim disjE) (simp_all add: fun_upd_def)
  then show ?thesis unfolding rv_rank_def
    using assms(6) sum_upd [OF assms(1), of "main_rank n" "main s" x]
      sum_upd [OF assms(2), of "phase_rank (smp_rendezvous_ncpus s)" "phase s" p] unfolding assms(3,4) by linarith
qed

lemma action_less:
  assumes st: "rv_action d s s'" and d: "d < n" "phase_rank (smp_rendezvous_ncpus s) (phase s' d) < phase_rank (smp_rendezvous_ncpus s) (phase s d)"
  shows "\<exists>s'. rv_step n s s' \<and> rv_rank n s' < rv_rank n s"
proof -
  have "smp_rendezvous_ncpus s' = smp_rendezvous_ncpus s" using st by cases simp_all
  moreover have "phase s' = (phase s)(d := phase s' d)" using rv_action_frame(4) [OF st] by auto
  ultimately have "rv_rank n s' < rv_rank n s"
    using d rv_action_frame(1) [OF st] by (intro rank_less [of d n d s' s "main s d"]) auto
  then show ?thesis using rv_step.action [OF st] by blast
qed

text \<open>Some CPU that takes part can always go on: one that is told of the rendezvous, or, when all
  have entered the room, one that is inside.\<close>

lemma told_moves:
  assumes inv: "rv_inv n s" and c: "smp_lock s = Some c" "phase s c \<noteq> Pending" and e: "e < n" "told (phase s e)"
  shows "\<exists>s'. rv_step n s s' \<and> rv_rank n s' < rv_rank n s"
proof (cases "phase s e = Enter")
  case True
  have "td_nest s e > 0" using rv_invD(3) [OF inv] True by blast
  then show ?thesis by (rule action_less [OF rv_action.enter [OF True]]) (use e True in simp_all)
next
  case False
  then have p: "phase s e = Pending" using e(2) by (simp add: told_def)
  then have "smp_lock s \<noteq> Some e" using c by auto
  then consider "main s e = Outside" | m f a where "main s e = Trylock m f a" using rv_invD(1) [OF inv, of e] by blast
  then show ?thesis
  proof cases
    case 1
    show ?thesis by (rule action_less [OF rv_action.interrupt [OF p 1, of 0] e(1)]) (simp add: p)
  next
    case (2 m f a)
    show ?thesis by (rule action_less [OF rv_action.poll [OF p 2] e(1)]) (simp add: p)
  qed
qed

lemma inside_moves:
  assumes "d < n" "inside (phase s d)" "room0 s = smp_rendezvous_ncpus s"
  shows "\<exists>s'. rv_step n s s' \<and> rv_rank n s' < rv_rank n s"
proof (cases "phase s d")
  case Wait
  show ?thesis by (rule action_less [OF rv_action.read_room [OF Wait] assms(1)]) (simp add: Wait assms(3))
next
  case (Compare x)
  show ?thesis by (rule action_less [OF rv_action.pass [OF Compare] assms(1)]) (simp add: Compare)
next
  case Load_func
  show ?thesis by (rule action_less [OF rv_action.load_func [OF Load_func] assms(1)]) (simp add: Load_func)
next
  case (Load_arg g)
  show ?thesis by (rule action_less [OF rv_action.load_arg [OF Load_arg] assms(1)]) (simp add: Load_arg)
next
  case (Call g b)
  show ?thesis by (rule action_less [OF rv_action.run [OF Call] assms(1)]) (simp add: Call)
next
  case Leave
  show ?thesis by (rule action_less [OF rv_action.leave [OF Leave] assms(1)]) (simp add: Leave)
qed (use assms(2) in simp_all)

lemma part_moves:
  assumes inv: "rv_inv n s" and r: "in_room (members n m) f a {} E L s" and c: "smp_lock s = Some c" "phase s c \<noteq> Pending"
    and d: "phase s d \<noteq> Idle"
  shows "\<exists>s'. rv_step n s s' \<and> rv_rank n s' < rv_rank n s"
proof -
  have lt: "e < n" if "phase s e \<noteq> Idle" for e
    using that phase_cases [of "phase s e"] in_roomD(8) [OF r] in_roomD(10,11) [OF r, of e] by (auto simp: members_def)
  show ?thesis
  proof (cases "\<exists>e. told (phase s e)")
    case True
    then obtain e where e: "told (phase s e)" by blast
    then have "phase s e \<noteq> Idle" by (auto simp: told_def)
    then show ?thesis by (rule told_moves [OF inv c lt e])
  next
    case False
    then have "members n m - E = {}" using in_roomD(11) [OF r] by blast
    then have "room0 s = smp_rendezvous_ncpus s" using in_roomD(3,4,8) [OF r] by (metis Diff_eq_empty_iff subset_antisym)
    moreover have "inside (phase s d)" using d False phase_cases [of "phase s d"] by blast
    ultimately show ?thesis using inside_moves [OF lt [OF d]] by blast
  qed
qed

text \<open>The caller can go on, or waits for CPUs that can.\<close>

lemma cpus_less:
  assumes "rv_cpus n c s s'" "c < n" "d < n" "main s' = (main s)(c := x)" "phase s' = (phase s)(d := p)"
    and "smp_rendezvous_ncpus s' = smp_rendezvous_ncpus s \<or> phase s = (\<lambda>d. Idle) \<and> p = Idle"
    and "main_rank n x + phase_rank (smp_rendezvous_ncpus s) p <
      main_rank n (main s c) + phase_rank (smp_rendezvous_ncpus s) (phase s d)"
  shows "\<exists>s'. rv_step n s s' \<and> rv_rank n s' < rv_rank n s"
  using rv_step.cpus [OF assms(1)] rank_less [OF assms(2-)] by blast

lemma card_members: "card (members n m - {c}) \<le> n"
  using card_mono [of "{..<n}" "members n m - {c}"] by (auto simp: members_def)

lemma store_moves:
  assumes "c < n" "main s c = Store v m f a" "phase s = (\<lambda>d. Idle)"
  shows "\<exists>s'. rv_step n s s' \<and> rv_rank n s' < rv_rank n s"
proof (cases v)
  case St_func
  show ?thesis by (rule cpus_less [where d = c, OF rv_cpus.st_func]) (use assms St_func in auto)
next
  case St_arg
  show ?thesis by (rule cpus_less [where d = c, OF rv_cpus.st_arg]) (use assms St_arg in auto)
next
  case St_ncpus
  show ?thesis by (rule cpus_less [where d = c, OF rv_cpus.st_ncpus]) (use assms St_ncpus in auto)
next
  case St_room1
  show ?thesis by (rule cpus_less [where d = c, OF rv_cpus.st_room1]) (use assms St_room1 in auto)
next
  case St_room0
  show ?thesis by (rule cpus_less [where d = c, OF rv_cpus.st_room0]) (use assms St_room0 card_members [of n m c] in auto)
qed

lemma send_moves:
  assumes cn: "c < n" and Send: "main s c = Send m f a R" and R: "R \<subseteq> members n m - {c}" "phase s c = Idle"
  shows "\<exists>s'. rv_step n s s' \<and> rv_rank n s' < rv_rank n s"
proof (cases "R = {}")
  case True
  show ?thesis
  proof (cases "c \<in> members n m")
    case True
    show ?thesis by (rule cpus_less [where d = c, OF rv_cpus.join]) (use cn Send \<open>R = {}\<close> True R in auto)
  next
    case False
    show ?thesis by (rule cpus_less [where d = c, OF rv_cpus.skip]) (use cn Send \<open>R = {}\<close> False R in auto)
  qed
next
  case False
  then obtain d where d: "d \<in> R" by blast
  have fin: "finite R" using R(1) by (meson finite_Diff finite_members finite_subset)
  have "d < n" using R(1) d by (auto simp: members_def)
  moreover have "card R = Suc (card (R - {d}))" by (rule card.remove [OF fin d])
  ultimately show ?thesis by (intro cpus_less [where d = d, OF rv_cpus.send [OF Send d]]) (use cn Send in auto)
qed

lemma caller_moves:
  assumes inv: "rv_inv n s" and c: "smp_lock s = Some c"
  shows "\<exists>s'. rv_step n s s' \<and> rv_rank n s' < rv_rank n s"
proof -
  have cn: "c < n" using rv_invD(1,2) [OF inv, of c] c by blast
  have p: "place n c (main s c) s" by (rule rv_invD(5) [OF inv c])
  show ?thesis
  proof (cases "main s c")
    case (Store v m f a)
    then show ?thesis using store_moves [OF cn Store] p by simp
  next
    case (Send m f a R)
    then have "R \<subseteq> members n m - {c}" "phase s c = Idle" using p by simp_all
    then show ?thesis using send_moves [OF cn Send] by blast
  next
    case (Action m f a)
    then obtain E L where "in_room (members n m) f a {} E L s" "phase s c \<noteq> Pending" using p by auto
    then have "phase s c \<noteq> Idle \<Longrightarrow> ?thesis" using part_moves [OF inv _ c] by blast
    moreover have "phase s c = Idle \<Longrightarrow> ?thesis"
      by (rule cpus_less [where d = c, OF rv_cpus.acted]) (use cn Action in auto)
    ultimately show ?thesis by blast
  next
    case (Finish m f a)
    then obtain E L where r: "in_room (members n m) f a {} E L s" "phase s c = Idle" using p by auto
    show ?thesis
    proof (cases "room1 s < count_cpus n m")
      case True
      then have "L \<noteq> members n m" using in_roomD(5) [OF r(1)] by (auto simp: count_cpus_eq)
      then obtain d where "d \<in> members n m - L" using in_roomD(7,8) [OF r(1)] by blast
      then have "phase s d \<noteq> Idle" using in_roomD(10,11) [OF r(1), of d] by (auto simp: room_simps)
      then show ?thesis using part_moves [OF inv r(1) c] r(2) by simp
    next
      case False
      show ?thesis by (rule cpus_less [where d = c, OF rv_cpus.finish]) (use cn Finish False in auto)
    qed
  next
    case (Unlock m f a)
    show ?thesis by (rule cpus_less [where d = c, OF rv_cpus.unlock]) (use cn Unlock in auto)
  qed (use rv_invD(1) [OF inv, of c] c in auto)
qed

lemma rv_moves:
  assumes inv: "rv_inv n s" and c: "main s c \<noteq> Outside"
  shows "\<exists>s'. rv_step n s s' \<and> rv_rank n s' < rv_rank n s"
proof (cases "smp_lock s")
  case None
  then obtain m f a where t: "main s c = Trylock m f a" "phase s = (\<lambda>d. Idle)" using rv_invD(1) [OF inv, of c] rv_invD(4) [OF inv] c by auto
  have "c < n" by (rule rv_invD(2) [OF inv c])
  then show ?thesis by (intro cpus_less [where d = c, OF rv_cpus.trylock [OF t(1)]]) (use t None in auto)
qed (rule caller_moves [OF inv])

lemma rv_finishes:
  assumes "rv_inv n s"
  shows "\<exists>s'. (rv_step n)\<^sup>*\<^sup>* s s' \<and> rv_done s'"
  using assms
proof (induction "rv_rank n s" arbitrary: s rule: less_induct)
  case less
  show ?case
  proof (cases "main s = (\<lambda>c. Outside)")
    case True
    then have "smp_lock s = None" using rv_invD(1) [OF less.prems] by (cases "smp_lock s") auto
    then have "rv_done s" using True rv_invD(4) [OF less.prems] by (simp add: rv_done_def)
    then show ?thesis by blast
  next
    case False
    then obtain c where "main s c \<noteq> Outside" by blast
    from rv_moves [OF less.prems this] obtain s1 where s1: "rv_step n s s1" "rv_rank n s1 < rv_rank n s" by blast
    have "rv_inv n s1" using s1(1) less.prems by (auto elim!: rv_step.cases intro: rv_step_inv rv_action_inv)
    with less.hyps [OF s1(2)] s1(1) show ?thesis by (meson converse_rtranclp_into_rtranclp)
  qed
qed

section \<open>Properties\<close>

text \<open>A run on two CPUs: CPU 0 calls function 7 with argument 9 on both of them.\<close>

definition two :: "'b \<Rightarrow> 'b \<Rightarrow> 'b \<Rightarrow> nat \<Rightarrow> 'b" where
  "two x y z c = (if c = 0 then x else if c = 1 then y else z)"

lemma two_simps [simp]: "two x y z 0 = x" "two x y z (Suc 0) = y" "(two x y z)(0 := u) = two u y z" "(two x y z)(Suc 0 := u) = two x u z"
  by (auto simp: two_def)

lemma two_const: "two x x x = (\<lambda>c. x)"
  by (auto simp: two_def)

lemma members_2: "members 2 3 = {0, Suc 0}"
proof -
  have "(3 :: u32) = 1 + 2 * 1" by simp
  then have "bit (3 :: u32) 0" "bit (3 :: u32) (Suc 0)" by (simp_all add: bit_0 bit_Suc)
  then show ?thesis by (auto simp: members_def less_2_cases_iff)
qed

lemma count_2: "count_cpus 2 3 = 2"
  by (simp add: count_cpus_eq members_2)

definition rv_start :: "(nat, nat) rv_state" where
  "rv_start = \<lparr>smp_lock = None, smp_rendezvous_func = 0, smp_rendezvous_arg = 0, smp_rendezvous_ncpus = 0, room0 = 5, room1 = 5,
     td_nest = two 0 0 0, main = two Outside Outside Outside, phase = two Idle Idle Idle, calls = []\<rparr>"

text \<open>CPU 1 is about to call the function, CPU 0 has entered the room.\<close>

definition rv_ready :: "(nat, nat) rv_state" where
  "rv_ready = \<lparr>smp_lock = Some 0, smp_rendezvous_func = 7, smp_rendezvous_arg = 9, smp_rendezvous_ncpus = 2, room0 = 2, room1 = 0,
     td_nest = two 1 1 0, main = two (Action 3 7 9) Outside Outside, phase = two Wait (Call 7 9) Idle, calls = []\<rparr>"

text \<open>CPU 0 is about to release the lock.\<close>

definition rv_end :: "(nat, nat) rv_state" where
  "rv_end = rv_ready\<lparr>room1 := 2, main := two (Unlock 3 7 9) Outside Outside, phase := two Idle Idle Idle, calls := [(1, 7, 9), (0, 7, 9)]\<rparr>"

lemma rv_reach_cpus: "rv_reach n s \<Longrightarrow> rv_cpus n c s s' \<Longrightarrow> rv_reach n s'"
  by (blast intro: rv_reach.step rv_step.cpus)

lemma rv_reach_action: "rv_reach n s \<Longrightarrow> rv_action d s s' \<Longrightarrow> rv_reach n s'"
  by (blast intro: rv_reach.step rv_step.action)

lemma rv_ready_reach: "rv_reach 2 rv_ready"
proof -
  have 0: "rv_reach 2 rv_start" by (rule rv_reach.init) (simp_all add: rv_start_def two_const)
  note 1 = rv_reach.call [OF 0 rv_call.call [of 0 2 _ 1 3 7 9], unfolded rv_start_def, simplified count_2, simplified]
  note 2 = rv_reach_cpus [OF 1 rv_cpus.trylock [of _ 0 3 7 9], simplified]
  note 3 = rv_reach_cpus [OF 2 rv_cpus.st_func [of _ 0 3 7 9], simplified]
  note 4 = rv_reach_cpus [OF 3 rv_cpus.st_arg [of _ 0 3 7 9], simplified]
  note 5 = rv_reach_cpus [OF 4 rv_cpus.st_ncpus [of _ 0 3 7 9], simplified count_2, simplified]
  note 6 = rv_reach_cpus [OF 5 rv_cpus.st_room1 [of _ 0 3 7 9], simplified]
  note 7 = rv_reach_cpus [OF 6 rv_cpus.st_room0 [of _ 0 3 7 9], simplified members_2, simplified]
  note 8 = rv_reach_cpus [OF 7 rv_cpus.send [of _ 0 3 7 9 "{Suc 0}" "Suc 0"], simplified]
  note 9 = rv_reach_cpus [OF 8 rv_cpus.join [of _ 0 3 7 9], simplified members_2, simplified]
  note 10 = rv_reach_action [OF 9 rv_action.interrupt [of _ "Suc 0" 0], simplified]
  note 11 = rv_reach_action [OF 10 rv_action.enter [of _ 0], simplified]
  note 12 = rv_reach_action [OF 11 rv_action.enter [of _ "Suc 0"], simplified]
  note 13 = rv_reach_action [OF 12 rv_action.read_room [of _ "Suc 0"], simplified]
  note 14 = rv_reach_action [OF 13 rv_action.pass [of _ "Suc 0" 2], simplified]
  note 15 = rv_reach_action [OF 14 rv_action.load_func [of _ "Suc 0"], simplified]
  note 16 = rv_reach_action [OF 15 rv_action.load_arg [of _ "Suc 0" 7], simplified]
  then show ?thesis by (simp add: rv_ready_def numeral_2_eq_2)
qed

lemma rv_end_reach: "rv_reach 2 rv_end"
proof -
  note 1 = rv_reach_action [OF rv_ready_reach [unfolded rv_ready_def] rv_action.run [of _ "Suc 0" 7 9], simplified]
  note 2 = rv_reach_action [OF 1 rv_action.leave [of _ "Suc 0"], simplified]
  note 3 = rv_reach_action [OF 2 rv_action.read_room [of _ 0], simplified]
  note 4 = rv_reach_action [OF 3 rv_action.pass [of _ 0 2], simplified]
  note 5 = rv_reach_action [OF 4 rv_action.load_func [of _ 0], simplified]
  note 6 = rv_reach_action [OF 5 rv_action.load_arg [of _ 0 7], simplified]
  note 7 = rv_reach_action [OF 6 rv_action.run [of _ 0 7 9], simplified]
  note 8 = rv_reach_action [OF 7 rv_action.leave [of _ 0], simplified]
  note 9 = rv_reach_cpus [OF 8 rv_cpus.acted [of _ 0 3 7 9], simplified]
  note 10 = rv_reach_cpus [OF 9 rv_cpus.finish [of _ 0 3 7 9], simplified count_2, simplified]
  then show ?thesis by (simp add: rv_end_def rv_ready_def numeral_2_eq_2)
qed

text \<open>C12. When \<^verbatim>\<open>smp_rendezvous_cpus\<close> ends its wait and is about to release the lock, in whatever order
  the CPUs ran, every CPU of the mask has called the given function with the given argument
  exactly once, no other CPU has called it, and no CPU is still in the room.\<close>

theorem rendezvous_calls_all_once:
  assumes "rv_reach n s" and "main s c = Unlock m f a"
  shows "distinct (map fst (calls s)) \<and> set (calls s) = {(d, f, a) | d. d < n \<and> bit m d} \<and> (\<forall>d. phase s d = Idle)"
proof -
  note inv = rv_reach_inv [OF assms(1)]
  have "smp_lock s = Some c" using rv_invD(1) [OF inv, of c] assms(2) by simp
  then have r: "in_room (members n m) f a {} (members n m) (members n m) s" using rv_invD(5) [OF inv, of c] assms(2) by simp
  have "phase s = (\<lambda>d. Idle)" by (rule room_empty [OF r])
  then show ?thesis using in_roomD(16,17) [OF r] by (auto simp: members_def)
qed

theorem rendezvous_calls_all_once_witness:
  "rv_reach 2 rv_end \<and> main rv_end 0 = Unlock 3 7 9 \<and> set (calls rv_end) = {(d, 7, 9) | d. d < 2 \<and> bit (3 :: u32) d}"
  using rendezvous_calls_all_once [OF rv_end_reach, of 0 3 7 9] rv_end_reach by (simp add: rv_end_def)

text \<open>C13. No CPU calls the function before all have arrived: while a CPU is at the call, it calls
  the function with the argument that the CPU holding the lock was given, it is in the mask
  that CPU was given, and every CPU of this mask has entered the room.\<close>

theorem rendezvous_is_a_barrier:
  assumes "rv_reach n s" and "phase s d = Call f a"
  shows "\<exists>c m R. smp_lock s = Some c \<and> main s c \<in> {Send m f a R, Action m f a, Finish m f a} \<and> d < n \<and> bit m d \<and>
    (\<forall>e < n. bit m e \<longrightarrow> inside (phase s e) \<or> (e, f, a) \<in> set (calls s))"
proof -
  note inv = rv_reach_inv [OF assms(1)]
  have "smp_lock s \<noteq> None" using rv_invD(4) [OF inv, THEN fun_cong, of d] assms(2) by fastforce
  then obtain c where c: "smp_lock s = Some c" by blast
  have "place n c (main s c) s" by (rule rv_invD(5) [OF inv c])
  then obtain m g b R W E L where r: "main s c \<in> {Send m g b R, Action m g b, Finish m g b}" "in_room (members n m) g b W E L s"
    using assms(2) by (cases "main s c") (auto dest: room_empty)
  have e: "E = members n m" "d \<in> E" "f = g" "a = b" using in_roomD(10,12,15) [OF r(2), of d] assms(2) by simp_all
  have "inside (phase s e) \<or> (e, f, a) \<in> set (calls s)" if "e \<in> members n m" for e
    using in_roomD(10) [OF r(2), of e] in_roomD(17) [OF r(2)] that e by blast
  then show ?thesis using c r(1) e by (intro exI [of _ c] exI [of _ m] exI [of _ R]) (simp add: members_def)
qed

theorem rendezvous_is_a_barrier_witness:
  "rv_reach 2 rv_ready \<and> phase rv_ready 1 = Call 7 9 \<and> main rv_ready 0 = Action 3 7 9 \<and> inside (phase rv_ready 0)"
proof -
  have c: "phase rv_ready 1 = Call 7 9" "smp_lock rv_ready = Some 0" "main rv_ready 0 = Action 3 7 9" "calls rv_ready = []"
    by (simp_all add: rv_ready_def)
  have "0 \<in> members 2 3" by (simp add: members_2)
  then have "bit (3 :: u32) 0" by (simp add: members_def)
  with rendezvous_is_a_barrier [OF rv_ready_reach c(1)] have "inside (phase rv_ready 0)" unfolding c(2,4) by (auto simp: c(3))
  with c rv_ready_reach show ?thesis by simp
qed

text \<open>C14. The protocol does not deadlock and does not get stuck in its waiting loops: whenever a CPU is
  in \<^verbatim>\<open>smp_rendezvous_cpus\<close>, the CPUs can go on, without any new call, until all of them have
  returned, provided CPUs outside the function take their interrupts. As the assertion of
  \<^verbatim>\<open>smp_rendezvous_action\<close> is a condition of its steps, it holds on the way.\<close>

theorem rendezvous_deadlock_free:
  assumes "rv_reach n s" and "main s c \<noteq> Outside"
  shows "\<exists>s1 s2. rv_step n s s1 \<and> (rv_step n)\<^sup>*\<^sup>* s1 s2 \<and> rv_done s2"
proof -
  from rv_finishes [OF rv_reach_inv [OF assms(1)]] obtain s2 where s2: "(rv_step n)\<^sup>*\<^sup>* s s2" "rv_done s2" by blast
  then have "s \<noteq> s2" using assms(2) by (auto simp: rv_done_def)
  with s2 show ?thesis by (metis converse_rtranclpE)
qed

theorem rendezvous_deadlock_free_witness: "\<exists>s1 s2. rv_step 2 rv_ready s1 \<and> (rv_step 2)\<^sup>*\<^sup>* s1 s2 \<and> rv_done s2"
  by (rule rendezvous_deadlock_free [OF rv_ready_reach, of 0]) (simp add: rv_ready_def)

end
