(* ===== verification/Libc_Memory.thy ===== *)
theory Libc_Memory
  imports Prelude
begin

text \<open>
  The block operations of \<^verbatim>\<open>lib/libc/string\<close>: \<^verbatim>\<open>_memcpy\<close> with its callers \<^verbatim>\<open>memcpy\<close>, \<^verbatim>\<open>bcopy\<close> and
  \<^verbatim>\<open>memmove\<close>, \<^verbatim>\<open>memset\<close>, \<^verbatim>\<open>bcmp\<close>, \<^verbatim>\<open>memcmp\<close> and \<^verbatim>\<open>memchr\<close>, for a little-endian machine with 32-bit \<^verbatim>\<open>long\<close>.
  Memory is a function from addresses to bytes. The routines that work on words are shown
  equal to plain byte-by-byte definitions.
\<close>

type_synonym mem = "nat \<Rightarrow> u8"

section \<open>Words in memory\<close>

definition load32 :: "mem \<Rightarrow> nat \<Rightarrow> u32" where
  "load32 m p = ucast (m p) OR push_bit 8 (ucast (m (p + 1))) OR push_bit 16 (ucast (m (p + 2))) OR
     push_bit 24 (ucast (m (p + 3)))"

definition store32 :: "nat \<Rightarrow> u32 \<Rightarrow> mem \<Rightarrow> mem" where
  "store32 p v m = m(p := ucast v, p + 1 := ucast (drop_bit 8 v), p + 2 := ucast (drop_bit 16 v), p + 3 := ucast (drop_bit 24 v))"

definition wsize :: nat where "wsize = 4"
definition wmask :: nat where "wmask = 3"

lemma load32_bytes:
  "ucast (load32 m p) = m p" "ucast (drop_bit 8 (load32 m p)) = m (p + 1)"
  "ucast (drop_bit 16 (load32 m p)) = m (p + 2)" "ucast (drop_bit 24 (load32 m p)) = m (p + 3)"
  unfolding load32_def by (rule bit_word_eqI; auto simp: bit_simps dest: bit_imp_le_length)+

lemma store32_load32: "store32 p (load32 m q) m' = m'(p := m q, p + 1 := m (q + 1), p + 2 := m (q + 2), p + 3 := m (q + 3))"
  by (simp add: store32_def load32_bytes)

lemma and_wmask: "n AND wmask = n mod 4"
proof -
  have "wmask = mask 2" by (simp add: wmask_def mask_eq_exp_minus_1)
  then have "n AND wmask = take_bit 2 n" by (simp only: take_bit_eq_mask)
  then show ?thesis by (simp add: take_bit_eq_mod)
qed

section \<open>Copying\<close>

text \<open>The loops \<^verbatim>\<open>TLOOP\<close> over single bytes and over words, forwards and backwards, with the
  pointers and the memory after them.\<close>

primrec fwd_bytes :: "nat \<Rightarrow> nat \<Rightarrow> nat \<Rightarrow> mem \<Rightarrow> nat \<times> nat \<times> mem" where
  "fwd_bytes 0 dst src m = (dst, src, m)"
| "fwd_bytes (Suc t) dst src m = fwd_bytes t (dst + 1) (src + 1) (m(dst := m src))"

primrec fwd_words :: "nat \<Rightarrow> nat \<Rightarrow> nat \<Rightarrow> mem \<Rightarrow> nat \<times> nat \<times> mem" where
  "fwd_words 0 dst src m = (dst, src, m)"
| "fwd_words (Suc t) dst src m = fwd_words t (dst + wsize) (src + wsize) (store32 dst (load32 m src) m)"

primrec bwd_bytes :: "nat \<Rightarrow> nat \<Rightarrow> nat \<Rightarrow> mem \<Rightarrow> nat \<times> nat \<times> mem" where
  "bwd_bytes 0 dst src m = (dst, src, m)"
| "bwd_bytes (Suc t) dst src m = bwd_bytes t (dst - 1) (src - 1) (m(dst - 1 := m (src - 1)))"

primrec bwd_words :: "nat \<Rightarrow> nat \<Rightarrow> nat \<Rightarrow> mem \<Rightarrow> nat \<times> nat \<times> mem" where
  "bwd_words 0 dst src m = (dst, src, m)"
| "bwd_words (Suc t) dst src m =
     bwd_words t (dst - wsize) (src - wsize) (store32 (dst - wsize) (load32 m (src - wsize)) m)"

text \<open>\<^verbatim>\<open>do ... while (--t)\<close>: a count of zero wraps around.\<close>

definition tloop1 :: "nat \<Rightarrow> nat" where
  "tloop1 t = (if t = 0 then 2 ^ 32 else t)"

definition memcpy_forward :: "nat \<Rightarrow> nat \<Rightarrow> nat \<Rightarrow> mem \<Rightarrow> mem" where
  "memcpy_forward dst src len m =
     (let t = src;
          (len, dst, src, m) =
            (if (t OR dst) AND wmask \<noteq> 0 then
               (let t = (if (t XOR dst) AND wmask \<noteq> 0 \<or> len < wsize then len else wsize - (t AND wmask));
                    len = len - t;
                    (dst, src, m) = fwd_bytes (tloop1 t) dst src m
                in (len, dst, src, m))
             else (len, dst, src, m));
          (dst, src, m) = fwd_words (len div wsize) dst src m;
          (dst, src, m) = fwd_bytes (len AND wmask) dst src m
      in m)"

definition memcpy_backward :: "nat \<Rightarrow> nat \<Rightarrow> nat \<Rightarrow> mem \<Rightarrow> mem" where
  "memcpy_backward dst src len m =
     (let src = src + len; dst = dst + len;
          t = src;
          (len, dst, src, m) =
            (if (t OR dst) AND wmask \<noteq> 0 then
               (let t = (if (t XOR dst) AND wmask \<noteq> 0 \<or> len \<le> wsize then len else t AND wmask);
                    len = len - t;
                    (dst, src, m) = bwd_bytes (tloop1 t) dst src m
                in (len, dst, src, m))
             else (len, dst, src, m));
          (dst, src, m) = bwd_words (len div wsize) dst src m;
          (dst, src, m) = bwd_bytes (len AND wmask) dst src m
      in m)"

definition memcpy_internal :: "nat \<Rightarrow> nat \<Rightarrow> nat \<Rightarrow> mem \<Rightarrow> mem" where
  "memcpy_internal dst src len m =
     (if len = 0 \<or> dst = src then m
      else if dst < src then memcpy_forward dst src len m
      else memcpy_backward dst src len m)"

definition memcpy :: "nat \<Rightarrow> nat \<Rightarrow> nat \<Rightarrow> mem \<Rightarrow> nat \<times> mem" where
  "memcpy dst src len m = (dst, memcpy_internal dst src len m)"

definition bcopy :: "nat \<Rightarrow> nat \<Rightarrow> nat \<Rightarrow> mem \<Rightarrow> mem" where
  "bcopy src dst len m = memcpy_internal dst src len m"

definition memmove :: "nat \<Rightarrow> nat \<Rightarrow> nat \<Rightarrow> mem \<Rightarrow> nat \<times> mem" where
  "memmove dst src len m = (dst, bcopy src dst len m)"

text \<open>What a copy means: the block at the source as it was before.\<close>

definition copied :: "nat \<Rightarrow> nat \<Rightarrow> nat \<Rightarrow> mem \<Rightarrow> mem" where
  "copied dst src n m = (\<lambda>a. if dst \<le> a \<and> a < dst + n then m (src + (a - dst)) else m a)"

lemma copied_0: "copied dst src 0 m = m"
  by (rule ext) (auto simp: copied_def)

lemma fwd_bytes_add:
  "fwd_bytes (a + b) dst src m = (case fwd_bytes a dst src m of (dst, src, m) \<Rightarrow> fwd_bytes b dst src m)"
  by (induction a arbitrary: dst src m) auto

lemma bwd_bytes_add:
  "bwd_bytes (a + b) dst src m = (case bwd_bytes a dst src m of (dst, src, m) \<Rightarrow> bwd_bytes b dst src m)"
  by (induction a arbitrary: dst src m) auto

lemma fwd_bytes_ptrs: "fst (fwd_bytes n dst src m) = dst + n" "fst (snd (fwd_bytes n dst src m)) = src + n"
  by (induction n arbitrary: dst src m) auto

lemma bwd_bytes_ptrs: "fst (bwd_bytes n dst src m) = dst - n" "fst (snd (bwd_bytes n dst src m)) = src - n"
  by (induction n arbitrary: dst src m) auto

lemma fwd_bytes_copied: "dst < src \<Longrightarrow> fwd_bytes n dst src m = (dst + n, src + n, copied dst src n m)"
proof (induction n arbitrary: dst src m)
  case (Suc n)
  have "copied (dst + 1) (src + 1) n (m(dst := m src)) = copied dst src (Suc n) m"
  proof
    show "copied (dst + 1) (src + 1) n (m(dst := m src)) a = copied dst src (Suc n) m a" for a
      using Suc.prems by (cases "a = dst") (auto simp: copied_def Suc_diff_Suc Suc_le_eq)
  qed
  then show ?case using Suc.IH [of "dst + 1" "src + 1"] Suc.prems by simp
qed (simp add: copied_0)

lemma bwd_bytes_copied:
  "src < dst \<Longrightarrow> bwd_bytes n (dst + n) (src + n) m = (dst, src, copied dst src n m)"
proof (induction n arbitrary: m)
  case (Suc n)
  have "copied dst src n (m(dst + n := m (src + n))) = copied dst src (Suc n) m"
  proof
    show "copied dst src n (m(dst + n := m (src + n))) a = copied dst src (Suc n) m a" for a
      using Suc.prems by (cases "a = dst + n") (auto simp: copied_def)
  qed
  then show ?case using Suc.IH [OF Suc.prems] by (simp add: fun_upd_def)
qed (simp add: copied_0)

text \<open>Copying words is copying bytes when the blocks are at least a word apart.\<close>

lemma fwd_words_bytes: "dst + wsize \<le> src \<Longrightarrow> fwd_words n dst src m = fwd_bytes (wsize * n) dst src m"
proof (induction n arbitrary: dst src m)
  case (Suc n)
  have "fwd_bytes 4 dst src m = (dst + 4, src + 4, store32 dst (load32 m src) m)"
    using Suc.prems by (simp add: numeral_eq_Suc store32_load32 wsize_def)
  then have "fwd_bytes (wsize + wsize * n) dst src m = fwd_bytes (wsize * n) (dst + wsize) (src + wsize) (store32 dst (load32 m src) m)"
    unfolding fwd_bytes_add by (simp add: wsize_def)
  then show ?case using Suc.IH [of "dst + wsize" "src + wsize"] Suc.prems by simp
qed simp

lemma bwd_words_bytes:
  "src + wsize \<le> dst \<Longrightarrow> wsize * n \<le> src \<Longrightarrow> bwd_words n dst src m = bwd_bytes (wsize * n) dst src m"
proof (induction n arbitrary: dst src m)
  case (Suc n)
  obtain s d where sd: "src = s + 4" "dst = d + 4" "s + 4 \<le> d"
    using Suc.prems le_Suc_ex [of wsize src] by (auto simp: wsize_def dest: le_Suc_ex)
  have "bwd_bytes 4 dst src m = (dst - 4, src - 4, store32 (dst - 4) (load32 m (src - 4)) m)"
    using sd by (simp add: numeral_eq_Suc store32_load32 fun_upd_twist)
  then have "bwd_bytes (wsize + wsize * n) dst src m =
      bwd_bytes (wsize * n) (dst - wsize) (src - wsize) (store32 (dst - wsize) (load32 m (src - wsize)) m)"
    unfolding bwd_bytes_add by (simp add: wsize_def)
  then show ?case using Suc.IH [of "src - wsize" "dst - wsize"] Suc.prems by simp
qed simp

lemma or_wmask: "(a OR b) AND wmask = 0 \<longleftrightarrow> a mod 4 = 0 \<and> b mod 4 = 0" for a b :: nat
proof -
  have w: "x AND wmask = take_bit 2 x" for x :: nat by (simp add: and_wmask take_bit_eq_mod)
  have "(a OR b) AND wmask = take_bit 2 a OR take_bit 2 b" unfolding w by (rule take_bit_or)
  then show ?thesis by (simp add: or_eq_0_iff take_bit_eq_mod)
qed

lemma xor_wmask: "(a XOR b) AND wmask = 0 \<longleftrightarrow> a mod 4 = b mod 4" for a b :: nat
proof -
  have w: "x AND wmask = take_bit 2 x" for x :: nat by (simp add: and_wmask take_bit_eq_mod)
  have "(a XOR b) AND wmask = take_bit 2 a XOR take_bit 2 b" unfolding w by (rule take_bit_xor)
  moreover have "x XOR y = 0 \<longleftrightarrow> x = y" for x y :: nat
    by (metis xor.assoc xor.left_neutral xor.right_neutral xor_self_eq)
  ultimately show ?thesis by (simp add: take_bit_eq_mod)
qed

lemma word_apart: "a mod 4 = b mod 4 \<Longrightarrow> a < b \<Longrightarrow> a + wsize \<le> b" for a b :: nat
  unfolding wsize_def by presburger

lemma fwd_rest:
  assumes "d + wsize \<le> s"
  shows "(case fwd_words (l div wsize) d s m of (d, s, m) \<Rightarrow> fwd_bytes (l AND wmask) d s m) = fwd_bytes l d s m"
proof -
  have "wsize * (l div wsize) + (l AND wmask) = l" by (simp add: and_wmask wsize_def)
  then show ?thesis using fwd_words_bytes [OF assms] fwd_bytes_add by metis
qed

lemma bwd_rest:
  assumes "s + wsize \<le> d" and "l \<le> s"
  shows "(case bwd_words (l div wsize) d s m of (d, s, m) \<Rightarrow> bwd_bytes (l AND wmask) d s m) = bwd_bytes l d s m"
proof -
  have "wsize * (l div wsize) + (l AND wmask) = l" by (simp add: and_wmask wsize_def)
  moreover have "wsize * (l div wsize) \<le> s" using calculation assms(2) by linarith
  ultimately show ?thesis using bwd_words_bytes [OF assms(1)] bwd_bytes_add by metis
qed

lemma memcpy_forward_copied:
  assumes "dst < src" and "len \<noteq> 0"
  shows "memcpy_forward dst src len m = copied dst src len m"
proof -
  consider (bytes) "(src OR dst) AND wmask \<noteq> 0" "(src XOR dst) AND wmask \<noteq> 0 \<or> len < wsize"
    | (align) "(src OR dst) AND wmask \<noteq> 0" "src mod 4 = dst mod 4" "wsize \<le> len"
    | (words) "(src OR dst) AND wmask = 0" by (metis xor_wmask not_le)
  then show ?thesis
  proof cases
    case bytes
    then have "memcpy_forward dst src len m = snd (snd (fwd_bytes len dst src m))"
      using assms(2) by (simp add: memcpy_forward_def tloop1_def case_prod_unfold Let_def)
    then show ?thesis using fwd_bytes_copied [OF assms(1)] by simp
  next
    case align
    let ?t = "wsize - (src AND wmask)"
    have x: "(src XOR dst) AND wmask = 0" using align(2) by (simp only: xor_wmask)
    have t: "?t \<noteq> 0" "?t \<le> len" using align(3) by (auto simp: and_wmask wsize_def)
    have far: "dst + ?t + wsize \<le> src + ?t" using word_apart [OF align(2) [symmetric] assms(1)] by simp
    obtain m1 where m1: "fwd_bytes ?t dst src m = (dst + ?t, src + ?t, m1)" using fwd_bytes_copied [OF assms(1)] by blast
    have "memcpy_forward dst src len m = snd (snd (case fwd_words ((len - ?t) div wsize) (dst + ?t) (src + ?t) m1 of
        (d, s, m) \<Rightarrow> fwd_bytes ((len - ?t) AND wmask) d s m))"
      using align(1,3) t x m1 by (simp add: memcpy_forward_def tloop1_def case_prod_unfold Let_def)
    also have "\<dots> = snd (snd (fwd_bytes (?t + (len - ?t)) dst src m))"
      unfolding fwd_rest [OF far] fwd_bytes_add m1 by simp
    finally show ?thesis using t(2) fwd_bytes_copied [OF assms(1)] by simp
  next
    case words
    then have far: "dst + wsize \<le> src" using word_apart [OF _ assms(1)] by (simp add: or_wmask)
    have "memcpy_forward dst src len m = snd (snd (case fwd_words (len div wsize) dst src m of
        (d, s, m) \<Rightarrow> fwd_bytes (len AND wmask) d s m))"
      using words by (simp add: memcpy_forward_def case_prod_unfold Let_def)
    then show ?thesis using fwd_bytes_copied [OF assms(1)] fwd_rest [OF far] by simp
  qed
qed

lemma memcpy_backward_copied:
  assumes "src < dst" and "len \<noteq> 0"
  shows "memcpy_backward dst src len m = copied dst src len m"
proof -
  let ?s = "src + len" and ?d = "dst + len"
  note cp = bwd_bytes_copied [OF assms(1), of len m]
  consider (bytes) "(?s OR ?d) AND wmask \<noteq> 0" "(?s XOR ?d) AND wmask \<noteq> 0 \<or> len \<le> wsize"
    | (align) "(?s OR ?d) AND wmask \<noteq> 0" "?s mod 4 = ?d mod 4" "wsize < len"
    | (words) "(?s OR ?d) AND wmask = 0" by (metis xor_wmask not_le)
  then show ?thesis
  proof cases
    case bytes
    then have "memcpy_backward dst src len m = snd (snd (bwd_bytes len ?d ?s m))"
      using assms(2) by (simp add: memcpy_backward_def tloop1_def case_prod_unfold Let_def)
    then show ?thesis using cp by simp
  next
    case align
    let ?t = "?s AND wmask"
    have x: "(?s XOR ?d) AND wmask = 0" using align(2) by (simp only: xor_wmask)
    have "?t < 4" by (simp add: and_wmask)
    then have t: "?t \<noteq> 0" "?t \<le> len" using align by (auto simp: or_wmask wsize_def and_wmask [of ?s])
    have "?s + wsize \<le> ?d" using word_apart [OF align(2)] assms(1) by simp
    then have far: "?s - ?t + wsize \<le> ?d - ?t" "len - ?t \<le> ?s - ?t" using t(2) by linarith+
    obtain m1 where m1: "bwd_bytes ?t ?d ?s m = (?d - ?t, ?s - ?t, m1)" using bwd_bytes_ptrs [of ?t ?d ?s m] by (metis prod.collapse)
    have "memcpy_backward dst src len m = snd (snd (case bwd_words ((len - ?t) div wsize) (?d - ?t) (?s - ?t) m1 of
        (d, s, m) \<Rightarrow> bwd_bytes ((len - ?t) AND wmask) d s m))"
      using align(1,3) t x m1 by (simp add: memcpy_backward_def tloop1_def case_prod_unfold Let_def)
    also have "\<dots> = snd (snd (bwd_bytes (?t + (len - ?t)) ?d ?s m))"
      unfolding bwd_rest [OF far] bwd_bytes_add m1 by simp
    finally show ?thesis using t(2) cp by simp
  next
    case words
    then have far: "?s + wsize \<le> ?d" using word_apart [of ?s ?d] assms(1) by (simp add: or_wmask)
    have "memcpy_backward dst src len m = snd (snd (case bwd_words (len div wsize) ?d ?s m of
        (d, s, m) \<Rightarrow> bwd_bytes (len AND wmask) d s m))"
      using words by (simp add: memcpy_backward_def case_prod_unfold Let_def)
    then show ?thesis using cp bwd_rest [OF far] by simp
  qed
qed

lemma memcpy_internal_copied: "memcpy_internal dst src len m = copied dst src len m"
proof (cases "len = 0 \<or> dst = src")
  case True
  have "copied dst dst len m = m" by (rule ext) (simp add: copied_def)
  then show ?thesis using True by (auto simp: memcpy_internal_def copied_0)
next
  case False
  then show ?thesis
    using memcpy_forward_copied memcpy_backward_copied by (simp add: memcpy_internal_def)
qed

section \<open>Filling\<close>

primrec set_bytes :: "nat \<Rightarrow> nat \<Rightarrow> u8 \<Rightarrow> mem \<Rightarrow> nat \<times> mem" where
  "set_bytes 0 dst v m = (dst, m)"
| "set_bytes (Suc t) dst v m = set_bytes t (dst + 1) v (m(dst := v))"

primrec set_words :: "nat \<Rightarrow> nat \<Rightarrow> u32 \<Rightarrow> mem \<Rightarrow> nat \<times> mem" where
  "set_words 0 dst c m = (dst, m)"
| "set_words (Suc t) dst c m = set_words t (dst + wsize) c (store32 dst c m)"

definition wideval :: "u32 \<Rightarrow> u32" where
  "wideval c0 =
     (let c = ucast (ucast c0 :: u8)
      in if c \<noteq> 0 then (let c = push_bit 8 c OR c; c = push_bit 16 c OR c in c) else c)"

definition memset :: "nat \<Rightarrow> u32 \<Rightarrow> nat \<Rightarrow> mem \<Rightarrow> nat \<times> mem" where
  "memset dst0 c0 len m =
     (let dst = dst0; val = ucast c0
      in if len < 3 * wsize then (dst0, snd (set_bytes len dst val m))
         else
           (let c = wideval c0;
                t = dst AND wmask;
                (len, dst, m) =
                  (if t \<noteq> 0 then
                     (let t = wsize - t; len = len - t; (dst, m) = set_bytes (tloop1 t) dst val m in (len, dst, m))
                   else (len, dst, m));
                t = len div wsize;
                (dst, m) = set_words (tloop1 t) dst c m;
                t = len AND wmask;
                (dst, m) = (if t \<noteq> 0 then set_bytes (tloop1 t) dst val m else (dst, m))
            in (dst0, m)))"

text \<open>\<^verbatim>\<open>bzero\<close> is \<^verbatim>\<open>memset\<close> compiled with the value 0.\<close>

definition bzero :: "nat \<Rightarrow> nat \<Rightarrow> mem \<Rightarrow> mem" where
  "bzero dst0 len m = snd (memset dst0 0 len m)"

definition filled :: "nat \<Rightarrow> nat \<Rightarrow> u8 \<Rightarrow> mem \<Rightarrow> mem" where
  "filled dst n v m = (\<lambda>a. if dst \<le> a \<and> a < dst + n then v else m a)"

lemma filled_0: "filled dst 0 v m = m"
  by (rule ext) (auto simp: filled_def)

lemma set_bytes_filled: "set_bytes n dst v m = (dst + n, filled dst n v m)"
proof (induction n arbitrary: dst m)
  case (Suc n)
  have "filled (dst + 1) n v (m(dst := v)) = filled dst (Suc n) v m" by (rule ext) (auto simp: filled_def)
  then show ?case using Suc.IH [of "dst + 1"] by (simp add: fun_upd_def)
qed (simp add: filled_0)

lemma filled_filled: "filled (dst + a) b v (filled dst a v m) = filled dst (a + b) v m"
  by (rule ext) (auto simp: filled_def)

lemma wideval_bytes:
  "ucast (wideval c0) = (ucast c0 :: u8)" "ucast (drop_bit 8 (wideval c0)) = (ucast c0 :: u8)"
  "ucast (drop_bit 16 (wideval c0)) = (ucast c0 :: u8)" "ucast (drop_bit 24 (wideval c0)) = (ucast c0 :: u8)"
proof -
  have w: "wideval c0 = (let c = ucast (ucast c0 :: u8); c = push_bit 8 c OR c in push_bit 16 c OR c)"
    by (simp add: wideval_def Let_def)
  show "ucast (wideval c0) = (ucast c0 :: u8)" "ucast (drop_bit 8 (wideval c0)) = (ucast c0 :: u8)"
    "ucast (drop_bit 16 (wideval c0)) = (ucast c0 :: u8)" "ucast (drop_bit 24 (wideval c0)) = (ucast c0 :: u8)"
    unfolding w Let_def by (rule bit_word_eqI; auto simp: bit_simps dest: bit_imp_le_length)+
qed

lemma set_words_filled: "set_words n dst (wideval c0) m = (dst + wsize * n, filled dst (wsize * n) (ucast c0) m)"
proof (induction n arbitrary: dst m)
  case (Suc n)
  have "store32 dst (wideval c0) m = filled dst wsize (ucast c0) m"
    by (rule ext) (auto simp: store32_def wideval_bytes filled_def wsize_def)
  then show ?case using Suc.IH [of "dst + wsize"] by (simp add: filled_filled)
qed (simp add: filled_0)

lemma memset_filled: "memset dst c0 len m = (dst, filled dst len (ucast c0) m)"
proof (cases "len < 3 * wsize")
  case True
  then show ?thesis by (simp add: memset_def set_bytes_filled)
next
  case False
  let ?r = "dst AND wmask"
  have r: "?r < wsize" by (simp add: and_wmask wsize_def)
  define t where "t = (if ?r \<noteq> 0 then wsize - ?r else 0)"
  have t: "t < wsize" "t \<le> len" using r False by (auto simp: t_def)
  define l where "l = len - t"
  have w: "l div wsize \<noteq> 0" using False t(1) by (simp add: l_def wsize_def)
  have align: "(if ?r \<noteq> 0 then (let t = wsize - ?r; len = len - t; (dst, m) = set_bytes (tloop1 t) dst v m in (len, dst, m))
      else (len, dst, m)) = (l, dst + t, filled dst t v m)" for v
    using r by (simp add: t_def l_def tloop1_def set_bytes_filled filled_0)
  have trail: "(if k \<noteq> 0 then set_bytes (tloop1 k) d v m' else (d, m')) = set_bytes k d v m'" for k d v m'
    by (simp add: tloop1_def)
  have "memset dst c0 len m = (dst, snd (set_bytes (l AND wmask) (dst + t + wsize * (l div wsize)) (ucast c0)
      (filled (dst + t) (wsize * (l div wsize)) (ucast c0) (filled dst t (ucast c0) m))))"
    using False w unfolding memset_def Let_def [of dst] Let_def [of "ucast c0"] Let_def [of "wideval c0"] Let_def [of ?r] align
    by (simp add: trail set_words_filled Let_def) (simp add: tloop1_def set_bytes_filled set_words_filled)
  also have "\<dots> = (dst, filled dst (t + wsize * (l div wsize) + (l AND wmask)) (ucast c0) m)"
    using filled_filled [of dst "t + wsize * (l div wsize)"] by (simp add: set_bytes_filled filled_filled add.assoc)
  also have "t + wsize * (l div wsize) + (l AND wmask) = len" using t(2) by (simp add: l_def and_wmask wsize_def)
  finally show ?thesis .
qed

section \<open>Comparing and searching\<close>

text \<open>\<^verbatim>\<open>bcmp\<close>: byte by byte until the first pointer is aligned, then by words, which are put
  together from two words of the second block when that one is not aligned. \<open>Inl\<close> is a result.\<close>

function bcmp_align :: "mem \<Rightarrow> nat \<Rightarrow> nat \<Rightarrow> int \<Rightarrow> nat + (nat \<times> nat \<times> int)" where
  "bcmp_align m p1 p2 len =
     (if p1 AND wmask \<noteq> 0 then
        (if m p1 \<noteq> m p2 then Inl 1
         else (let len = len - 1 in if len \<le> 0 then Inl 0 else bcmp_align m (p1 + 1) (p2 + 1) len))
      else Inr (p1, p2, len))"
  by auto
termination
proof (relation "measure (\<lambda>(m, p1, p2, len). (4 - p1 mod 4) mod 4)")
  fix p1 :: nat
  assume "p1 AND wmask \<noteq> 0"
  then have "p1 mod 4 \<noteq> 0" by (simp add: and_wmask)
  moreover have "p1 mod 4 < 4" by simp
  ultimately have "p1 mod 4 = 1 \<or> p1 mod 4 = 2 \<or> p1 mod 4 = 3" by linarith
  then have "(4 - (p1 + 1) mod 4) mod 4 < (4 - p1 mod 4) mod 4" by (auto simp: mod_Suc)
  then show "((m, p1 + 1, p2 + 1, len), m, p1, p2, l) \<in> measure (\<lambda>(m, p1, p2, len). (4 - p1 mod 4) mod 4)"
    for m :: mem and p2 :: nat and len l :: int by simp
qed simp

function bcmp_shift :: "mem \<Rightarrow> u32 \<Rightarrow> nat \<Rightarrow> nat \<Rightarrow> int \<Rightarrow> nat \<Rightarrow> nat \<Rightarrow> nat" where
  "bcmp_shift m va p1 p2 len shr shl =
     (let len = len - 4
      in if len \<ge> 0 then
           (let vb = load32 m p2; p2 = p2 + 4
            in if load32 m p1 \<noteq> drop_bit shr va OR push_bit shl vb then 1
               else bcmp_shift m vb (p1 + 4) p2 len shr shl)
         else
           (let len = len + 4
            in if len = 0 then 0
               else
                 (let len = nat len * 8
                  in if ((drop_bit shr va OR (if shl < len then push_bit shl (load32 m p2) else 0)) XOR load32 m p1) AND
                        (push_bit len 1 - 1) \<noteq> 0 then 1 else 0)))"
  by auto
termination
  by (relation "measure (\<lambda>(m, va, p1, p2, len, shr, shl). nat len)") auto

function bcmp_words :: "mem \<Rightarrow> nat \<Rightarrow> nat \<Rightarrow> int \<Rightarrow> nat" where
  "bcmp_words m p1 p2 len =
     (let len = len - 4
      in if len \<ge> 0 then
           (if load32 m p1 \<noteq> load32 m p2 then 1 else bcmp_words m (p1 + 4) (p2 + 4) len)
         else
           (let len = len + 4
            in if len = 0 then 0
               else if (load32 m p1 XOR load32 m p2) AND (push_bit (nat len * 8) 1 - 1) \<noteq> 0 then 1 else 0))"
  by auto
termination
  by (relation "measure (\<lambda>(m, p1, p2, len). nat len)") auto

declare bcmp_align.simps [simp del] bcmp_shift.simps [simp del] bcmp_words.simps [simp del]

definition bcmp :: "mem \<Rightarrow> nat \<Rightarrow> nat \<Rightarrow> u32 \<Rightarrow> nat" where
  "bcmp m b1 b2 n =
     (let len = sint n
      in if len = 0 then 0
         else case bcmp_align m b1 b2 len of
             Inl r \<Rightarrow> r
           | Inr (p1, p2, len) \<Rightarrow>
               (let shr = p2 AND wmask
                in if shr \<noteq> 0 then
                     (let p2 = p2 - shr;
                          shr = shr * 8;
                          shl = wsize * 8 - shr;
                          va = load32 m p2;
                          p2 = p2 + 4
                      in bcmp_shift m va p1 p2 len shr shl)
                   else bcmp_words m p1 p2 len))"

definition same_block :: "mem \<Rightarrow> nat \<Rightarrow> nat \<Rightarrow> nat \<Rightarrow> bool" where
  "same_block m p q n \<longleftrightarrow> (\<forall>i < n. m (p + i) = m (q + i))"

lemma same_block_0 [simp]: "same_block m p q 0"
  by (simp add: same_block_def)

lemma same_block_sym: "same_block m q p n = same_block m p q n"
  by (auto simp: same_block_def)

lemma same_block_split: "same_block m p q (a + b) \<longleftrightarrow> same_block m p q a \<and> same_block m (p + a) (q + a) b"
proof -
  have "(\<forall>i < a + b. P i) \<longleftrightarrow> (\<forall>i < a. P i) \<and> (\<forall>i < b. P (a + i))" for P :: "nat \<Rightarrow> bool"
    by (metis add_diff_inverse_nat nat_add_left_cancel_less trans_less_add1)
  then show ?thesis unfolding same_block_def by (simp add: add.assoc)
qed

text \<open>Bits of a word in memory.\<close>

lemma bit_load32:
  assumes "n < 32"
  shows "bit (load32 m p) n = bit (m (p + n div 8)) (n mod 8)"
proof -
  define j k where "j = n div 8" and "k = n mod 8"
  have nb: "8 \<le> i \<Longrightarrow> \<not> bit (m q) i" for i q by (auto dest: bit_imp_le_length)
  have n: "n = 8 * j + k" "k < 8" by (simp_all add: j_def k_def)
  have "j = 0 \<or> j = 1 \<or> j = 2 \<or> j = 3" using n assms by linarith
  then consider "n = k" "j = 0" | "n = 8 + k" "j = 1" | "n = 16 + k" "j = 2" | "n = 24 + k" "j = 3" using n(1) by force
  then have "bit (load32 m p) n = bit (m (p + j)) k"
    using n(2) by cases (simp_all add: load32_def bit_simps nb)
  then show ?thesis by (simp add: j_def k_def)
qed

lemma load32_eq_iff: "load32 m p = load32 m q \<longleftrightarrow> same_block m p q 4"
proof
  assume "load32 m p = load32 m q"
  then show "same_block m p q 4" using load32_bytes [of m p] load32_bytes [of m q]
    by (auto simp: same_block_def numeral_eq_Suc less_Suc_eq)
next
  assume "same_block m p q 4"
  then have b: "m (p + i) = m (q + i)" if "i < 4" for i using that by (simp add: same_block_def)
  show "load32 m p = load32 m q" using b [of 0] b [of 1] b [of 2] b [of 3] by (simp add: load32_def)
qed

text \<open>A word at an odd address from the two aligned words around it, and the comparison of the
  first bytes of two words.\<close>

lemma shifted_bits:
  assumes "n < 32" and "k < 4"
  shows "bit (load32 m (p + k)) n = (if n + 8 * k < 32 then bit (load32 m p) (n + 8 * k) else bit (load32 m (p + 4)) (n + 8 * k - 32))"
proof -
  define d where "d = n + 8 * k - 32"
  have hi: "p + 4 + d div 8 = p + k + n div 8" "d mod 8 = n mod 8" if "32 \<le> n + 8 * k"
  proof -
    have "4 * 8 + d = k * 8 + n" using that by (simp add: d_def)
    then have "(4 * 8 + d) div 8 = (k * 8 + n) div 8" "(4 * 8 + d) mod 8 = (k * 8 + n) mod 8" by (simp_all only:)
    then have "4 + d div 8 = k + n div 8" "d mod 8 = n mod 8" by (simp_all only: div_mult_self3 mod_mult_self3)
    then show "p + 4 + d div 8 = p + k + n div 8" "d mod 8 = n mod 8" by simp_all
  qed
  have lo: "p + (n + 8 * k) div 8 = p + k + n div 8" "(n + 8 * k) mod 8 = n mod 8" by simp_all
  show ?thesis
  proof (cases "n + 8 * k < 32")
    case True
    then show ?thesis using assms(1) lo by (simp only: bit_load32 if_True)
  next
    case False
    then have "d < 32" using assms by (simp add: d_def)
    then show ?thesis using False assms(1) hi by (simp only: bit_load32 if_False d_def [symmetric])
  qed
qed

lemma shifted_load:
  assumes "k < 4" and "k \<noteq> 0"
  shows "drop_bit (8 * k) (load32 m p) OR push_bit (32 - 8 * k) (load32 m (p + 4)) = load32 m (p + k)"
proof (rule bit_word_eqI)
  fix n :: nat
  assume n: "n < LENGTH(32)"
  have over: "32 \<le> i \<Longrightarrow> \<not> bit (w :: u32) i" for i w by (auto dest: bit_imp_le_length)
  have e: "n - (32 - 8 * k) = n + 8 * k - 32" "8 * k + n = n + 8 * k" using assms by linarith+
  have le: "32 - 8 * k \<le> n \<longleftrightarrow> \<not> n + 8 * k < 32" using assms by linarith
  have n32: "n < 32" using n by simp
  note sb = shifted_bits [OF n32 assms(1), of m p]
  have "bit (drop_bit (8 * k) (load32 m p) OR push_bit (32 - 8 * k) (load32 m (p + 4))) n \<longleftrightarrow>
      bit (load32 m p) (n + 8 * k) \<or> 32 - 8 * k \<le> n \<and> bit (load32 m (p + 4)) (n + 8 * k - 32)"
    using n32 by (simp add: bit_simps e)
  then show "bit (drop_bit (8 * k) (load32 m p) OR push_bit (32 - 8 * k) (load32 m (p + 4))) n = bit (load32 m (p + k)) n"
    using sb over [of "n + 8 * k" "load32 m p"] le by (cases "n + 8 * k < 32") simp_all
qed

lemma low_bytes:
  assumes v: "\<And>n. n < 8 * r \<Longrightarrow> bit v n = bit (load32 m q) n" and r: "r < 4"
  shows "(v XOR load32 m p) AND (push_bit (r * 8) 1 - 1) \<noteq> 0 \<longleftrightarrow> \<not> same_block m p q r"
proof -
  have mask: "push_bit (r * 8) 1 - 1 = (mask (8 * r) :: u32)" by (simp add: mask_eq_exp_minus_1 push_bit_eq_mult mult.commute)
  have "(v XOR load32 m p) AND mask (8 * r) = 0 \<longleftrightarrow> (\<forall>n < 8 * r. bit v n = bit (load32 m p) n)"
  proof -
    have "n < 8 * r \<Longrightarrow> n < 32" for n using r by linarith
    then show ?thesis by (auto simp: bit_eq_iff bit_simps)
  qed
  also have "\<dots> \<longleftrightarrow> (\<forall>n < 8 * r. bit (m (q + n div 8)) (n mod 8) = bit (m (p + n div 8)) (n mod 8))"
    using v r by (simp add: bit_load32)
  also have "\<dots> \<longleftrightarrow> same_block m p q r"
  proof
    assume b: "\<forall>n < 8 * r. bit (m (q + n div 8)) (n mod 8) = bit (m (p + n div 8)) (n mod 8)"
    show "same_block m p q r" unfolding same_block_def
    proof (intro allI impI bit_word_eqI)
      fix i k assume "i < r" "k < LENGTH(8)"
      then have "8 * i + k < 8 * r" "(8 * i + k) div 8 = i" "(8 * i + k) mod 8 = k" by auto
      then show "bit (m (p + i)) k = bit (m (q + i)) k" using b by metis
    qed
  qed (auto simp: same_block_def less_mult_imp_div_less mult.commute)
  finally show ?thesis unfolding mask by blast
qed

abbreviation differ :: "mem \<Rightarrow> nat \<Rightarrow> nat \<Rightarrow> int \<Rightarrow> nat" where
  "differ m p q len \<equiv> if same_block m p q (nat len) then 0 else 1"

lemma bcmp_words_spec: "0 \<le> len \<Longrightarrow> bcmp_words m p1 p2 len = differ m p1 p2 len"
proof (induction m p1 p2 len rule: bcmp_words.induct)
  case (1 m p1 p2 len)
  show ?case
  proof (cases "len - 4 \<ge> 0")
    case True
    then have "nat len = 4 + nat (len - 4)" by simp
    then have "same_block m p1 p2 (nat len) \<longleftrightarrow> load32 m p1 = load32 m p2 \<and> same_block m (p1 + 4) (p2 + 4) (nat (len - 4))"
      by (simp only: same_block_split load32_eq_iff)
    then show ?thesis using "1.IH" [OF refl] True by (subst bcmp_words.simps) (simp add: Let_def)
  next
    case False
    then have "nat len < 4" using "1.prems" by simp
    from low_bytes [OF _ this, of "load32 m p1" m p1 p2] have
      "(load32 m p1 XOR load32 m p2) AND (push_bit (nat len * 8) 1 - 1) \<noteq> 0 \<longleftrightarrow> \<not> same_block m p2 p1 (nat len)" by simp
    then show ?thesis using False "1.prems" by (subst bcmp_words.simps) (auto simp: Let_def same_block_sym [of m p2 p1])
  qed
qed

lemma bcmp_shift_spec:
  "0 \<le> len \<Longrightarrow> va = load32 m p \<Longrightarrow> p2 = p + 4 \<Longrightarrow> shr = 8 * k \<Longrightarrow> shl = 32 - 8 * k \<Longrightarrow> k < 4 \<Longrightarrow> k \<noteq> 0 \<Longrightarrow>
   bcmp_shift m va p1 p2 len shr shl = differ m p1 (p + k) len"
proof (induction m va p1 p2 len shr shl arbitrary: p rule: bcmp_shift.induct)
  case (1 m va p1 p2 len shr shl)
  note k = \<open>k < 4\<close> \<open>k \<noteq> 0\<close>
  show ?case
  proof (cases "len - 4 \<ge> 0")
    case True
    then have "nat len = 4 + nat (len - 4)" by simp
    then have "same_block m p1 (p + k) (nat len) \<longleftrightarrow>
        load32 m p1 = load32 m (p + k) \<and> same_block m (p1 + 4) (p + k + 4) (nat (len - 4))"
      by (simp only: same_block_split load32_eq_iff)
    moreover have "p + k + 4 = p2 + k" using "1.prems" by simp
    ultimately show ?thesis
      using "1.IH" [OF refl True refl refl, of p2] "1.prems" True shifted_load [OF k, of m p]
      by (subst bcmp_shift.simps) (simp add: Let_def)
  next
    case False
    then have r: "nat len < 4" using "1.prems" by simp
    let ?v = "drop_bit shr va OR (if shl < nat len * 8 then push_bit shl (load32 m p2) else 0)"
    have "bit ?v n = bit (load32 m (p + k)) n" if n: "n < 8 * nat len" for n
    proof (cases "shl < nat len * 8")
      case True
      then show ?thesis using shifted_load [OF k, of m p] "1.prems" by simp
    next
      case False
      then have "n + 8 * k < 32" using n "1.prems" k by linarith
      then show ?thesis using False "1.prems" shifted_bits [OF _ k(1), of n m p] by (simp add: bit_simps add.commute)
    qed
    from low_bytes [OF this r, of p1] show ?thesis
      using False "1.prems" by (subst bcmp_shift.simps) (auto simp: Let_def)
  qed
qed

lemma bcmp_align_spec:
  "0 < len \<Longrightarrow> (case bcmp_align m p1 p2 len of
      Inl r \<Rightarrow> r = differ m p1 p2 len
    | Inr (q1, q2, l) \<Rightarrow> 0 < l \<and> differ m p1 p2 len = differ m q1 q2 l)"
proof (induction m p1 p2 len rule: bcmp_align.induct)
  case (1 m p1 p2 len)
  have n: "nat len = 1 + nat (len - 1)" using "1.prems" by simp
  have sb: "same_block m p1 p2 (nat len) \<longleftrightarrow> m p1 = m p2 \<and> same_block m (p1 + 1) (p2 + 1) (nat (len - 1))"
    unfolding n same_block_split by (simp add: same_block_def)
  show ?case
  proof (cases "p1 AND wmask \<noteq> 0 \<and> m p1 = m p2 \<and> 0 < len - 1")
    case True
    then have eq: "bcmp_align m p1 p2 len = bcmp_align m (p1 + 1) (p2 + 1) (len - 1)" by (subst bcmp_align.simps) (simp add: Let_def)
    have d: "differ m p1 p2 len = differ m (p1 + 1) (p2 + 1) (len - 1)" using sb True by simp
    show ?thesis unfolding eq d using "1.IH" [OF _ _ refl] True by simp
  next
    case False
    then show ?thesis using "1.prems" sb by (subst bcmp_align.simps) (auto simp: Let_def)
  qed
qed

lemma bcmp_spec:
  assumes "n < 2 ^ 31"
  shows "bcmp m b1 b2 n = (if same_block m b1 b2 (unat n) then 0 else 1)"
proof (cases "n = 0")
  case True
  then show ?thesis by (simp add: bcmp_def same_block_def)
next
  case False
  have s: "sint n = int (unat n)"
  proof -
    have "uint n < uint (2 ^ 31 :: u32)" using assms by (simp only: word_less_def)
    then have "uint n < 2 ^ 31" by simp
    moreover have "sint n = signed_take_bit 31 (uint n)" by (simp add: sint_uint)
    moreover have "- (2 ^ 31) \<le> uint n" by (rule order.trans [of _ 0]) simp_all
    ultimately have "sint n = uint n" by (simp only: signed_take_bit_int_eq_self_iff)
    then show ?thesis by simp
  qed
  have "unat n \<noteq> 0" using False by (simp add: unat_eq_zero)
  then have pos: "0 < sint n" and nat: "nat (sint n) = unat n" unfolding s nat_int by (simp_all only: of_nat_0_less_iff neq0_conv)
  have sp: "case bcmp_align m b1 b2 (sint n) of Inl r \<Rightarrow> r = differ m b1 b2 (sint n)
      | Inr (q1, q2, l) \<Rightarrow> 0 < l \<and> differ m b1 b2 (sint n) = differ m q1 q2 l" by (rule bcmp_align_spec [OF pos])
  show ?thesis
  proof (cases "bcmp_align m b1 b2 (sint n)")
    case (Inl r)
    then show ?thesis using sp pos by (simp add: bcmp_def nat)
  next
    case (Inr x)
    obtain q1 q2 l where x: "x = (q1, q2, l)" by (cases x)
    have k: "q2 AND wmask < 4" "q2 AND wmask \<le> q2" by (simp_all add: and_wmask)
    have "bcmp_shift m (load32 m (q2 - (q2 AND wmask))) q1 (q2 - (q2 AND wmask) + 4) l ((q2 AND wmask) * 8) (wsize * 8 - (q2 AND wmask) * 8) =
        differ m q1 q2 l" if "q2 AND wmask \<noteq> 0" "0 \<le> l"
      using bcmp_shift_spec [OF that(2) refl refl, of "(q2 AND wmask) * 8" "q2 AND wmask" "wsize * 8 - (q2 AND wmask) * 8" m "q2 - (q2 AND wmask)" q1]
        that k by (simp add: wsize_def mult.commute)
    then show ?thesis using sp pos Inr x bcmp_words_spec [of l m q1 q2] by (simp add: bcmp_def Let_def nat)
  qed
qed

text \<open>\<^verbatim>\<open>memcmp\<close> and \<^verbatim>\<open>memchr\<close>; a pointer that may be \<^verbatim>\<open>NULL\<close> is an option.\<close>

primrec memcmp :: "mem \<Rightarrow> nat \<Rightarrow> nat \<Rightarrow> nat \<Rightarrow> int" where
  "memcmp m p1 p2 0 = 0"
| "memcmp m p1 p2 (Suc n) = (if m p1 \<noteq> m p2 then uint (m p1) - uint (m p2) else memcmp m (p1 + 1) (p2 + 1) n)"

primrec memchr :: "mem \<Rightarrow> nat \<Rightarrow> u32 \<Rightarrow> nat \<Rightarrow> nat option" where
  "memchr m p c 0 = None"
| "memchr m p c (Suc n) = (if m p = ucast c then Some p else memchr m (p + 1) c n)"

lemma memcmp_spec:
  "(same_block m p q n \<and> memcmp m p q n = 0) \<or>
   (\<exists>i < n. same_block m p q i \<and> m (p + i) \<noteq> m (q + i) \<and> memcmp m p q n = uint (m (p + i)) - uint (m (q + i)))"
proof (induction n arbitrary: p q)
  case (Suc n)
  have sb: "same_block m p q (Suc i) \<longleftrightarrow> m p = m q \<and> same_block m (p + 1) (q + 1) i" for i
    using same_block_split [of m p q 1 i] by (simp add: same_block_def)
  show ?case
  proof (cases "m p = m q")
    case False
    then show ?thesis by (intro disjI2 exI [of _ 0]) simp
  next
    case True
    from Suc.IH [of "p + 1" "q + 1"] show ?thesis
    proof (elim disjE exE conjE)
      fix i assume "i < n" "same_block m (p + 1) (q + 1) i" "m (p + 1 + i) \<noteq> m (q + 1 + i)"
        "memcmp m (p + 1) (q + 1) n = uint (m (p + 1 + i)) - uint (m (q + 1 + i))"
      then show ?thesis using True sb by (intro disjI2 exI [of _ "Suc i"]) simp
    qed (use True sb in simp)
  qed
qed simp

lemma memchr_spec:
  "(memchr m p c n = None \<and> (\<forall>i < n. m (p + i) \<noteq> ucast c)) \<or>
   (\<exists>i < n. memchr m p c n = Some (p + i) \<and> m (p + i) = ucast c \<and> (\<forall>j < i. m (p + j) \<noteq> ucast c))"
proof (induction n arbitrary: p)
  case (Suc n)
  have split: "(\<forall>j < Suc k. m (p + j) \<noteq> ucast c) \<longleftrightarrow> m p \<noteq> ucast c \<and> (\<forall>j < k. m (p + 1 + j) \<noteq> ucast c)" for k
    by (auto simp: less_Suc_eq_0_disj)
  show ?case
  proof (cases "m p = ucast c")
    case True
    then show ?thesis by (intro disjI2 exI [of _ 0]) simp
  next
    case False
    from Suc.IH [of "p + 1"] show ?thesis
    proof (elim disjE exE conjE)
      fix i assume "i < n" "memchr m (p + 1) c n = Some (p + 1 + i)" "m (p + 1 + i) = ucast c" "\<forall>j < i. m (p + 1 + j) \<noteq> ucast c"
      then show ?thesis using False split [of i] by (intro disjI2 exI [of _ "Suc i"]) simp
    qed (use False split [of n] in simp)
  qed
qed simp

section \<open>Properties\<close>

text \<open>C19. \<^verbatim>\<open>memmove\<close>, \<^verbatim>\<open>memcpy\<close> and \<^verbatim>\<open>bcopy\<close> copy the block, wherever source and destination lie and however
  they overlap: every byte of the destination is the byte of the source before the call, no
  other byte changes, and \<^verbatim>\<open>memmove\<close> and \<^verbatim>\<open>memcpy\<close> return the destination. The copying of whole words
  is equivalent to copying byte by byte.\<close>

theorem memmove_copies:
  "memmove dst src len m = (dst, copied dst src len m) \<and> memcpy dst src len m = (dst, copied dst src len m) \<and>
   bcopy src dst len m = copied dst src len m"
  by (simp add: memmove_def memcpy_def bcopy_def memcpy_internal_copied)

text \<open>C20. \<^verbatim>\<open>memset\<close> stores the low byte of its argument in each of the given bytes and in no other,
  and returns the destination; \<^verbatim>\<open>bzero\<close> stores zeros.\<close>

theorem memset_fills:
  "memset dst c len m = (dst, filled dst len (ucast c) m) \<and> bzero dst len m = filled dst len 0 m"
  by (simp add: memset_filled bzero_def)

text \<open>C21. \<^verbatim>\<open>bcmp\<close> of less than \<open>2 ^ 31\<close> bytes returns 0 when the blocks are the same and 1 otherwise,
  whatever the alignment of the two blocks, and agrees with \<^verbatim>\<open>memcmp\<close> on whether they are the same.\<close>

theorem bcmp_compares:
  assumes "n < 2 ^ 31"
  shows "bcmp m b1 b2 n = (if \<forall>i < unat n. m (b1 + i) = m (b2 + i) then 0 else 1) \<and>
    (bcmp m b1 b2 n = 0 \<longleftrightarrow> memcmp m b1 b2 (unat n) = 0)"
  using bcmp_spec [OF assms, of m b1 b2] memcmp_spec [of m b1 b2 "unat n"] by (auto simp: same_block_def word_uint_eq_iff)

definition text_mem :: mem where
  "text_mem a = (if a < 10 then of_nat a else if a < 21 then of_nat (a - 11) else 0)"

theorem bcmp_compares_witness: "bcmp text_mem 1 12 9 = 0 \<and> bcmp text_mem 1 11 9 = 1"
proof -
  have "\<forall>i < 9. text_mem (1 + i) = text_mem (12 + i)" by (simp add: text_mem_def)
  moreover have "\<not> (\<forall>i < 9. text_mem (1 + i) = text_mem (11 + i))" by (auto simp: text_mem_def intro!: exI [of _ 0])
  ultimately show ?thesis using bcmp_compares [of 9 text_mem 1 12] bcmp_compares [of 9 text_mem 1 11] by simp
qed

end
