(* ===== verification/Libc_Strlen.thy ===== *)
theory Libc_Strlen
  imports Libc_Memory
begin

text \<open>
  Strings in memory, and \<^verbatim>\<open>strlen\<close> of \<^verbatim>\<open>lib/libc/string/strlen.c\<close> for 32-bit \<^verbatim>\<open>long\<close>, which looks for the
  terminator a word at a time with a subtraction that shows whether a word has a zero byte.
\<close>

section \<open>Strings\<close>

primrec cstr :: "mem \<Rightarrow> nat \<Rightarrow> u8 list \<Rightarrow> bool" where
  "cstr m p [] \<longleftrightarrow> m p = 0"
| "cstr m p (x # xs) \<longleftrightarrow> m p = x \<and> x \<noteq> 0 \<and> cstr m (p + 1) xs"

lemma cstr_append: "cstr m p (xs @ ys) \<longleftrightarrow> (\<forall>i < length xs. m (p + i) = xs ! i \<and> xs ! i \<noteq> 0) \<and> cstr m (p + length xs) ys"
proof (induction xs arbitrary: p)
  case (Cons x xs)
  then show ?case by (auto simp: less_Suc_eq_0_disj all_conj_distrib)
qed simp

lemma cstr_nth: "cstr m p xs \<Longrightarrow> i < length xs \<Longrightarrow> m (p + i) = xs ! i \<and> xs ! i \<noteq> 0"
  using cstr_append [of m p xs "[]"] by simp

lemma cstr_end: "cstr m p xs \<Longrightarrow> m (p + length xs) = 0"
  using cstr_append [of m p xs "[]"] by simp

lemma cstr_nonzero: "cstr m p xs \<Longrightarrow> i \<le> length xs \<Longrightarrow> m (p + i) = 0 \<longleftrightarrow> i = length xs"
  using cstr_nth [of m p xs i] cstr_end [of m p xs] by (cases "i = length xs") auto

lemma cstr_unique: "cstr m p xs \<Longrightarrow> cstr m p ys \<Longrightarrow> xs = ys"
  by (induction xs arbitrary: p ys) (case_tac [!] ys, auto)

section \<open>The code\<close>

definition mask01 :: u32 where "mask01 = 0x01010101"
definition mask80 :: u32 where "mask80 = 0x80808080"

definition has_zero :: "u32 \<Rightarrow> bool" where
  "has_zero w = (let va = w - mask01; vb = NOT w AND mask80 in va AND vb \<noteq> 0)"

text \<open>The scan of the first word, up to the pointer \<open>stop\<close>.\<close>

function strlen_first :: "mem \<Rightarrow> nat \<Rightarrow> nat \<Rightarrow> nat option" where
  "strlen_first m p stop = (if p < stop then (if m p = 0 then Some p else strlen_first m (p + 1) stop) else None)"
  by auto
termination
  by (relation "measure (\<lambda>(m, p, stop). stop - p)") auto

declare strlen_first.simps [simp del]

partial_function (option) strlen_words :: "mem \<Rightarrow> nat \<Rightarrow> nat \<Rightarrow> nat option" where
  "strlen_words m str lp =
     (if has_zero (load32 m lp) then
        (if m lp = 0 then Some (lp - str)
         else if m (lp + 1) = 0 then Some (lp - str + 1)
         else if m (lp + 2) = 0 then Some (lp - str + 2)
         else if m (lp + 3) = 0 then Some (lp - str + 3)
         else strlen_words m str (lp + wsize))
      else strlen_words m str (lp + wsize))"

definition strlen :: "mem \<Rightarrow> nat \<Rightarrow> nat option" where
  "strlen m str =
     (let lp = str - (str AND wmask);
          zero = has_zero (load32 m lp);
          lp = lp + wsize
      in case (if zero then strlen_first m str lp else None) of
           Some p \<Rightarrow> Some (p - str)
         | None \<Rightarrow> strlen_words m str lp)"

section \<open>Zero bytes of a word\<close>

lemma uint_u8 [simp]: "uint (b :: u8) < 256" "uint (ucast b :: u32) = uint b"
  using unsigned_less [of b, where ?'a = int] by (simp_all add: unsigned_ucast_eq take_bit_int_eq_self)

lemma uint_load32:
  "uint (load32 m p) = uint (m p) + 256 * uint (m (p + 1)) + 65536 * uint (m (p + 2)) + 16777216 * uint (m (p + 3))"
proof -
  let ?b = "\<lambda>i. ucast (m (p + i)) :: u32"
  have nb: "8 \<le> i \<Longrightarrow> \<not> bit (m q) i" for i q by (auto dest: bit_imp_le_length)
  have "?b 0 + push_bit 8 (?b 1) = ?b 0 OR push_bit 8 (?b 1)"
    by (rule disjunctive_add) (auto simp: bit_simps nb)
  moreover have "(?b 0 OR push_bit 8 (?b 1)) + push_bit 16 (?b 2) = ?b 0 OR push_bit 8 (?b 1) OR push_bit 16 (?b 2)"
    by (subst disjunctive_add) (auto simp: bit_simps nb or.assoc)
  moreover have "(?b 0 OR push_bit 8 (?b 1) OR push_bit 16 (?b 2)) + push_bit 24 (?b 3) = load32 m p"
    unfolding load32_def by (subst disjunctive_add) (auto simp: bit_simps nb or.assoc)
  ultimately have "load32 m p = ?b 0 + push_bit 8 (?b 1) + push_bit 16 (?b 2) + push_bit 24 (?b 3)" by (simp only:)
  then have "uint (load32 m p) =
      (uint (m (p + 0)) + 256 * uint (m (p + 1)) + 65536 * uint (m (p + 2)) + 16777216 * uint (m (p + 3))) mod 4294967296"
    by (simp add: uint_word_ariths push_bit_eq_mult mult.commute mod_simps)
  also have "\<dots> = uint (m (p + 0)) + 256 * uint (m (p + 1)) + 65536 * uint (m (p + 2)) + 16777216 * uint (m (p + 3))"
  proof (rule mod_pos_pos_trivial)
    have "0 \<le> uint (m q)" for q by simp
    then show "0 \<le> uint (m (p + 0)) + 256 * uint (m (p + 1)) + 65536 * uint (m (p + 2)) + 16777216 * uint (m (p + 3))"
      by (simp add: add_nonneg_nonneg)
    show "uint (m (p + 0)) + 256 * uint (m (p + 1)) + 65536 * uint (m (p + 2)) + 16777216 * uint (m (p + 3)) < 4294967296"
      using uint_u8(1) [of "m (p + 0)"] uint_u8(1) [of "m (p + 1)"] uint_u8(1) [of "m (p + 2)"] uint_u8(1) [of "m (p + 3)"]
      by linarith
  qed
  finally show ?thesis by simp
qed

lemma bit_7_u8: "bit (b :: u8) 7 \<longleftrightarrow> 128 \<le> uint b"
proof -
  have "bit b 7 \<longleftrightarrow> bit (uint b) 7" by (simp add: bit_simps)
  also have "\<dots> \<longleftrightarrow> odd (uint b div 2 ^ 7)" by (rule bit_iff_odd)
  finally have "bit b 7 \<longleftrightarrow> odd (uint b div 128)" by simp
  moreover have "0 \<le> uint b" "uint b < 256" by simp_all
  ultimately show ?thesis by presburger
qed

lemma bit_mask80: "bit mask80 n \<longleftrightarrow> n \<in> {7, 15, 23, 31}"
proof -
  have m: "mask80 = push_bit 7 1 OR push_bit 15 1 OR push_bit 23 1 OR push_bit 31 1" by (simp add: mask80_def)
  show ?thesis unfolding m bit_or_iff bit_push_bit_iff bit_1_iff by auto
qed

text \<open>The subtraction byte by byte, with borrows.\<close>

lemma byte_borrow:
  fixes b c :: int
  assumes "0 \<le> b" "b < 256" "c = 0 \<or> c = 1"
  obtains y :: u8 and c' where "uint y = b - 1 - c + 256 * c'" "c' = 0 \<or> c' = 1" "c' = 1 \<longleftrightarrow> b < 1 + c"
proof -
  define c' :: int where "c' = (if b < 1 + c then 1 else 0)"
  have "0 \<le> b - 1 - c + 256 * c'" "b - 1 - c + 256 * c' < 256" using assms by (auto simp: c'_def)
  then have "uint (word_of_int (b - 1 - c + 256 * c') :: u8) = b - 1 - c + 256 * c'"
    unfolding uint_word_of_int by (intro mod_pos_pos_trivial) simp_all
  then show ?thesis using that [of "word_of_int (b - 1 - c + 256 * c')" c'] by (auto simp del: wi_hom_syms simp: c'_def)
qed

lemma minus_mask01:
  fixes m :: mem and p :: nat
  obtains y c0 c1 c2 c3 where "load32 m p - mask01 = load32 y 0"
    "uint (y 0) = uint (m p) - 1 + 256 * c0" "uint (y 1) = uint (m (p + 1)) - 1 - c0 + 256 * c1"
    "uint (y 2) = uint (m (p + 2)) - 1 - c1 + 256 * c2" "uint (y 3) = uint (m (p + 3)) - 1 - c2 + 256 * c3"
    "c0 = 0 \<or> c0 = 1" "c1 = 0 \<or> c1 = 1" "c2 = 0 \<or> c2 = 1" "c3 = 0 \<or> c3 = 1"
    "c0 = 1 \<longleftrightarrow> uint (m p) < 1" "c1 = 1 \<longleftrightarrow> uint (m (p + 1)) < 1 + c0"
    "c2 = 1 \<longleftrightarrow> uint (m (p + 2)) < 1 + c1" "c3 = 1 \<longleftrightarrow> uint (m (p + 3)) < 1 + c2"
proof -
  let ?b = "\<lambda>i. uint (m (p + i))"
  have b: "0 \<le> ?b i" "?b i < 256" for i by simp_all
  obtain y0 :: u8 and c0 where y0: "uint y0 = ?b 0 - 1 - 0 + 256 * c0" "c0 = 0 \<or> c0 = 1" "c0 = 1 \<longleftrightarrow> ?b 0 < 1 + 0"
    using byte_borrow [OF b, of 0 0] by blast
  obtain y1 :: u8 and c1 where y1: "uint y1 = ?b 1 - 1 - c0 + 256 * c1" "c1 = 0 \<or> c1 = 1" "c1 = 1 \<longleftrightarrow> ?b 1 < 1 + c0"
    using byte_borrow [OF b y0(2), of 1] by blast
  obtain y2 :: u8 and c2 where y2: "uint y2 = ?b 2 - 1 - c1 + 256 * c2" "c2 = 0 \<or> c2 = 1" "c2 = 1 \<longleftrightarrow> ?b 2 < 1 + c1"
    using byte_borrow [OF b y1(2), of 2] by blast
  obtain y3 :: u8 and c3 where y3: "uint y3 = ?b 3 - 1 - c2 + 256 * c3" "c3 = 0 \<or> c3 = 1" "c3 = 1 \<longleftrightarrow> ?b 3 < 1 + c2"
    using byte_borrow [OF b y2(2), of 3] by blast
  define y :: mem where "y i = [y0, y1, y2, y3] ! i" for i
  have y: "y 0 = y0" "y 1 = y1" "y 2 = y2" "y 3 = y3" by (simp_all add: y_def numeral_eq_Suc)
  have "uint (load32 m p - mask01) = (uint (load32 m p) - 16843009) mod 4294967296"
    by (simp add: uint_word_ariths mask01_def)
  also have "uint (load32 m p) - 16843009 = uint (load32 y 0) + (- c3) * 4294967296"
    unfolding uint_load32 add_0 y using y0(1) y1(1) y2(1) y3(1) unfolding add_0_right by linarith
  also have "(uint (load32 y 0) + (- c3) * 4294967296) mod 4294967296 = uint (load32 y 0)"
    unfolding mod_mult_self1 using unsigned_less [of "load32 y 0", where ?'a = int] by (simp add: mod_pos_pos_trivial)
  finally have "load32 m p - mask01 = load32 y 0" by (simp add: word_uint_eq_iff)
  then show ?thesis using that [of y c0 c1 c2 c3] y0 y1 y2 y3 unfolding y add_0_right diff_zero by blast
qed

lemma bit_load32_sign:
  "bit (load32 m p) 7 \<longleftrightarrow> 128 \<le> uint (m p)" "bit (load32 m p) 15 \<longleftrightarrow> 128 \<le> uint (m (p + 1))"
  "bit (load32 m p) 23 \<longleftrightarrow> 128 \<le> uint (m (p + 2))" "bit (load32 m p) 31 \<longleftrightarrow> 128 \<le> uint (m (p + 3))"
proof -
  have nb: "8 \<le> i \<Longrightarrow> \<not> bit (m q) i" for i q by (auto dest: bit_imp_le_length)
  show "bit (load32 m p) 7 \<longleftrightarrow> 128 \<le> uint (m p)" "bit (load32 m p) 15 \<longleftrightarrow> 128 \<le> uint (m (p + 1))"
    "bit (load32 m p) 23 \<longleftrightarrow> 128 \<le> uint (m (p + 2))" "bit (load32 m p) 31 \<longleftrightarrow> 128 \<le> uint (m (p + 3))"
    unfolding load32_def bit_7_u8 [symmetric] by (auto simp: bit_simps nb)
qed

lemma has_zero_iff: "has_zero (load32 m p) \<longleftrightarrow> m p = 0 \<or> m (p + 1) = 0 \<or> m (p + 2) = 0 \<or> m (p + 3) = 0"
proof -
  let ?b = "\<lambda>i. uint (m (p + i))"
  obtain y c0 c1 c2 c3 where y: "load32 m p - mask01 = load32 y 0"
    "uint (y 0) = uint (m p) - 1 + 256 * c0" "uint (y 1) = uint (m (p + 1)) - 1 - c0 + 256 * c1"
    "uint (y 2) = uint (m (p + 2)) - 1 - c1 + 256 * c2" "uint (y 3) = uint (m (p + 3)) - 1 - c2 + 256 * c3"
    "c0 = 0 \<or> c0 = 1" "c1 = 0 \<or> c1 = 1" "c2 = 0 \<or> c2 = 1" "c3 = 0 \<or> c3 = 1"
    "c0 = 1 \<longleftrightarrow> uint (m p) < 1" "c1 = 1 \<longleftrightarrow> uint (m (p + 1)) < 1 + c0"
    "c2 = 1 \<longleftrightarrow> uint (m (p + 2)) < 1 + c1" "c3 = 1 \<longleftrightarrow> uint (m (p + 3)) < 1 + c2"
    by (rule minus_mask01)
  have b: "0 \<le> uint (m p)" "uint (m p) < 256" "0 \<le> uint (m (p + 1))" "uint (m (p + 1)) < 256"
    "0 \<le> uint (m (p + 2))" "uint (m (p + 2)) < 256" "0 \<le> uint (m (p + 3))" "uint (m (p + 3)) < 256" by simp_all
  have "has_zero (load32 m p) \<longleftrightarrow> (\<exists>n \<in> {7, 15, 23, 31}. bit (load32 y 0) n \<and> \<not> bit (load32 m p) n)"
    unfolding has_zero_def Let_def bit_eq_iff y(1) [symmetric]
    by (auto simp: bit_and_iff bit_not_iff bit_mask80 intro: exI [of _ 7] exI [of _ 15] exI [of _ 23] exI [of _ 31])
  also have "\<dots> \<longleftrightarrow> (128 \<le> uint (y 0) \<and> uint (m p) < 128) \<or> (128 \<le> uint (y 1) \<and> uint (m (p + 1)) < 128)
      \<or> (128 \<le> uint (y 2) \<and> uint (m (p + 2)) < 128) \<or> (128 \<le> uint (y 3) \<and> uint (m (p + 3)) < 128)"
    using bit_load32_sign [of y 0] bit_load32_sign [of m p] unfolding add_0 not_le [symmetric] by blast
  also have "\<dots> \<longleftrightarrow> uint (m p) = 0 \<or> uint (m (p + 1)) = 0 \<or> uint (m (p + 2)) = 0 \<or> uint (m (p + 3)) = 0"
    using b y(2-) by smt
  finally show ?thesis by (simp add: uint_0_iff)
qed

section \<open>The length\<close>

lemma strlen_first_none: "\<forall>i < n. m (p + i) \<noteq> 0 \<Longrightarrow> strlen_first m p (p + n) = None"
proof (induction n arbitrary: p)
  case (Suc n)
  have "m p \<noteq> 0" using Suc.prems by force
  moreover have "strlen_first m (p + 1) (p + 1 + n) = None" by (rule Suc.IH) (use Suc.prems in force)
  ultimately show ?case by (subst strlen_first.simps) simp
qed (subst strlen_first.simps, simp)

lemma strlen_first_some: "cstr m p xs \<Longrightarrow> length xs < n \<Longrightarrow> strlen_first m p (p + n) = Some (p + length xs)"
proof (induction xs arbitrary: p n)
  case Nil
  then show ?case by (subst strlen_first.simps) simp
next
  case (Cons x xs)
  then have "strlen_first m (p + 1) (p + 1 + (n - 1)) = Some (p + 1 + length xs)" by (intro Cons.IH) auto
  then show ?case using Cons.prems by (subst strlen_first.simps) auto
qed

lemma cstr_drop: "cstr m p xs \<Longrightarrow> n \<le> length xs \<Longrightarrow> cstr m (p + n) (drop n xs)"
  using cstr_append [of m p "take n xs" "drop n xs"] by simp

lemma strlen_words_eq:
  assumes "cstr m lp xs" "str \<le> lp"
  shows "strlen_words m str lp = Some (lp - str + length xs)"
  using assms
proof (induction "length xs" arbitrary: xs lp rule: less_induct)
  case less
  note z = cstr_nonzero [OF less.prems(1)]
  show ?case
  proof (cases "length xs < 4")
    case True
    then consider "length xs = 0" | "length xs = 1" | "length xs = 2" | "length xs = 3" by linarith
    then show ?thesis
      using z [of 0] z [of 1] z [of 2] z [of 3]
      by cases (subst strlen_words.simps, simp add: has_zero_iff)+
  next
    case False
    have "cstr m (lp + 4) (drop 4 xs)" using False by (intro cstr_drop less.prems(1)) simp
    then have "strlen_words m str (lp + 4) = Some (lp + 4 - str + length (drop 4 xs))"
      using less.prems(2) False by (intro less.hyps) auto
    moreover have "m lp \<noteq> 0" "m (lp + 1) \<noteq> 0" "m (lp + 2) \<noteq> 0" "m (lp + 3) \<noteq> 0"
      using z [of 0] z [of 1] z [of 2] z [of 3] False by auto
    ultimately show ?thesis using False less.prems(2) by (subst strlen_words.simps) (simp add: has_zero_iff wsize_def)
  qed
qed

lemma has_zero_within: "m q = 0 \<Longrightarrow> lp \<le> q \<Longrightarrow> q < lp + 4 \<Longrightarrow> has_zero (load32 m lp)"
proof -
  assume q: "m q = 0" "lp \<le> q" "q < lp + 4"
  then have "q = lp \<or> q = lp + 1 \<or> q = lp + 2 \<or> q = lp + 3" by linarith
  then show ?thesis using q(1) has_zero_iff [of m lp] by auto
qed

lemma strlen_eq: "cstr m str xs \<Longrightarrow> strlen m str = Some (length xs)"
proof -
  assume s: "cstr m str xs"
  define k where "k = 4 - str mod 4"
  have k: "str - (str AND wmask) + wsize = str + k" "0 < k" "k \<le> 4" "str - (str AND wmask) = str + k - 4"
    using mod_less_eq_dividend [of str 4] mod_less_divisor [of 4 str] unfolding and_wmask k_def wsize_def by linarith+
  show ?thesis
  proof (cases "length xs < k")
    case True
    then have "has_zero (load32 m (str + k - 4))"
      using cstr_end [OF s] k by (intro has_zero_within [of m "str + length xs"]) auto
    then show ?thesis using strlen_first_some [OF s True] k by (simp add: strlen_def Let_def)
  next
    case False
    then have "\<forall>i < k. m (str + i) \<noteq> 0" using cstr_nth [OF s] by auto
    moreover have "cstr m (str + k) (drop k xs)" using False by (intro cstr_drop [OF s]) simp
    ultimately show ?thesis
      using strlen_first_none [of k m str] strlen_words_eq [of m "str + k" "drop k xs" str] k False
      by (simp add: strlen_def Let_def)
  qed
qed

text \<open>C22. \<^verbatim>\<open>strlen\<close> returns on every terminated string, wherever it lies relative to a word boundary, and the
  result is the number of bytes before the terminator, although it reads a word at a time and
  decides from one subtraction whether a word has a zero byte.
\<close>

theorem strlen_counts: "cstr m str xs \<Longrightarrow> strlen m str = Some (length xs)"
  by (rule strlen_eq)

definition hello :: mem where
  "hello p = (if p < 5 then [0, 104, 101, 108, 108] ! p else if p = 5 then 111 else 0)"

theorem strlen_counts_witness: "strlen hello 1 = Some 5"
  using strlen_counts [of hello 1 "[104, 101, 108, 108, 111]"] by (simp add: hello_def)

end
