(* ===== verification/Libc_String.thy ===== *)
theory Libc_String
  imports Libc_Strlen
begin

text \<open>
  The functions of \<^verbatim>\<open>lib/libc/string\<close> that copy and compare strings. A \<^verbatim>\<open>char\<close> is
  an unsigned byte, as on the ARM and RISC-V targets. A loop that only a terminator ends is a
  partial function, so that running past the string is a result of its own.
\<close>

section \<open>Copying\<close>

primrec strnlen_loop :: "mem \<Rightarrow> nat \<Rightarrow> nat \<Rightarrow> nat \<Rightarrow> nat" where
  "strnlen_loop m 0 s len = len"
| "strnlen_loop m (Suc n) s len = (if m s = 0 then len else strnlen_loop m n (s + 1) (len + 1))"

definition strnlen :: "mem \<Rightarrow> nat \<Rightarrow> nat \<Rightarrow> nat" where
  "strnlen m s maxlen = strnlen_loop m maxlen s 0"

partial_function (option) strcpy_loop :: "nat \<Rightarrow> nat \<Rightarrow> mem \<Rightarrow> mem option" where
  "strcpy_loop to from m =
     (let m' = m(to := m from)
      in if m' to \<noteq> 0 then strcpy_loop (to + 1) (from + 1) m' else Some m')"

definition strcpy :: "nat \<Rightarrow> nat \<Rightarrow> mem \<Rightarrow> (nat \<times> mem) option" where
  "strcpy to from m = do { m' \<leftarrow> strcpy_loop to from m; Some (to, m') }"

partial_function (option) str_end :: "mem \<Rightarrow> nat \<Rightarrow> nat option" where
  "str_end m s = (if m s \<noteq> 0 then str_end m (s + 1) else Some s)"

definition strcat :: "nat \<Rightarrow> nat \<Rightarrow> mem \<Rightarrow> (nat \<times> mem) option" where
  "strcat s src m = do {
     e \<leftarrow> str_end m s;
     m' \<leftarrow> strcpy_loop e src m;
     Some (s, m')
   }"

text \<open>The loop of \<^verbatim>\<open>strlcpy\<close>: \<open>k\<close> rounds are left, and the result has \<^verbatim>\<open>nleft\<close>, \<^verbatim>\<open>dst\<close> and \<^verbatim>\<open>src\<close>.\<close>

primrec strlcpy_loop :: "nat \<Rightarrow> nat \<Rightarrow> nat \<Rightarrow> mem \<Rightarrow> nat \<times> nat \<times> nat \<times> mem" where
  "strlcpy_loop 0 dst src m = (0, dst, src, m)"
| "strlcpy_loop (Suc k) dst src m =
     (let m' = m(dst := m src)
      in if m' dst = 0 then (Suc k, dst + 1, src + 1, m') else strlcpy_loop k (dst + 1) (src + 1) m')"

partial_function (option) str_skip :: "mem \<Rightarrow> nat \<Rightarrow> nat option" where
  "str_skip m s = (if m s \<noteq> 0 then str_skip m (s + 1) else Some (s + 1))"

definition strlcpy :: "nat \<Rightarrow> nat \<Rightarrow> nat \<Rightarrow> mem \<Rightarrow> (nat \<times> mem) option" where
  "strlcpy dst src dsize m =
     (let osrc = src;
          (nleft, dst, src, m) = (if dsize \<noteq> 0 then strlcpy_loop (dsize - 1) dst src m else (dsize, dst, src, m))
      in if nleft = 0 then
           (let m = (if dsize \<noteq> 0 then m(dst := 0) else m)
            in do { src \<leftarrow> str_skip m src; Some (src - osrc - 1, m) })
         else Some (src - osrc - 1, m))"

primrec strncat_loop :: "nat \<Rightarrow> nat \<Rightarrow> nat \<Rightarrow> mem \<Rightarrow> nat \<times> mem" where
  "strncat_loop 0 d s m = (d, m)"
| "strncat_loop (Suc n) d s m =
     (let m' = m(d := m s) in if m' d = 0 then (d, m') else strncat_loop n (d + 1) (s + 1) m')"

definition strncat :: "nat \<Rightarrow> nat \<Rightarrow> nat \<Rightarrow> mem \<Rightarrow> (nat \<times> mem) option" where
  "strncat dst src n m =
     (if n \<noteq> 0 then do {
        d \<leftarrow> str_end m dst;
        let (d, m) = strncat_loop n d src m;
        Some (dst, m(d := 0))
      } else Some (dst, m))"

primrec strncpy_loop :: "nat \<Rightarrow> nat \<Rightarrow> nat \<Rightarrow> mem \<Rightarrow> mem" where
  "strncpy_loop 0 d s m = m"
| "strncpy_loop (Suc n) d s m =
     (let m' = m(d := m s) in if m' d = 0 then snd (set_bytes n (d + 1) 0 m') else strncpy_loop n (d + 1) (s + 1) m')"

definition strncpy :: "nat \<Rightarrow> nat \<Rightarrow> nat \<Rightarrow> mem \<Rightarrow> nat \<times> mem" where
  "strncpy dst src n m = (dst, if n \<noteq> 0 then strncpy_loop n dst src m else m)"

primrec strlcat_end :: "mem \<Rightarrow> nat \<Rightarrow> nat \<Rightarrow> nat" where
  "strlcat_end m 0 d = d"
| "strlcat_end m (Suc n) d = (if m d \<noteq> 0 then strlcat_end m n (d + 1) else d)"

partial_function (option) strlcat_loop :: "nat \<Rightarrow> nat \<Rightarrow> nat \<Rightarrow> mem \<Rightarrow> (nat \<times> nat \<times> mem) option" where
  "strlcat_loop n d s m =
     (if m s \<noteq> 0 then
        (if n \<noteq> 1 then strlcat_loop (n - 1) (d + 1) (s + 1) (m(d := m s)) else strlcat_loop n d (s + 1) m)
      else Some (d, s, m))"

definition strlcat :: "nat \<Rightarrow> nat \<Rightarrow> nat \<Rightarrow> mem \<Rightarrow> (nat \<times> mem) option" where
  "strlcat dst src siz m =
     (let d = strlcat_end m siz dst;
          dlen = d - dst;
          n = siz - dlen
      in if n = 0 then do { l \<leftarrow> strlen m src; Some (dlen + l, m) }
         else do {
           (d, s, m) \<leftarrow> strlcat_loop n d src m;
           Some (dlen + (s - src), m(d := 0))
         })"

section \<open>Comparing\<close>

partial_function (option) strcmp :: "mem \<Rightarrow> nat \<Rightarrow> nat \<Rightarrow> int option" where
  "strcmp m s1 s2 =
     (if m s1 = m s2 then (if m s1 = 0 then Some 0 else strcmp m (s1 + 1) (s2 + 1))
      else Some (uint (m s1) - uint (m s2)))"

primrec strncmp :: "mem \<Rightarrow> nat \<Rightarrow> nat \<Rightarrow> nat \<Rightarrow> int" where
  "strncmp m s1 s2 0 = 0"
| "strncmp m s1 s2 (Suc n) =
     (if m s1 \<noteq> m s2 then uint (m s1) - uint (m s2)
      else if m s1 = 0 then 0 else strncmp m (s1 + 1) (s2 + 1) n)"

definition tolower :: "int \<Rightarrow> int" where
  "tolower c = c + 0x20 * (if c \<ge> 65 \<and> c \<le> 90 then 1 else 0)"

partial_function (option) strcasecmp :: "mem \<Rightarrow> nat \<Rightarrow> nat \<Rightarrow> int option" where
  "strcasecmp m us1 us2 =
     (if tolower (uint (m us1)) = tolower (uint (m us2)) then
        (if m us1 = 0 then Some 0 else strcasecmp m (us1 + 1) (us2 + 1))
      else Some (tolower (uint (m us1)) - tolower (uint (m us2))))"

primrec strncasecmp :: "mem \<Rightarrow> nat \<Rightarrow> nat \<Rightarrow> nat \<Rightarrow> int" where
  "strncasecmp m us1 us2 0 = 0"
| "strncasecmp m us1 us2 (Suc n) =
     (if tolower (uint (m us1)) \<noteq> tolower (uint (m us2)) then tolower (uint (m us1)) - tolower (uint (m us2))
      else if m us1 = 0 then 0 else strncasecmp m (us1 + 1) (us2 + 1) n)"

section \<open>A list of bytes in memory\<close>

primrec store_list :: "nat \<Rightarrow> u8 list \<Rightarrow> mem \<Rightarrow> mem" where
  "store_list p [] m = m"
| "store_list p (x # xs) m = store_list (p + 1) xs (m(p := x))"

lemma store_list_nth: "store_list p xs m q = (if p \<le> q \<and> q < p + length xs then xs ! (q - p) else m q)"
proof (induction xs arbitrary: p m)
  case (Cons x xs)
  show ?case by (auto simp: Cons nth_Cons')
qed auto

lemma store_list_append: "store_list p (xs @ ys) m = store_list (p + length xs) ys (store_list p xs m)"
  by (induction xs arbitrary: p m) simp_all

lemma store_list_snoc: "(store_list p xs m)(p + length xs := x) = store_list p (xs @ [x]) m"
  by (simp add: store_list_append)

lemma set_bytes_list: "snd (set_bytes n p c m) = store_list p (replicate n c) m"
  by (induction n arbitrary: p m) simp_all

lemma cstr_cong: "(\<And>i. i \<le> length xs \<Longrightarrow> m' (p + i) = m (p + i)) \<Longrightarrow> cstr m' p xs \<longleftrightarrow> cstr m p xs"
proof (induction xs arbitrary: p)
  case Nil
  then show ?case by (metis add_0_right cstr.simps(1) le0)
next
  case (Cons x xs)
  have "m' p = m p" using Cons.prems [of 0] by simp
  moreover have "cstr m' (p + 1) xs \<longleftrightarrow> cstr m (p + 1) xs"
    by (rule Cons.IH) (use Cons.prems [of "Suc i" for i] in simp)
  ultimately show ?case by simp
qed

text \<open>The \<open>n\<close> bytes at \<open>d\<close> and the string at \<open>s\<close> do not overlap, as \<^verbatim>\<open>restrict\<close> demands.\<close>

definition apart :: "nat \<Rightarrow> u8 list \<Rightarrow> nat \<Rightarrow> nat \<Rightarrow> bool" where
  "apart s xs d n \<longleftrightarrow> s + length xs < d \<or> d + n \<le> s"

lemma cstr_apart: "cstr m s xs \<Longrightarrow> apart s xs d n \<Longrightarrow> length ys \<le> n \<Longrightarrow> cstr (store_list d ys m) s xs"
  by (subst cstr_cong [where m = m]) (auto simp: apart_def store_list_nth)

lemma cstr_apart_upd: "cstr m s xs \<Longrightarrow> apart s xs d (Suc n) \<Longrightarrow> cstr (m(d := x)) s xs"
  using cstr_apart [of m s xs d "Suc n" "[x]"] by simp

lemma apart_step: "apart s (x # xs) d (Suc n) \<Longrightarrow> apart (Suc s) xs (Suc d) n" "apart s (x # xs) d (Suc n) \<Longrightarrow> apart (Suc s) xs d (Suc n)"
  by (auto simp: apart_def)

lemma apart_less: "apart s xs d n \<Longrightarrow> k \<le> n \<Longrightarrow> apart s xs d k"
  by (auto simp: apart_def)

lemma cstr_store: "0 \<notin> set xs \<Longrightarrow> cstr (store_list p (xs @ [0]) m) p xs"
  using cstr_append [of "store_list p (xs @ [0]) m" p xs "[]"] by (auto simp: store_list_nth nth_append in_set_conv_nth)

lemma cstr_no_zero: "cstr m p xs \<Longrightarrow> 0 \<notin> set xs"
  by (induction xs arbitrary: p) auto

lemma str_end_eq: "cstr m s xs \<Longrightarrow> str_end m s = Some (s + length xs)"
  by (induction xs arbitrary: s; subst str_end.simps) auto

lemma str_skip_eq: "cstr m s xs \<Longrightarrow> str_skip m s = Some (s + length xs + 1)"
  by (induction xs arbitrary: s; subst str_skip.simps) auto

lemma strnlen_loop_eq: "cstr m s xs \<Longrightarrow> strnlen_loop m n s len = len + min n (length xs)"
  by (induction n arbitrary: s xs len) (case_tac [2] xs, auto)

lemma strnlen_eq: "cstr m s xs \<Longrightarrow> strnlen m s n = min n (length xs)"
  by (simp add: strnlen_def strnlen_loop_eq)

section \<open>The copies\<close>

lemma strcpy_loop_eq:
  "cstr m from xs \<Longrightarrow> apart from xs to (Suc (length xs)) \<Longrightarrow> strcpy_loop to from m = Some (store_list to (xs @ [0]) m)"
proof (induction xs arbitrary: to "from" m)
  case Nil
  then show ?case by (subst strcpy_loop.simps) simp
next
  case (Cons x xs)
  have "cstr (m(to := x)) (Suc from) xs"
    using Cons.prems by (intro cstr_apart_upd [where n = "Suc (length xs)"]) (auto intro: apart_step)
  then have "strcpy_loop (Suc to) (Suc from) (m(to := x)) = Some (store_list (Suc to) (xs @ [0]) (m(to := x)))"
    using apart_step(1) [OF Cons.prems(2)] unfolding length_Cons by (intro Cons.IH)
  then show ?case using Cons.prems(1) by (subst strcpy_loop.simps) (auto simp: Let_def)
qed

lemma strcpy_eq:
  "cstr m from xs \<Longrightarrow> apart from xs to (Suc (length xs)) \<Longrightarrow> strcpy to from m = Some (to, store_list to (xs @ [0]) m)"
  by (simp add: strcpy_def strcpy_loop_eq)

lemma strcat_eq:
  "cstr m s ys \<Longrightarrow> cstr m src xs \<Longrightarrow> apart src xs (s + length ys) (Suc (length xs)) \<Longrightarrow>
   strcat s src m = Some (s, store_list (s + length ys) (xs @ [0]) m)"
  by (simp add: strcat_def str_end_eq strcpy_loop_eq)

lemma strlcpy_loop_eq:
  assumes "cstr m src xs" "apart src xs dst k"
  shows "strlcpy_loop k dst src m =
    (if length xs < k then (k - length xs, dst + length xs + 1, src + length xs + 1, store_list dst (xs @ [0]) m)
     else (0, dst + k, src + k, store_list dst (take k xs) m))"
  using assms
proof (induction k arbitrary: dst src m xs)
  case (Suc k)
  show ?case
  proof (cases xs)
    case Nil
    then show ?thesis using Suc.prems by (simp add: Let_def)
  next
    case (Cons x ys)
    then have "cstr (m(dst := x)) (Suc src) ys" "apart (Suc src) ys (Suc dst) k"
      using Suc.prems by (auto dest: apart_step intro: cstr_apart_upd)
    from Suc.IH [OF this] show ?thesis using Cons Suc.prems(1) by (auto simp: Let_def fun_upd_def)
  qed
qed simp

lemma strlcpy_eq:
  assumes "cstr m src xs" "apart src xs dst dsize"
  shows "strlcpy dst src dsize m =
    Some (length xs, if dsize = 0 then m else store_list dst (take (dsize - 1) xs @ [0]) m)"
proof (cases dsize)
  case 0
  then show ?thesis using assms by (simp add: strlcpy_def str_skip_eq)
next
  case (Suc k)
  have a: "apart src xs dst k" using assms(2) Suc by (auto intro: apart_less)
  show ?thesis
  proof (cases "length xs < k")
    case True
    then show ?thesis using Suc by (simp add: strlcpy_def Let_def strlcpy_loop_eq [OF assms(1) a])
  next
    case False
    let ?m = "store_list dst (take k xs @ [0]) m"
    have "cstr ?m src xs" using assms Suc False by (intro cstr_apart) auto
    then have "cstr ?m (src + k) (drop k xs)" using False by (intro cstr_drop) auto
    then have "str_skip ?m (src + k) = Some (src + length xs + 1)" using False by (simp add: str_skip_eq)
    moreover have "(store_list dst (take k xs) m)(dst + k := 0) = ?m"
      using store_list_snoc [of dst "take k xs" m 0] False by simp
    ultimately show ?thesis using Suc False by (simp add: strlcpy_def Let_def strlcpy_loop_eq [OF assms(1) a])
  qed
qed

lemma strncat_loop_eq:
  assumes "cstr m s xs" "apart s xs d (Suc n)"
  shows "strncat_loop n d s m =
    (if length xs < n then (d + length xs, store_list d (xs @ [0]) m) else (d + n, store_list d (take n xs) m))"
  using assms
proof (induction n arbitrary: d s m xs)
  case (Suc n)
  show ?case
  proof (cases xs)
    case Nil
    then show ?thesis using Suc.prems by (simp add: Let_def)
  next
    case (Cons x ys)
    then have "cstr (m(d := x)) (Suc s) ys" "apart (Suc s) ys (Suc d) (Suc n)"
      using Suc.prems by (auto dest: apart_step intro: cstr_apart_upd)
    from Suc.IH [OF this] show ?thesis using Cons Suc.prems(1) by (auto simp: Let_def fun_upd_def)
  qed
qed simp

lemma store_list_zero_again: "(store_list d (xs @ [0]) m)(d + length xs := 0) = store_list d (xs @ [0]) m"
  by (simp add: store_list_append)

lemma strncat_eq:
  assumes "cstr m dst ys" "cstr m src xs" "apart src xs (dst + length ys) (Suc n)" "n \<noteq> 0"
  shows "strncat dst src n m = Some (dst, store_list (dst + length ys) (take n xs @ [0]) m)"
proof (cases "length xs < n")
  case True
  then show ?thesis
    by (simp add: strncat_def assms(4) str_end_eq [OF assms(1)] strncat_loop_eq [OF assms(2,3)] store_list_zero_again)
next
  case False
  then show ?thesis
    using store_list_snoc [of "dst + length ys" "take n xs" m 0]
    by (simp add: strncat_def assms(4) str_end_eq [OF assms(1)] strncat_loop_eq [OF assms(2,3)])
qed

lemma strncpy_loop_eq:
  assumes "cstr m s xs" "apart s xs d n"
  shows "strncpy_loop n d s m = store_list d (take n xs @ replicate (n - length xs) 0) m"
  using assms
proof (induction n arbitrary: d s m xs)
  case (Suc n)
  show ?case
  proof (cases xs)
    case Nil
    then show ?thesis using Suc.prems by (simp add: Let_def set_bytes_list)
  next
    case (Cons x ys)
    then have "cstr (m(d := x)) (Suc s) ys" "apart (Suc s) ys (Suc d) n"
      using Suc.prems by (auto dest: apart_step intro: cstr_apart_upd)
    from Suc.IH [OF this] show ?thesis using Cons Suc.prems(1) by (auto simp: Let_def fun_upd_def)
  qed
qed simp

lemma strncpy_eq:
  "cstr m src xs \<Longrightarrow> apart src xs dst n \<Longrightarrow>
   strncpy dst src n m = (dst, store_list dst (take n xs @ replicate (n - length xs) 0) m)"
  by (simp add: strncpy_def strncpy_loop_eq)

lemma strlcat_end_eq: "cstr m d ys \<Longrightarrow> strlcat_end m n d = d + min n (length ys)"
  by (induction n arbitrary: d ys) (case_tac [2] ys, auto)

lemma strlcat_loop_eq:
  assumes "cstr m s xs" "apart s xs d n" "0 < n"
  shows "strlcat_loop n d s m = Some (d + min (n - 1) (length xs), s + length xs, store_list d (take (n - 1) xs) m)"
  using assms
proof (induction xs arbitrary: d s m n)
  case Nil
  then show ?case by (subst strlcat_loop.simps) simp
next
  case (Cons x xs)
  obtain k where n: "n = Suc k" using Cons.prems(3) by (cases n) auto
  show ?case
  proof (cases "k = 0")
    case True
    have "strlcat_loop 1 d (Suc s) m = Some (d, Suc s + length xs, m)"
      using Cons.IH [of m "Suc s" d 1] Cons.prems n True by (auto dest: apart_step)
    then show ?thesis using Cons.prems(1) n True by (subst strlcat_loop.simps) simp
  next
    case False
    have "cstr (m(d := x)) (Suc s) xs" "apart (Suc s) xs (Suc d) k"
      using Cons.prems n by (auto dest: apart_step intro: cstr_apart_upd)
    from Cons.IH [OF this] show ?thesis
      using Cons.prems(1) n False by (subst strlcat_loop.simps) (cases k; auto simp: fun_upd_def)
  qed
qed

lemma strlcat_eq:
  assumes "cstr m dst ys" "cstr m src xs" "apart src xs (dst + length ys) (siz - length ys)"
  shows "strlcat dst src siz m =
    (if siz \<le> length ys then Some (siz + length xs, m)
     else Some (length ys + length xs, store_list (dst + length ys) (take (siz - length ys - 1) xs @ [0]) m))"
proof (cases "siz \<le> length ys")
  case True
  then show ?thesis
    using assms by (simp add: strlcat_def Let_def strlcat_end_eq strlen_eq)
next
  case False
  let ?n = "siz - length ys"
  have "(store_list (dst + length ys) (take (?n - 1) xs) m)(dst + length ys + min (?n - 1) (length xs) := 0)
      = store_list (dst + length ys) (take (?n - 1) xs @ [0]) m"
    using store_list_snoc [of "dst + length ys" "take (?n - 1) xs" m 0] by (simp add: min.commute)
  then show ?thesis
    using False strlcat_loop_eq [OF assms(2,3)] by (simp add: strlcat_def Let_def strlcat_end_eq [OF assms(1)])
qed

section \<open>The comparisons\<close>

text \<open>The order of strings by their first difference, where \<open>f\<close> gives the value of a byte.\<close>

fun cmp_bytes :: "(u8 \<Rightarrow> int) \<Rightarrow> u8 list \<Rightarrow> u8 list \<Rightarrow> int" where
  "cmp_bytes f [] [] = 0"
| "cmp_bytes f [] (y # ys) = - f y"
| "cmp_bytes f (x # xs) [] = f x"
| "cmp_bytes f (x # xs) (y # ys) = (if f x = f y then cmp_bytes f xs ys else f x - f y)"

lemma cmp_bytes_eq_0: "(\<And>x. x \<noteq> 0 \<Longrightarrow> 0 < f x) \<Longrightarrow> 0 \<notin> set xs \<Longrightarrow> 0 \<notin> set ys \<Longrightarrow> cmp_bytes f xs ys = 0 \<longleftrightarrow> map f xs = map f ys"
  by (induction f xs ys rule: cmp_bytes.induct) force+

lemma cmp_bytes_less:
  "(\<And>x. x \<noteq> 0 \<Longrightarrow> 0 < f x) \<Longrightarrow> 0 \<notin> set xs \<Longrightarrow> 0 \<notin> set ys \<Longrightarrow>
   cmp_bytes f xs ys < 0 \<longleftrightarrow> (map f xs, map f ys) \<in> lexord {(a, b). a < b}"
  by (induction f xs ys rule: cmp_bytes.induct) (auto simp: less_le_not_le)

lemma uint_pos: "x \<noteq> 0 \<Longrightarrow> 0 < uint x" for x :: u8
  by (simp add: uint_0_iff less_le)

lemma uint_inj: "uint x = uint y \<longleftrightarrow> x = y" for x y :: u8
  by (simp add: word_uint_eq_iff)

definition lower :: "u8 \<Rightarrow> int" where
  "lower c = tolower (uint c)"

lemma lower_0 [simp]: "lower 0 = 0"
  by (simp add: lower_def tolower_def)

lemma tolower_0 [simp]: "tolower 0 = 0"
  by (simp add: tolower_def)

lemma lower_pos: "x \<noteq> 0 \<Longrightarrow> 0 < lower x"
  using uint_pos [of x] by (simp add: lower_def tolower_def)

lemma lower_eq_0 [simp]: "lower x = 0 \<longleftrightarrow> x = 0" "0 = lower x \<longleftrightarrow> x = 0"
  using lower_pos [of x] by (cases "x = 0"; simp)+

lemma strcmp_eq: "cstr m s1 xs \<Longrightarrow> cstr m s2 ys \<Longrightarrow> strcmp m s1 s2 = Some (cmp_bytes uint xs ys)"
proof (induction xs arbitrary: s1 s2 ys)
  case Nil
  then show ?case by (cases ys; subst strcmp.simps) auto
next
  case (Cons x xs)
  then show ?case by (cases ys; subst strcmp.simps) (auto simp: uint_inj)
qed

lemma strncmp_eq: "cstr m s1 xs \<Longrightarrow> cstr m s2 ys \<Longrightarrow> strncmp m s1 s2 n = cmp_bytes uint (take n xs) (take n ys)"
proof (induction n arbitrary: s1 s2 xs ys)
  case (Suc n)
  then show ?case by (cases xs; cases ys) (auto simp: uint_inj)
qed simp

lemma strcasecmp_eq: "cstr m s1 xs \<Longrightarrow> cstr m s2 ys \<Longrightarrow> strcasecmp m s1 s2 = Some (cmp_bytes lower xs ys)"
proof (induction xs arbitrary: s1 s2 ys)
  case Nil
  then show ?case by (cases ys; subst strcasecmp.simps) (auto simp: lower_def [symmetric])
next
  case (Cons x xs)
  then show ?case by (cases ys; subst strcasecmp.simps) (auto simp: lower_def [symmetric])
qed

lemma strncasecmp_eq: "cstr m s1 xs \<Longrightarrow> cstr m s2 ys \<Longrightarrow> strncasecmp m s1 s2 n = cmp_bytes lower (take n xs) (take n ys)"
proof (induction n arbitrary: s1 s2 xs ys)
  case (Suc n)
  then show ?case by (cases xs; cases ys) (auto simp: lower_def [symmetric])
qed simp

section \<open>What the functions promise\<close>

lemma cstr_store_apart:
  assumes "0 \<notin> set zs" "cstr m q xs" "apart q xs p (Suc (length zs))"
  shows "cstr (store_list p (zs @ [0]) m) p zs" "cstr (store_list p (zs @ [0]) m) q xs"
  using assms by (auto intro: cstr_store cstr_apart)

text \<open>C23. \<^verbatim>\<open>strlcpy\<close> returns the length of the source string and leaves in the destination the longest
  prefix of it that fits with a terminator into \<^verbatim>\<open>dsize\<close> bytes; it writes only that prefix and
  its terminator, and nothing at all when \<^verbatim>\<open>dsize\<close> is 0.\<close>

theorem strlcpy_truncates:
  assumes "cstr m src xs" "apart src xs dst dsize"
  shows "\<exists>m'. strlcpy dst src dsize m = Some (length xs, m')
    \<and> (0 < dsize \<longrightarrow> cstr m' dst (take (dsize - 1) xs))
    \<and> (\<forall>q. q < dst \<or> dst + min dsize (length xs + 1) \<le> q \<longrightarrow> m' q = m q)"
proof -
  have "0 \<notin> set (take (dsize - 1) xs)" using cstr_no_zero [OF assms(1)] by (auto dest: in_set_takeD)
  then show ?thesis by (auto simp: strlcpy_eq [OF assms] cstr_store store_list_nth)
qed

definition greet :: mem where
  "greet p = (if p < 4 then [104, 105, 33, 0] ! p else if p = 8 then 97 else if p = 9 then 0 else 7)"

lemma greet_str: "cstr greet 0 [104, 105, 33]"
  by (simp add: greet_def)

theorem strlcpy_truncates_witness:
  "\<exists>m'. strlcpy 16 0 3 greet = Some (3, m') \<and> cstr m' 16 [104, 105] \<and> m' 19 = 7"
  using strlcpy_truncates [OF greet_str, of 16 3] by (auto simp: apart_def greet_def)

text \<open>C24. \<^verbatim>\<open>strlcat\<close> appends as much of the source as fits with a terminator into a buffer of \<^verbatim>\<open>siz\<close>
  bytes, returns the length of the string it tried to create, and changes nothing when the buffer
  has no terminator within \<^verbatim>\<open>siz\<close> bytes.\<close>

theorem strlcat_truncates:
  assumes "cstr m dst ys" "cstr m src xs" "apart src xs (dst + length ys) (siz - length ys)"
  shows "\<exists>m'. strlcat dst src siz m = Some (min siz (length ys) + length xs, m')
    \<and> (length ys < siz \<longrightarrow> cstr m' dst (take (siz - 1) (ys @ xs)))
    \<and> (siz \<le> length ys \<longrightarrow> m' = m)"
proof -
  let ?zs = "take (siz - length ys - 1) xs" and ?p = "dst + length ys"
  let ?m = "store_list ?p (?zs @ [0]) m"
  have "0 \<notin> set ?zs" using cstr_no_zero [OF assms(2)] by (auto dest: in_set_takeD)
  then have "cstr ?m ?p ?zs" by (rule cstr_store)
  moreover have "\<forall>i < length ys. ?m (dst + i) = ys ! i \<and> ys ! i \<noteq> 0"
    using cstr_nth [OF assms(1)] by (simp add: store_list_nth)
  ultimately have "cstr ?m dst (ys @ ?zs)" by (simp add: cstr_append)
  then show ?thesis by (auto simp: strlcat_eq [OF assms])
qed

theorem strlcat_truncates_witness: "\<exists>m'. strlcat 8 0 4 greet = Some (4, m') \<and> cstr m' 8 [97, 104, 105]"
proof -
  have four: "Suc (Suc (Suc (Suc 0))) = 4" by simp
  show ?thesis
    using strlcat_truncates [of greet 8 "[97]" 0 "[104, 105, 33]" 4] by (simp add: greet_def apart_def four)
qed

text \<open>C25. The comparisons order strings by their first difference, as the lexicographic order on the
  values of the bytes: \<^verbatim>\<open>strcmp\<close> on the whole strings, \<^verbatim>\<open>strncmp\<close> on their first \<open>n\<close> bytes, and
  \<^verbatim>\<open>strcasecmp\<close> on the bytes in lower case. All three return on terminated strings.\<close>

theorem strcmp_orders:
  assumes "cstr m s1 xs" "cstr m s2 ys"
  shows "\<exists>r r'. strcmp m s1 s2 = Some r \<and> (r = 0 \<longleftrightarrow> xs = ys) \<and> (r < 0 \<longleftrightarrow> (map uint xs, map uint ys) \<in> lexord {(a, b). a < b})
    \<and> (strncmp m s1 s2 n = 0 \<longleftrightarrow> take n xs = take n ys)
    \<and> (strncmp m s1 s2 n < 0 \<longleftrightarrow> (map uint (take n xs), map uint (take n ys)) \<in> lexord {(a, b). a < b})
    \<and> strcasecmp m s1 s2 = Some r' \<and> (r' = 0 \<longleftrightarrow> map lower xs = map lower ys)
    \<and> (r' < 0 \<longleftrightarrow> (map lower xs, map lower ys) \<in> lexord {(a, b). a < b})"
proof -
  have z: "0 \<notin> set xs" "0 \<notin> set ys" "0 \<notin> set (take n xs)" "0 \<notin> set (take n ys)"
    using assms cstr_no_zero by (auto dest: in_set_takeD)
  have u: "map uint as = map uint bs \<longleftrightarrow> as = bs" for as bs :: "u8 list"
    by (rule inj_map_eq_map) (simp add: inj_def uint_inj)
  have c: "cmp_bytes uint as bs = 0 \<longleftrightarrow> as = bs" "cmp_bytes uint as bs < 0 \<longleftrightarrow> (map uint as, map uint bs) \<in> lexord {(a, b). a < b}"
    "cmp_bytes lower as bs = 0 \<longleftrightarrow> map lower as = map lower bs"
    "cmp_bytes lower as bs < 0 \<longleftrightarrow> (map lower as, map lower bs) \<in> lexord {(a, b). a < b}"
    if "0 \<notin> set as" "0 \<notin> set bs" for as bs
    using that u [of as bs] by (simp_all only: cmp_bytes_eq_0 cmp_bytes_less uint_pos lower_pos not_False_eq_True)
  show ?thesis
    by (simp add: strcmp_eq [OF assms] strncmp_eq [OF assms] strcasecmp_eq [OF assms] c [OF z(1,2)] c [OF z(3,4)])
qed

theorem strcmp_orders_witness: "\<exists>r. strcmp greet 0 1 = Some r \<and> r < 0"
  using strcmp_orders [OF greet_str, of 1 "[105, 33]" 0] by (auto simp: greet_def)

end
