(* ===== verification/Libc_Search.thy ===== *)
theory Libc_Search
  imports Libc_String "HOL-Library.Sublist"
begin

text \<open>
  The functions of \<^verbatim>\<open>lib/libc/string\<close> that search in strings. A pointer result is \<open>None\<close> for
  \<^verbatim>\<open>NULL\<close>, inside the option that says whether the function returns.
\<close>

section \<open>The code\<close>

partial_function (option) strchr :: "mem \<Rightarrow> nat \<Rightarrow> int \<Rightarrow> nat option option" where
  "strchr m p ch =
     (if uint (m p) = ch then Some (Some p) else if m p = 0 then Some None else strchr m (p + 1) ch)"

partial_function (option) strrchr_loop :: "mem \<Rightarrow> nat \<Rightarrow> int \<Rightarrow> nat option \<Rightarrow> nat option option" where
  "strrchr_loop m p ch save =
     (let save = (if uint (m p) = ch then Some p else save)
      in if m p = 0 then Some save else strrchr_loop m (p + 1) ch save)"

definition strrchr :: "mem \<Rightarrow> nat \<Rightarrow> int \<Rightarrow> nat option option" where
  "strrchr m cp ch = strrchr_loop m cp ch None"

text \<open>The table of \<^verbatim>\<open>strspn\<close> and \<^verbatim>\<open>strcspn\<close>: one bit for each character, in 8 words of 32 bits.\<close>

definition IDX :: "u8 \<Rightarrow> nat" where "IDX c = unat c div 32"
definition BIT :: "u8 \<Rightarrow> u32" where "BIT c = push_bit (unat c mod 32) 1"

partial_function (option) span_fill :: "mem \<Rightarrow> nat \<Rightarrow> u32 list \<Rightarrow> u32 list option" where
  "span_fill m charset tbl =
     (if m charset \<noteq> 0 then
        (let idx = IDX (m charset); b = BIT (m charset)
         in span_fill m (charset + 1) (tbl[idx := tbl ! idx OR b]))
      else Some tbl)"

partial_function (option) strspn_loop :: "mem \<Rightarrow> u32 list \<Rightarrow> nat \<Rightarrow> nat option" where
  "strspn_loop m tbl s1 = (if tbl ! IDX (m s1) AND BIT (m s1) = 0 then Some s1 else strspn_loop m tbl (s1 + 1))"

definition strspn :: "mem \<Rightarrow> nat \<Rightarrow> nat \<Rightarrow> nat option" where
  "strspn m s charset =
     (if m s = 0 then Some 0
      else do {
        tbl \<leftarrow> span_fill m charset (replicate 8 0);
        s1 \<leftarrow> strspn_loop m tbl s;
        Some (s1 - s)
      })"

partial_function (option) strcspn_loop :: "mem \<Rightarrow> u32 list \<Rightarrow> nat \<Rightarrow> nat option" where
  "strcspn_loop m tbl s1 = (if tbl ! IDX (m s1) AND BIT (m s1) \<noteq> 0 then Some s1 else strcspn_loop m tbl (s1 + 1))"

definition strcspn :: "mem \<Rightarrow> nat \<Rightarrow> nat \<Rightarrow> nat option" where
  "strcspn m s charset =
     (if m s = 0 then Some 0
      else do {
        tbl \<leftarrow> span_fill m charset (1 # replicate 7 0);
        s1 \<leftarrow> strcspn_loop m tbl s;
        Some (s1 - s)
      })"

partial_function (option) strstr_find :: "mem \<Rightarrow> nat \<Rightarrow> u8 \<Rightarrow> nat option option" where
  "strstr_find m s c =
     (if m s = 0 then Some None else if m s \<noteq> c then strstr_find m (s + 1) c else Some (Some (s + 1)))"

partial_function (option) strstr_loop :: "mem \<Rightarrow> nat \<Rightarrow> u8 \<Rightarrow> nat \<Rightarrow> nat \<Rightarrow> nat option option" where
  "strstr_loop m s c fnd len = do {
     r \<leftarrow> strstr_find m s c;
     case r of None \<Rightarrow> Some None
     | Some s \<Rightarrow> if strncmp m s fnd len \<noteq> 0 then strstr_loop m s c fnd len else Some (Some s)
   }"

definition strstr :: "mem \<Rightarrow> nat \<Rightarrow> nat \<Rightarrow> nat option option" where
  "strstr m s fnd =
     (let c = m fnd; fnd = fnd + 1
      in if c \<noteq> 0 then do {
           len \<leftarrow> strlen m fnd;
           r \<leftarrow> strstr_loop m s c fnd len;
           Some (map_option (\<lambda>s. s - 1) r)
         } else Some (Some s))"

text \<open>\<^verbatim>\<open>strsep\<close> returns the token and the new value of \<^verbatim>\<open>*stringp\<close>.\<close>

partial_function (option) strsep_match :: "mem \<Rightarrow> nat \<Rightarrow> u8 \<Rightarrow> bool option" where
  "strsep_match m spanp c =
     (if m spanp = c then Some True else if m spanp \<noteq> 0 then strsep_match m (spanp + 1) c else Some False)"

partial_function (option) strsep_loop :: "mem \<Rightarrow> nat \<Rightarrow> nat \<Rightarrow> (nat option \<times> mem) option" where
  "strsep_loop m s delim = do {
     hit \<leftarrow> strsep_match m delim (m s);
     if hit then Some (if m s = 0 then (None, m) else (Some (s + 1), m(s := 0)))
     else strsep_loop m (s + 1) delim
   }"

definition strsep :: "nat option \<Rightarrow> nat \<Rightarrow> mem \<Rightarrow> (nat option \<times> nat option \<times> mem) option" where
  "strsep stringp delim m =
     (case stringp of
        None \<Rightarrow> Some (None, None, m)
      | Some s \<Rightarrow> do {
          (stringp, m) \<leftarrow> strsep_loop m s delim;
          Some (Some s, stringp, m)
        })"

section \<open>Characters\<close>

lemma strchr_eq:
  "cstr m p xs \<Longrightarrow> strchr m p (uint c) =
     Some (if c \<in> set (xs @ [0]) then Some (p + length (takeWhile (\<lambda>x. x \<noteq> c) xs)) else None)"
  by (induction xs arbitrary: p; subst strchr.simps) (auto simp: uint_inj uint_0_iff)

lemma strchr_outside: "cstr m p xs \<Longrightarrow> ch \<notin> {0..<256} \<Longrightarrow> strchr m p ch = Some None"
  by (induction xs arbitrary: p; subst strchr.simps) auto

lemma strrchr_loop_eq:
  "cstr m p xs \<Longrightarrow> c \<noteq> 0 \<Longrightarrow> strrchr_loop m p (uint c) save =
     Some (if c \<in> set xs then Some (p + length xs - 1 - length (takeWhile (\<lambda>x. x \<noteq> c) (rev xs))) else save)"
proof (induction xs arbitrary: p save)
  case Nil
  then show ?case by (subst strrchr_loop.simps) (auto simp: uint_0_iff)
next
  case (Cons x xs)
  have "strrchr_loop m p (uint c) save = strrchr_loop m (Suc p) (uint c) (if x = c then Some p else save)"
    using Cons.prems by (subst strrchr_loop.simps) (auto simp: uint_inj)
  also have "\<dots> = Some (if c \<in> set xs then Some (Suc p + length xs - 1 - length (takeWhile (\<lambda>x. x \<noteq> c) (rev xs)))
      else if x = c then Some p else save)"
    using Cons by simp
  finally show ?case
    by (auto simp: takeWhile_append)
qed

section \<open>Spans\<close>

definition tbl_holds :: "u32 list \<Rightarrow> u8 set \<Rightarrow> bool" where
  "tbl_holds tbl C \<longleftrightarrow> length tbl = 8 \<and> (\<forall>c. bit (tbl ! IDX c) (unat c mod 32) \<longleftrightarrow> c \<in> C)"

lemma IDX_less: "IDX c < 8"
  using unsigned_less [of c, where ?'a = nat] by (simp add: IDX_def)

lemma and_BIT: "w AND BIT c = 0 \<longleftrightarrow> \<not> bit w (unat c mod 32)"
proof -
  have k: "unat c mod 32 < 32" by simp
  have "w AND BIT c \<noteq> 0 \<longleftrightarrow> (\<exists>n. bit (w AND BIT c) n)" using bit_eqI [of "w AND BIT c" 0] by auto
  also have "\<dots> \<longleftrightarrow> bit w (unat c mod 32)" using k by (auto simp: BIT_def bit_simps)
  finally show ?thesis by blast
qed

lemma tbl_test: "tbl_holds tbl C \<Longrightarrow> tbl ! IDX c AND BIT c = 0 \<longleftrightarrow> c \<notin> C"
  by (simp add: and_BIT tbl_holds_def)

lemma tbl_holds_add:
  assumes "tbl_holds tbl C"
  shows "tbl_holds (tbl[IDX c := tbl ! IDX c OR BIT c]) (insert c C)"
proof -
  have same: "IDX d = IDX c \<and> unat d mod 32 = unat c mod 32 \<longleftrightarrow> d = c" for d
    unfolding IDX_def by (metis div_mod_decomp word_unat_eq_iff)
  have "bit (tbl[IDX c := tbl ! IDX c OR BIT c] ! IDX d) (unat d mod 32) \<longleftrightarrow> d \<in> insert c C" for d
  proof -
    have "length tbl = 8" "bit (tbl ! IDX d) (unat d mod 32) \<longleftrightarrow> d \<in> C" using assms by (simp_all add: tbl_holds_def)
    then show ?thesis
      using same [of d] IDX_less [of c] by (cases "IDX d = IDX c") (auto simp: BIT_def bit_simps nth_list_update)
  qed
  then show ?thesis using assms by (simp add: tbl_holds_def)
qed

lemma span_fill_eq:
  "cstr m p cs \<Longrightarrow> tbl_holds tbl C \<Longrightarrow> \<exists>tbl'. span_fill m p tbl = Some tbl' \<and> tbl_holds tbl' (set cs \<union> C)"
proof (induction cs arbitrary: p tbl C)
  case Nil
  then show ?case by (subst span_fill.simps) simp
next
  case (Cons c cs)
  then have "\<exists>tbl'. span_fill m (Suc p) (tbl[IDX c := tbl ! IDX c OR BIT c]) = Some tbl' \<and> tbl_holds tbl' (set cs \<union> insert c C)"
    by (intro Cons.IH tbl_holds_add) auto
  then show ?case using Cons.prems by (subst span_fill.simps) (auto simp: Let_def)
qed

lemma strspn_loop_eq:
  "cstr m s xs \<Longrightarrow> tbl_holds tbl C \<Longrightarrow> 0 \<notin> C \<Longrightarrow> strspn_loop m tbl s = Some (s + length (takeWhile (\<lambda>x. x \<in> C) xs))"
  by (induction xs arbitrary: s; subst strspn_loop.simps) (auto simp: tbl_test)

lemma strcspn_loop_eq:
  "cstr m s xs \<Longrightarrow> tbl_holds tbl C \<Longrightarrow> 0 \<in> C \<Longrightarrow> strcspn_loop m tbl s = Some (s + length (takeWhile (\<lambda>x. x \<notin> C) xs))"
  by (induction xs arbitrary: s; subst strcspn_loop.simps) (auto simp: tbl_test)

lemma tbl_zero: "tbl_holds (replicate 8 0) {}"
  by (simp add: tbl_holds_def IDX_less)

lemma tbl_nul: "tbl_holds (1 # replicate 7 0) {0}"
proof -
  have "tbl_holds ((replicate 8 0)[IDX 0 := replicate 8 0 ! IDX 0 OR BIT 0]) (insert 0 {})"
    by (rule tbl_holds_add [OF tbl_zero])
  moreover have "replicate 8 0 = (0 :: u32) # replicate 7 0" by (simp add: numeral_eq_Suc)
  moreover have "IDX 0 = 0" "BIT 0 = 1" by (simp_all add: IDX_def BIT_def)
  ultimately show ?thesis by (simp only: nth_Cons_0 list_update.simps nat.case or.left_neutral)
qed

lemma strspn_eq:
  assumes "cstr m s xs" "cstr m charset cs"
  shows "strspn m s charset = Some (length (takeWhile (\<lambda>x. x \<in> set cs) xs))"
proof (cases xs)
  case Nil
  then show ?thesis using assms(1) by (simp add: strspn_def)
next
  case (Cons x ys)
  obtain tbl where "span_fill m charset (replicate 8 0) = Some tbl" "tbl_holds tbl (set cs)"
    using span_fill_eq [OF assms(2) tbl_zero] by auto
  then show ?thesis
    using assms Cons cstr_no_zero [OF assms(2)] strspn_loop_eq [OF assms(1), of tbl "set cs"] by (simp add: strspn_def)
qed

lemma strcspn_eq:
  assumes "cstr m s xs" "cstr m charset cs"
  shows "strcspn m s charset = Some (length (takeWhile (\<lambda>x. x \<notin> set cs) xs))"
proof (cases xs)
  case Nil
  then show ?thesis using assms(1) by (simp add: strcspn_def)
next
  case (Cons x ys)
  obtain tbl where t: "span_fill m charset (1 # replicate 7 0) = Some tbl" "tbl_holds tbl (insert 0 (set cs))"
    using span_fill_eq [OF assms(2) tbl_nul] by auto
  have "takeWhile (\<lambda>x. x \<notin> insert 0 (set cs)) xs = takeWhile (\<lambda>x. x \<notin> set cs) xs"
    using cstr_no_zero [OF assms(1)] by (intro takeWhile_cong) auto
  then show ?thesis
    using t assms Cons strcspn_loop_eq [OF assms(1), of tbl "insert 0 (set cs)"] by (simp add: strcspn_def)
qed

section \<open>Substrings\<close>

lemma strstr_find_eq:
  "cstr m s xs \<Longrightarrow> c \<noteq> 0 \<Longrightarrow> strstr_find m s c =
     Some (if c \<in> set xs then Some (s + length (takeWhile (\<lambda>x. x \<noteq> c) xs) + 1) else None)"
  by (induction xs arbitrary: s; subst strstr_find.simps) auto

lemma strncmp_prefix:
  assumes "cstr m s xs" "cstr m p ys"
  shows "strncmp m s p (length ys) = 0 \<longleftrightarrow> prefix ys xs"
proof -
  have z: "0 \<notin> set (take (length ys) xs)" "0 \<notin> set (take (length ys) ys)"
    using assms cstr_no_zero by (auto dest: in_set_takeD)
  have "cmp_bytes uint (take (length ys) xs) (take (length ys) ys) = 0 \<longleftrightarrow> take (length ys) xs = ys"
    using z inj_map_eq_map [of "uint :: u8 \<Rightarrow> int" "take (length ys) xs" ys] by (simp add: cmp_bytes_eq_0 uint_pos inj_def uint_inj)
  also have "\<dots> \<longleftrightarrow> prefix ys xs" by (auto simp: take_is_prefix prefix_def dest: sym) (metis append_take_drop_id)
  finally show ?thesis by (simp add: strncmp_eq [OF assms])
qed

text \<open>The position of the first occurrence, by a scan of all positions.\<close>

fun first_occurrence :: "u8 list \<Rightarrow> u8 list \<Rightarrow> nat option" where
  "first_occurrence ys [] = (if ys = [] then Some 0 else None)"
| "first_occurrence ys (x # xs) = (if prefix ys (x # xs) then Some 0 else map_option Suc (first_occurrence ys xs))"

lemma first_occurrence_iff:
  "first_occurrence ys xs = Some i \<longleftrightarrow> i \<le> length xs \<and> prefix ys (drop i xs) \<and> (\<forall>j < i. \<not> prefix ys (drop j xs))"
proof (induction xs arbitrary: i)
  case (Cons x xs)
  then show ?case by (cases i) (auto simp: less_Suc_eq_0_disj)
qed (auto simp: prefix_def)

lemma first_occurrence_none: "first_occurrence ys xs = None \<longleftrightarrow> \<not> sublist ys xs"
  by (induction xs) (auto simp: sublist_Cons_right)

lemma first_occurrence_skip:
  "c \<notin> set us \<Longrightarrow> first_occurrence (c # ys) (us @ vs) = map_option (\<lambda>i. length us + i) (first_occurrence (c # ys) vs)"
  by (induction us) (auto split: option.splits simp: map_option_case)

lemma strstr_loop_eq:
  assumes "cstr m s xs" "cstr m p ys" "c \<noteq> 0"
  shows "strstr_loop m s c p (length ys) = Some (map_option (\<lambda>i. s + i + 1) (first_occurrence (c # ys) xs))"
  using assms
proof (induction "length xs" arbitrary: s xs rule: less_induct)
  case less
  show ?case
  proof (cases "c \<in> set xs")
    case False
    then show ?thesis
      using strstr_find_eq [OF less.prems(1,3)] first_occurrence_skip [of c xs ys "[]"] by (subst strstr_loop.simps) simp
  next
    case True
    then obtain us vs where xs: "xs = us @ c # vs" "c \<notin> set us" by (auto dest: split_list_first)
    have w: "takeWhile (\<lambda>x. x \<noteq> c) xs = us" using xs by (simp add: takeWhile_append)
    have v: "cstr m (s + length us + 1) vs" using cstr_drop [OF less.prems(1), of "length us + 1"] xs by simp
    have ih: "strstr_loop m (s + length us + 1) c p (length ys)
        = Some (map_option (\<lambda>i. s + length us + 1 + i + 1) (first_occurrence (c # ys) vs))"
      using xs v less.prems(2,3) by (intro less.hyps) auto
    show ?thesis
      using True w ih xs strncmp_prefix [OF v less.prems(2)] strstr_find_eq [OF less.prems(1,3)]
      by (subst strstr_loop.simps) (simp add: first_occurrence_skip option.map_comp comp_def add_ac)
  qed
qed

lemma strstr_eq:
  assumes "cstr m s xs" "cstr m fnd ys"
  shows "strstr m s fnd = Some (map_option (\<lambda>i. s + i) (first_occurrence ys xs))"
proof (cases ys)
  case Nil
  then have "first_occurrence ys xs = Some 0" by (cases xs) simp_all
  then show ?thesis using Nil assms(2) by (simp add: strstr_def Let_def)
next
  case (Cons c zs)
  then have z: "cstr m (fnd + 1) zs" "c \<noteq> 0" "m fnd = c" using assms(2) by simp_all
  show ?thesis
    using Cons z(2,3) strstr_loop_eq [OF assms(1) z(1,2)] strlen_eq [OF z(1)]
    by (simp add: strstr_def Let_def option.map_comp comp_def)
qed

section \<open>Tokens\<close>

lemma strsep_match_eq: "cstr m p ds \<Longrightarrow> strsep_match m p c = Some (c = 0 \<or> c \<in> set ds)"
  by (induction ds arbitrary: p; subst strsep_match.simps) auto

lemma strsep_loop_eq:
  "cstr m s xs \<Longrightarrow> cstr m delim ds \<Longrightarrow> strsep_loop m s delim =
     (let t = takeWhile (\<lambda>x. x \<notin> set ds) xs
      in Some (if t = xs then (None, m) else (Some (s + length t + 1), m(s + length t := 0))))"
proof (induction xs arbitrary: s)
  case Nil
  then show ?case by (subst strsep_loop.simps) (simp add: strsep_match_eq)
next
  case (Cons x xs)
  then show ?case by (subst strsep_loop.simps) (auto simp: strsep_match_eq Let_def)
qed

lemma cstr_cut:
  assumes "cstr m s xs" "n < length xs"
  shows "cstr (m(s + n := 0)) s (take n xs)" "cstr (m(s + n := 0)) (s + n + 1) (drop (n + 1) xs)"
proof -
  have "\<forall>i < n. m (s + i) = xs ! i \<and> xs ! i \<noteq> 0" using cstr_nth [OF assms(1)] assms(2) by simp
  then show "cstr (m(s + n := 0)) s (take n xs)"
    using cstr_append [of "m(s + n := 0)" s "take n xs" "[]"] assms(2) by simp
  show "cstr (m(s + n := 0)) (s + n + 1) (drop (n + 1) xs)"
    using cstr_drop [OF assms(1), of "n + 1"] assms(2) by (subst cstr_cong [where m = m]) (auto simp: add.assoc)
qed

section \<open>What the functions promise\<close>

text \<open>C26. \<^verbatim>\<open>strstr\<close> returns on terminated strings, with a pointer to the first position at which the
  second string occurs in the first, and with \<^verbatim>\<open>NULL\<close> exactly when it does not occur.\<close>

theorem strstr_finds_first:
  assumes "cstr m s xs" "cstr m fnd ys"
  shows "(\<not> sublist ys xs \<and> strstr m s fnd = Some None) \<or>
    (\<exists>i \<le> length xs. strstr m s fnd = Some (Some (s + i)) \<and> prefix ys (drop i xs) \<and> (\<forall>j < i. \<not> prefix ys (drop j xs)))"
proof (cases "first_occurrence ys xs")
  case None
  then show ?thesis by (simp add: strstr_eq [OF assms] first_occurrence_none)
next
  case (Some i)
  then show ?thesis using first_occurrence_iff [of ys xs i] by (auto simp: strstr_eq [OF assms])
qed

definition words :: mem where
  "words p = (if p < 8 then [97, 98, 97, 99, 0, 97, 99, 0] ! p else 0)"

theorem strstr_finds_first_witness: "strstr words 0 5 = Some (Some 2)"
proof -
  let ?xs = "[97, 98, 97, 99] :: u8 list" and ?ys = "[97, 99] :: u8 list"
  have c: "cstr words 0 ?xs" "cstr words 5 ?ys" by (simp_all add: words_def)
  have s: "sublist ?ys ?xs" unfolding sublist_def by (intro exI [of _ "[97, 98]"] exI [of _ "[]"]) simp
  then obtain i where i: "i \<le> length ?xs" "strstr words 0 5 = Some (Some (0 + i))" "prefix ?ys (drop i ?xs)"
    using strstr_finds_first [OF c] by blast
  then have "i = 0 \<or> i = 1 \<or> i = 2 \<or> i = 3 \<or> i = 4" by auto
  then have "i = 2" using i(3) by (elim disjE) (simp_all add: numeral_3_eq_3)
  then show ?thesis using i by simp
qed

text \<open>C29. \<^verbatim>\<open>strsep\<close> cuts the string at its first delimiter: the token it returns is the string up to
  there, \<^verbatim>\<open>*stringp\<close> then points to the rest, and no byte but the delimiter has changed. Without a
  delimiter the token is the whole string and \<^verbatim>\<open>*stringp\<close> becomes \<^verbatim>\<open>NULL\<close>.\<close>

theorem strsep_cuts:
  assumes "cstr m s xs" "cstr m delim ds"
  shows "if set xs \<inter> set ds = {} then strsep (Some s) delim m = Some (Some s, None, m)
    else \<exists>t d r. xs = t @ d # r \<and> d \<in> set ds \<and> set t \<inter> set ds = {}
      \<and> strsep (Some s) delim m = Some (Some s, Some (s + length t + 1), m(s + length t := 0))
      \<and> cstr (m(s + length t := 0)) s t \<and> cstr (m(s + length t := 0)) (s + length t + 1) r"
proof -
  let ?t = "takeWhile (\<lambda>x. x \<notin> set ds) xs"
  have l: "strsep (Some s) delim m = Some (Some s, if ?t = xs then (None, m) else (Some (s + length ?t + 1), m(s + length ?t := 0)))"
    by (simp add: strsep_def strsep_loop_eq [OF assms] Let_def)
  show ?thesis
  proof (cases "set xs \<inter> set ds = {}")
    case True
    then have "?t = xs" by (auto simp: takeWhile_eq_all_conv)
    then show ?thesis using True l by simp
  next
    case False
    then have n: "?t \<noteq> xs" "length ?t < length xs"
      by (auto simp: takeWhile_eq_all_conv) (metis (no_types, lifting) length_takeWhile_le le_neq_implies_less takeWhile_eq_take take_all_iff dual_order.refl takeWhile_eq_all_conv disjoint_iff)
    have "xs = ?t @ xs ! length ?t # drop (length ?t + 1) xs"
      by (metis n(2) Suc_eq_plus1 append_take_drop_id Cons_nth_drop_Suc takeWhile_eq_take)
    moreover have "xs ! length ?t \<in> set ds" using nth_length_takeWhile [OF n(2)] by simp
    moreover have "set ?t \<inter> set ds = {}" by (auto dest: set_takeWhileD)
    moreover have "take (length ?t) xs = ?t" by (metis takeWhile_eq_take)
    ultimately show ?thesis using False l n cstr_cut [OF assms(1) n(2)] by auto
  qed
qed

theorem strsep_cuts_witness:
  "\<exists>m'. strsep (Some 0) 5 words = Some (Some 0, Some 1, m') \<and> cstr m' 0 [] \<and> cstr m' 1 [98, 97, 99]"
proof -
  have c: "cstr words 0 [97, 98, 97, 99]" "cstr words 5 [97, 99]" by (simp_all add: words_def)
  show ?thesis using strsep_cuts [OF c] by (auto simp: Cons_eq_append_conv)
qed

end
