(* ===== verification/Libc_Time.thy ===== *)
theory Libc_Time
  imports Prelude "HOL-Library.Signed_Division"
begin

text \<open>
  \<^verbatim>\<open>gmtime_r\<close> and \<^verbatim>\<open>mktime\<close> of \<^verbatim>\<open>lib/libc/time\<close>: seconds since 1970 to a date and back, through
  the Julian day number. The numbers stay far below the range of \<^verbatim>\<open>int\<close> except for the last
  line of \<^verbatim>\<open>mktime\<close>, which is computed in \<^verbatim>\<open>int\<close> and has no result in the model if it overflows.
  \<^verbatim>\<open>/\<close> of the code is \<open>sdiv\<close>, which rounds towards zero.
\<close>

section \<open>The code\<close>

record tm =
  tm_sec :: int
  tm_min :: int
  tm_hour :: int
  tm_mday :: int
  tm_mon :: int
  tm_year :: int
  tm_wday :: int
  tm_yday :: int
  tm_isdst :: int
  tm_zone :: nat

definition JDN_EPOCH_START :: int where "JDN_EPOCH_START = 2440588"
definition SEC_IN_DAY :: int where "SEC_IN_DAY = 60 * 60 * 24"

definition in_int :: "int \<Rightarrow> bool" where
  "in_int x \<longleftrightarrow> - (2 ^ 31) \<le> x \<and> x < 2 ^ 31"

definition jdn2gregorian :: "int \<Rightarrow> int \<times> int \<times> int" where
  "jdn2gregorian jdn =
     (let l = jdn + 68569;
          n = (4 * l) sdiv 146097;
          l = l - (146097 * n + 3) sdiv 4;
          i = (4000 * (l + 1)) sdiv 1461001;
          l = l - (1461 * i) sdiv 4 + 31;
          j = (80 * l) sdiv 2447;
          d = l - (2447 * j) sdiv 80;
          l = j sdiv 11;
          m = j + 2 - 12 * l;
          y = 100 * (n - 49) + i + l
      in (y, m, d))"

definition gmtime_r :: "int \<Rightarrow> tm \<Rightarrow> tm" where
  "gmtime_r t result =
     (let jdn = t sdiv SEC_IN_DAY + JDN_EPOCH_START;
          (year, mon, mday) = jdn2gregorian jdn
      in result\<lparr>tm_year := year - 1900, tm_mon := mon - 1, tm_mday := mday,
           tm_hour := (t sdiv (60 * 60)) smod 24, tm_min := (t sdiv 60) smod 60, tm_sec := t smod 60\<rparr>)"

definition gregorian2jdn :: "int \<Rightarrow> int \<Rightarrow> int \<Rightarrow> int" where
  "gregorian2jdn y m d =
     (1461 * (y + 4800 + (m - 14) sdiv 12)) sdiv 4 +
     (367 * (m - 2 - 12 * ((m - 14) sdiv 12))) sdiv 12 -
     (3 * ((y + 4900 + (m sdiv 14) sdiv 12) sdiv 100)) sdiv 4 + d - 32075"

definition mktime :: "tm \<Rightarrow> int option" where
  "mktime tm =
     (let jdn = gregorian2jdn (tm_year tm + 1900) (tm_mon tm + 1) (tm_mday tm) - JDN_EPOCH_START;
          hour = jdn * 24 + tm_hour tm;
          mins = hour * 60 + tm_min tm;
          t = mins * 60 + tm_sec tm
      in if list_all in_int [jdn * 24, hour, hour * 60, mins, mins * 60, t] then Some t else None)"

section \<open>Dates\<close>

lemma sdiv_pos: "0 \<le> a \<Longrightarrow> 0 < b \<Longrightarrow> a sdiv b = a div b" "0 \<le> a \<Longrightarrow> 0 < b \<Longrightarrow> a smod b = a mod b" for a b :: int
  by (auto simp: signed_divide_int_def signed_modulo_int_def sgn_if)

lemma div_bounds: "k * (a div k) \<le> a" "a < k * (a div k) + k" if "0 < k" for a k :: int
  using that pos_mod_sign [of k a] pos_mod_bound [of k a] mult_div_mod_eq [of k a] by linarith+

lemma mod_4_cases:
  fixes n :: int
  obtains q e where "n = 4 * q + e" "e = 0 \<or> e = 1 \<or> e = 2 \<or> e = 3"
proof
  show "n = 4 * (n div 4) + n mod 4" by simp
  show "n mod 4 = 0 \<or> n mod 4 = 1 \<or> n mod 4 = 2 \<or> n mod 4 = 3" by presburger
qed

text \<open>The year within a century that begins in March, and the day of the year.\<close>

lemma year_of_century:
  fixes l i :: int
  assumes "0 \<le> l" "l \<le> 36524" "i = 4000 * (l + 1) div 1461001"
  shows "0 \<le> i" "i \<le> 99" "0 \<le> l - 1461 * i div 4" "l - 1461 * i div 4 \<le> 365"
proof -
  have i: "1461001 * i \<le> 4000 * (l + 1)" "4000 * (l + 1) < 1461001 * i + 1461001"
    unfolding assms(3) by (rule div_bounds, simp)+
  show i99: "0 \<le> i" "i \<le> 99" using i assms(1,2) by auto
  obtain q e where qe: "i = 4 * q + e" "e = 0 \<or> e = 1 \<or> e = 2 \<or> e = 3" by (rule mod_4_cases)
  have "1461 * i div 4 = 1461 * q + 1461 * e div 4" unfolding qe(1) by (simp add: algebra_simps)
  moreover have "1461 * q \<le> l" if "e = 0"
  proof (cases "q = 0")
    case False
    then have "0 < q" using i99(1) qe(1) that by auto
    moreover have "4000 * (l + 1) \<le> 4000 * (1461 * q)" if "\<not> 1461 * q \<le> l" using that by simp
    ultimately show ?thesis using i(1) qe(1) that by fastforce
  qed (use assms(1) in simp)
  ultimately show "0 \<le> l - 1461 * i div 4" "l - 1461 * i div 4 \<le> 365"
    using qe i i99 by auto
qed

lemma century:
  fixes l n :: int
  assumes "0 \<le> l" "n = 4 * l div 146097"
  shows "0 \<le> n" "0 \<le> l - (146097 * n + 3) div 4" "l - (146097 * n + 3) div 4 \<le> 36524"
proof -
  have n: "146097 * n \<le> 4 * l" "4 * l < 146097 * n + 146097"
    unfolding assms(2) by (rule div_bounds, simp)+
  show "0 \<le> n" using n assms(1) by linarith
  show "0 \<le> l - (146097 * n + 3) div 4" "l - (146097 * n + 3) div 4 \<le> 36524"
    using n div_bounds [of 4 "146097 * n + 3"] by simp_all
qed

lemma month_of_year:
  fixes l j :: int
  assumes "31 \<le> l" "l \<le> 396" "j = 80 * l div 2447"
  shows "1 \<le> j" "j \<le> 12" "1 \<le> l - 2447 * j div 80" "l - 2447 * j div 80 \<le> 31" "367 * j div 12 = 2447 * j div 80"
proof -
  have j: "2447 * j \<le> 80 * l" "80 * l < 2447 * j + 2447" unfolding assms(3) by (rule div_bounds, simp)+
  show j12: "1 \<le> j" "j \<le> 12" using j assms(1,2) by linarith+
  then have "j = 1 \<or> j = 2 \<or> j = 3 \<or> j = 4 \<or> j = 5 \<or> j = 6 \<or> j = 7 \<or> j = 8 \<or> j = 9 \<or> j = 10 \<or> j = 11 \<or> j = 12"
    by presburger
  then show "1 \<le> l - 2447 * j div 80" "l - 2447 * j div 80 \<le> 31" "367 * j div 12 = 2447 * j div 80"
    using j assms(1,2) by auto
qed

text \<open>The result of \<^verbatim>\<open>jdn2gregorian\<close>, in terms of the century \<open>n\<close>, the year \<open>i\<close> of the century and the
  month \<open>j\<close>, both counted from March.\<close>

lemma jdn2gregorian_eq:
  assumes "0 \<le> jdn"
  obtains n i j d :: int where "jdn2gregorian jdn = (100 * (n - 49) + i + j div 11, j + 2 - 12 * (j div 11), d)"
    "0 \<le> n" "0 \<le> i" "i \<le> 99" "1 \<le> j" "j \<le> 12" "1 \<le> d" "d \<le> 31"
    "jdn + 68569 + 31 = (146097 * n + 3) div 4 + 1461 * i div 4 + 367 * j div 12 + d"
proof -
  define l0 where "l0 = jdn + 68569"
  define n where "n = 4 * l0 div 146097"
  define l1 where "l1 = l0 - (146097 * n + 3) div 4"
  define i where "i = 4000 * (l1 + 1) div 1461001"
  define l2 where "l2 = l1 - 1461 * i div 4 + 31"
  define j where "j = 80 * l2 div 2447"
  define d where "d = l2 - 2447 * j div 80"
  have l0: "0 \<le> l0" using assms by (simp add: l0_def)
  note c = century [OF l0 n_def, folded l1_def]
  note y = year_of_century [OF c(2,3) i_def]
  have l2: "31 \<le> l2" "l2 \<le> 396" using y(3,4) by (simp_all add: l2_def)
  note m = month_of_year [OF l2 j_def]
  have g: "jdn2gregorian jdn = (100 * (n - 49) + i + j div 11, j + 2 - 12 * (j div 11), d)"
  proof -
    have e: "(4 * l0) sdiv 146097 = n" "(146097 * n + 3) sdiv 4 = (146097 * n + 3) div 4" "(4000 * (l1 + 1)) sdiv 1461001 = i"
      "(1461 * i) sdiv 4 = 1461 * i div 4" "(80 * l2) sdiv 2447 = j" "(2447 * j) sdiv 80 = 2447 * j div 80" "j sdiv 11 = j div 11"
      using l0 c(1,2) y(1) l2(1) m(1) by (simp_all add: sdiv_pos n_def [symmetric] i_def j_def)
    show ?thesis
      unfolding jdn2gregorian_def Let_def l0_def [symmetric] e l1_def [symmetric]
      unfolding e l2_def [symmetric] unfolding e d_def [symmetric] ..
  qed
  have s: "jdn + 68569 + 31 = (146097 * n + 3) div 4 + 1461 * i div 4 + 367 * j div 12 + d"
    using m(5) by (simp add: d_def l2_def l1_def l0_def)
  show thesis by (rule that [OF g c(1) y(1,2) m(1,2) m(3,4) [folded d_def] s])
qed

text \<open>The way back is exact, except in January and February of the first year of a century: there the
  code has \<^verbatim>\<open>(m / 14) / 12\<close> where the formula has \<^verbatim>\<open>(m - 14) / 12\<close>, and counts the leap day
  that the century does not have.\<close>

lemma gregorian2jdn_eq:
  fixes n i j d :: int
  assumes "1 \<le> n" "0 \<le> i" "i \<le> 99" "1 \<le> j" "j \<le> 12"
  shows "gregorian2jdn (100 * (n - 49) + i + j div 11) (j + 2 - 12 * (j div 11)) d + 68569 + 31 =
    (146097 * n + 3) div 4 + 1461 * i div 4 + 367 * j div 12 + d
    + (3 * n) div 4 - (3 * (n + (i + j div 11) div 100)) div 4"
proof -
  let ?m = "j + 2 - 12 * (j div 11)"
  have jj: "j \<le> 10 \<and> j div 11 = 0 \<or> 11 \<le> j \<and> j div 11 = 1" using assms(4,5) by auto
  then have a: "(?m - 14) sdiv 12 = - (j div 11)" "?m sdiv 14 sdiv 12 = 0" using assms(4,5) by (auto simp: signed_divide_int_def sgn_if)
  have "1461 * (100 * (n - 1) + i) = 1461 * i + 36525 * (n - 1) * 4" by simp
  then have f1: "1461 * (100 * (n - 1) + i) div 4 = 36525 * (n - 1) + 1461 * i div 4" by (simp only: div_mult_self1)
  have f2: "(100 * n + i + j div 11) div 100 = n + (i + j div 11) div 100"
    using div_mult_self2 [of 100 "i + j div 11" n] by (simp add: add.assoc)
  have f3: "36525 * (n - 1) = (146097 * n + 3) div 4 + 3 * n div 4 - 36525"
  proof -
    obtain q e where "n = 4 * q + e" "e = 0 \<or> e = 1 \<or> e = 2 \<or> e = 3" by (rule mod_4_cases)
    then show ?thesis by auto
  qed
  have s: "100 * (n - 49) + i + j div 11 + 4800 + - (j div 11) = 100 * (n - 1) + i" "?m - 2 - 12 * - (j div 11) = j"
    "100 * (n - 49) + i + j div 11 + 4900 + 0 = 100 * n + i + j div 11" by simp_all
  have "0 \<le> j div 11" using assms(4) by auto
  then have "0 \<le> 1461 * (100 * (n - 1) + i)" "0 \<le> 367 * j" "0 \<le> 100 * n + i + j div 11" "0 \<le> 3 * ((100 * n + i + j div 11) div 100)"
    using assms by (simp_all add: pos_imp_zdiv_nonneg_iff)
  then have g: "gregorian2jdn (100 * (n - 49) + i + j div 11) ?m d = 1461 * (100 * (n - 1) + i) div 4 + 367 * j div 12
      - 3 * ((100 * n + i + j div 11) div 100) div 4 + d - 32075"
    unfolding gregorian2jdn_def a s by (simp only: sdiv_pos zero_less_numeral)
  show ?thesis unfolding g f1 f2 f3 by simp
qed

lemma gregorian2jdn_century:
  "jdn2gregorian 2488070 = (2100, 1, 1)" "gregorian2jdn 2100 1 1 = 2488069"
  by code_simp+

lemma gregorian2jdn_inverse:
  assumes "2440588 \<le> jdn" "jdn \<le> 2465443" "jdn2gregorian jdn = (y, m, d)"
  shows "gregorian2jdn y m d = jdn" "1 \<le> m" "m \<le> 12" "1 \<le> d" "d \<le> 31"
proof -
  from assms(1) have "0 \<le> jdn" by simp
  then obtain n i j d' where g: "jdn2gregorian jdn = (100 * (n - 49) + i + j div 11, j + 2 - 12 * (j div 11), d')"
    and b: "0 \<le> n" "0 \<le> i" "i \<le> 99" "1 \<le> j" "j \<le> 12" "1 \<le> d'" "d' \<le> 31"
    and e: "jdn + 68569 + 31 = (146097 * n + 3) div 4 + 1461 * i div 4 + 367 * j div 12 + d'"
    by (rule jdn2gregorian_eq)
  have eqs: "y = 100 * (n - 49) + i + j div 11" "m = j + 2 - 12 * (j div 11)" "d = d'" using g assms(3) by simp_all
  have "0 \<le> 1461 * i div 4" "1461 * i div 4 \<le> 36159" "0 \<le> 367 * j div 12" "367 * j div 12 \<le> 367" using b by auto
  with e b assms(1,2) have "67 < n" "n < 70" by auto
  then have "n = 68 \<or> n = 69" by auto
  moreover have "i < 99" if "n = 69" using e that assms(2) b by auto
  moreover have "j div 11 = 0 \<or> j div 11 = 1" using b by auto
  moreover have n: "1 \<le> n" using \<open>67 < n\<close> by simp
  moreover have "(i + j div 11) div 100 = 0 \<or> i = 99 \<and> (i + j div 11) div 100 = 1" using b calculation(3) by auto
  ultimately have "(3 * n) div 4 = (3 * (n + (i + j div 11) div 100)) div 4" using b by auto
  then have "gregorian2jdn y m d + 68569 + 31 = jdn + 68569 + 31"
    unfolding eqs gregorian2jdn_eq [OF n b(2-5)] e by (simp only: add_diff_cancel_right')
  then show "gregorian2jdn y m d = jdn" by (simp only: add_right_cancel)
  show "1 \<le> m" "m \<le> 12" "1 \<le> d" "d \<le> 31" using b by (auto simp: eqs)
qed

section \<open>Properties\<close>

text \<open>C27. \<^verbatim>\<open>mktime\<close> undoes \<^verbatim>\<open>gmtime_r\<close>: for every time that fits in 31 bits, \<^verbatim>\<open>gmtime_r\<close> fills in
  a month, day, hour, minute and second in the ranges \<^verbatim>\<open>time.h\<close> documents, and \<^verbatim>\<open>mktime\<close> of the
  date it filled in is defined and gives the time back.\<close>

theorem mktime_gmtime_r:
  assumes "0 \<le> t" "t < 2 ^ 31"
  shows "mktime (gmtime_r t result) = Some t \<and>
    tm_mon (gmtime_r t result) \<in> {0..11} \<and> tm_mday (gmtime_r t result) \<in> {1..31} \<and>
    tm_hour (gmtime_r t result) \<in> {0..23} \<and> tm_min (gmtime_r t result) \<in> {0..59} \<and>
    tm_sec (gmtime_r t result) \<in> {0..59}"
proof -
  define days hours mins where "days = t div 86400" and "hours = t div 3600" and "mins = t div 60"
  define h m s where "h = hours mod 24" and "m = mins mod 60" and "s = t mod 60"
  have "hours div 24 = days" "mins div 60 = hours" by (simp_all add: days_def hours_def mins_def zdiv_zmult2_eq [symmetric])
  then have e: "days * 24 + h = hours" "hours * 60 + m = mins" "mins * 60 + s = t"
    using div_mult_mod_eq [of hours 24] div_mult_mod_eq [of mins 60] div_mult_mod_eq [of t 60]
    by (simp_all add: h_def m_def s_def mins_def)
  have r: "0 \<le> h" "h \<le> 23" "0 \<le> m" "m \<le> 59" "0 \<le> s" "s \<le> 59" by (simp_all add: h_def m_def s_def)
  have le: "0 \<le> days" "days \<le> 24855" "0 \<le> hours" "0 \<le> mins"
    using assms by (auto simp: days_def hours_def mins_def)
  obtain y mon d where g: "jdn2gregorian (days + 2440588) = (y, mon, d)" by (cases "jdn2gregorian (days + 2440588)") auto
  have "2440588 \<le> days + 2440588" "days + 2440588 \<le> 2465443" using le by simp_all
  note inv = gregorian2jdn_inverse [OF this g]
  have tm: "gmtime_r t result = result\<lparr>tm_year := y - 1900, tm_mon := mon - 1, tm_mday := d,
      tm_hour := h, tm_min := m, tm_sec := s\<rparr>"
    using assms(1) le(3,4) g unfolding h_def m_def s_def
    by (simp add: gmtime_r_def SEC_IN_DAY_def JDN_EPOCH_START_def sdiv_pos days_def [symmetric] hours_def [symmetric] mins_def [symmetric])
  have "list_all in_int [days * 24, hours, hours * 60, mins, mins * 60, t]"
    using assms e r le by (simp add: in_int_def)
  then have "mktime (gmtime_r t result) = Some t"
    unfolding tm mktime_def Let_def by (simp add: inv(1) JDN_EPOCH_START_def e)
  then show ?thesis using inv(2-5) r by (simp add: tm)
qed

theorem mktime_gmtime_r_witness:
  "mktime (gmtime_r 951782399 (tm.make 0 0 0 0 0 0 0 0 0 0)) = Some 951782399 \<and>
   (let tm = gmtime_r 951782399 (tm.make 0 0 0 0 0 0 0 0 0 0)
    in (tm_year tm, tm_mon tm, tm_mday tm, tm_hour tm, tm_min tm, tm_sec tm) = (100, 1, 28, 23, 59, 59))"
proof (rule conjI)
  show "mktime (gmtime_r 951782399 (tm.make 0 0 0 0 0 0 0 0 0 0)) = Some 951782399"
    by (rule mktime_gmtime_r [THEN conjunct1]) simp_all
qed code_simp

end
