(* ===== verification/Libc_Bsearch.thy ===== *)
theory Libc_Bsearch
  imports Prelude
begin

text \<open>
  \<^verbatim>\<open>bsearch\<close> of \<^verbatim>\<open>lib/libc/stdlib\<close>. The comparison is an argument of the code; here it is a function of
  the key and of the address of an element. The address 0 is \<^verbatim>\<open>NULL\<close>.
\<close>

section \<open>The code\<close>

fun bsearch_loop :: "(nat \<Rightarrow> nat \<Rightarrow> int) \<Rightarrow> nat \<Rightarrow> nat \<Rightarrow> nat \<Rightarrow> nat \<Rightarrow> nat" where
  "bsearch_loop compar key width base lim =
     (if lim = 0 then 0
      else
        (let p = base + lim div 2 * width;
             cmp = compar key p
         in if cmp = 0 then p
            else if cmp > 0 then bsearch_loop compar key width (p + width) ((lim - 1) div 2)
            else bsearch_loop compar key width base (lim div 2)))"

declare bsearch_loop.simps [simp del]

definition bsearch :: "nat \<Rightarrow> nat \<Rightarrow> nat \<Rightarrow> nat \<Rightarrow> (nat \<Rightarrow> nat \<Rightarrow> int) \<Rightarrow> nat" where
  "bsearch key base0 nmemb width compar = bsearch_loop compar key width base0 nmemb"

section \<open>Sorted arrays\<close>

text \<open>The array is sorted with respect to the key: an element after one that is greater than the key is
  greater, and an element before one that is less than the key is less.\<close>

definition array_sorted :: "(nat \<Rightarrow> nat \<Rightarrow> int) \<Rightarrow> nat \<Rightarrow> nat \<Rightarrow> nat \<Rightarrow> nat \<Rightarrow> bool" where
  "array_sorted compar key width base n \<longleftrightarrow>
     (\<forall>j < n. \<forall>i < j. (compar key (base + i * width) < 0 \<longrightarrow> compar key (base + j * width) < 0) \<and>
                     (compar key (base + j * width) > 0 \<longrightarrow> compar key (base + i * width) > 0))"

text \<open>The element at the address is one of the array and equal to the key.\<close>

definition is_match :: "(nat \<Rightarrow> nat \<Rightarrow> int) \<Rightarrow> nat \<Rightarrow> nat \<Rightarrow> nat \<Rightarrow> nat \<Rightarrow> nat \<Rightarrow> bool" where
  "is_match compar key width base n p \<longleftrightarrow> (\<exists>k < n. p = base + k * width \<and> compar key p = 0)"

lemma array_sortedD:
  assumes "array_sorted compar key width base n" "i < j" "j < n"
  shows "compar key (base + i * width) < 0 \<Longrightarrow> compar key (base + j * width) < 0"
    "compar key (base + j * width) > 0 \<Longrightarrow> compar key (base + i * width) > 0"
  using assms unfolding array_sorted_def by blast+

lemma array_sorted_left: "array_sorted compar key width base n \<Longrightarrow> m \<le> n \<Longrightarrow> array_sorted compar key width base m"
  unfolding array_sorted_def by (meson order_less_le_trans)

lemma array_sorted_right:
  assumes "array_sorted compar key width base n" "m + k \<le> n"
  shows "array_sorted compar key width (base + k * width) m"
proof -
  have "base + k * width + i * width = base + (k + i) * width" for i by (simp add: algebra_simps)
  moreover have "k + j < n" "k + i < k + j" if "j < m" "i < j" for i j using that assms(2) by simp_all
  ultimately show ?thesis using assms(1) unfolding array_sorted_def by metis
qed

lemma is_match_left:
  assumes "array_sorted compar key width base n" "m < n" "compar key (base + m * width) < 0"
  shows "is_match compar key width base n p \<longleftrightarrow> is_match compar key width base m p"
proof -
  have "k < m" if "k < n" "compar key (base + k * width) = 0" for k
    using array_sortedD(1) [OF assms(1), of m k] assms(3) that by (cases k m rule: linorder_cases) auto
  moreover have "k < n" if "k < m" for k using that assms(2) by simp
  ultimately show ?thesis unfolding is_match_def by blast
qed

lemma is_match_right:
  assumes "array_sorted compar key width base n" "m < n" "compar key (base + m * width) > 0"
  shows "is_match compar key width base n p \<longleftrightarrow> is_match compar key width (base + m * width + width) (n - 1 - m) p"
proof -
  have shift: "base + m * width + width + i * width = base + (m + 1 + i) * width" for i by (simp add: algebra_simps)
  have "m < k" if "k < n" "compar key (base + k * width) = 0" for k
    using array_sortedD(2) [OF assms(1), of k m] assms(2,3) that by (cases k m rule: linorder_cases) auto
  then have "\<exists>i < n - 1 - m. k = m + 1 + i" if "k < n" "compar key (base + k * width) = 0" for k
    using that by (intro exI [of _ "k - (m + 1)"]) fastforce
  moreover have "m + 1 + i < n" if "i < n - 1 - m" for i using that by simp
  ultimately show ?thesis unfolding is_match_def shift by blast
qed

lemma bsearch_loop_finds:
  assumes "array_sorted compar key width base n" "base \<noteq> 0"
  shows "(if bsearch_loop compar key width base n = 0 then \<forall>p. \<not> is_match compar key width base n p
          else is_match compar key width base n (bsearch_loop compar key width base n))"
  using assms
proof (induction compar key width base n rule: bsearch_loop.induct)
  case (1 compar key width base n)
  let ?p = "base + n div 2 * width" and ?l = "bsearch_loop compar key width base n"
  consider "n = 0" | "n \<noteq> 0" "compar key ?p = 0" | "n \<noteq> 0" "compar key ?p > 0" | "n \<noteq> 0" "compar key ?p < 0" by fastforce
  then show ?case
  proof cases
    case 1
    then show ?thesis by (simp add: bsearch_loop.simps is_match_def)
  next
    case 2
    then have "?l = ?p" by (subst bsearch_loop.simps) simp
    moreover have "n div 2 < n" using 2 by simp
    then have "is_match compar key width base n ?p" using 2(2) unfolding is_match_def by blast
    ultimately show ?thesis using "1.prems"(2) by simp
  next
    case 3
    then have e: "?l = bsearch_loop compar key width (?p + width) ((n - 1) div 2)" by (subst bsearch_loop.simps) simp
    have n: "n - 1 - n div 2 = (n - 1) div 2" "n div 2 < n" "(n - 1) div 2 + (n div 2 + 1) \<le> n" using 3 by auto
    have "array_sorted compar key width (?p + width) ((n - 1) div 2)"
      using array_sorted_right [OF "1.prems"(1) n(3)] by (simp add: algebra_simps)
    then show ?thesis
      unfolding e is_match_right [OF "1.prems"(1) n(2) 3(2)] n(1)
      using 3 "1.prems"(2) by (intro "1.IH"(1) [OF _ refl refl]) simp_all
  next
    case 4
    then have e: "?l = bsearch_loop compar key width base (n div 2)" by (subst bsearch_loop.simps) simp
    have n: "n div 2 < n" "n div 2 \<le> n" using 4 by auto
    show ?thesis
      unfolding e is_match_left [OF "1.prems"(1) n(1) 4(2)]
      using 4 "1.prems"(2) array_sorted_left [OF "1.prems"(1) n(2)] by (intro "1.IH"(2) [OF _ refl refl]) simp_all
  qed
qed

section \<open>Properties\<close>

text \<open>C28. On an array that is sorted with respect to the key, \<^verbatim>\<open>bsearch\<close> returns the address of an
  element that is equal to the key, and \<^verbatim>\<open>NULL\<close> exactly when there is none.\<close>

theorem bsearch_finds:
  assumes "array_sorted compar key width base nmemb" "base \<noteq> 0"
  shows "if bsearch key base nmemb width compar = 0 then \<forall>p. \<not> is_match compar key width base nmemb p
         else is_match compar key width base nmemb (bsearch key base nmemb width compar)"
  unfolding bsearch_def by (rule bsearch_loop_finds [OF assms])

theorem bsearch_finds_witness:
  "array_sorted (\<lambda>k p. int k - int p) 116 4 100 7 \<and> bsearch 116 100 7 4 (\<lambda>k p. int k - int p) = 116 \<and>
   is_match (\<lambda>k p. int k - int p) 116 4 100 7 116"
proof -
  have s: "array_sorted (\<lambda>k p. int k - int p) 116 4 100 7" by (simp add: array_sorted_def)
  moreover have "bsearch 116 100 7 4 (\<lambda>k p. int k - int p) = 116" by (simp add: bsearch_def bsearch_loop.simps)
  ultimately show ?thesis using bsearch_finds [OF s] by simp
qed

end
