(* ===== verification/Spec2Isabelle.thy ===== *)
theory Spec2Isabelle
  imports Callout_Properties Kernel_Properties Trap Sync Freelist_Properties Ringbuf Startup Rendezvous Libc_Search Libc_Time Libc_Bsearch
begin

text \<open>
  MDEPX is an operating system for microcontrollers: a kernel with threads, semaphores, timers
  and a memory allocator, the libraries an application links with it, and drivers. This
  development models the machine-independent kernel under \<^verbatim>\<open>src/kernel\<close>, the part of the RISC-V
  port that switches threads, and the C library under \<^verbatim>\<open>src/lib/libc\<close>.

  \<^bold>\<open>How the code is modelled.\<close> A function of the code is a function on an explicit state. \<open>None\<close> as
  a result means that the code does not return: a failed \<^verbatim>\<open>KASSERT\<close>, a panic, a lock that is taken
  twice, or a loop without end. An integer is a word of its width wherever the code may wrap it.
  Pointers into the kernel's own structures are the indices of the records they point to.

  \<^bold>\<open>Prelude.\<close> The word types, \<open>KASSERT\<close>, the results of the code, and the facts on options, words
  and lists that the theories share.

  \<^bold>\<open>Lists and queues.\<close> \<open>Entry_List\<close> models the intrusive doubly linked lists of
  \<^verbatim>\<open>include/sys/list.h\<close> on a heap of links and shows that every operation does to the list of
  entries what its name says. \<open>Queues\<close> lifts this to several lists that share one heap.

  \<^bold>\<open>Kernel state.\<close> \<open>Kernel_State\<close> holds the record of the kernel: threads, semaphores, callouts, the
  run queues, the state of each CPU, and the locks, together with \<^verbatim>\<open>critical_enter\<close> and
  \<^verbatim>\<open>critical_exit\<close> of \<^verbatim>\<open>arch/riscv/riscv/machdep.c\<close>. \<open>Critical\<close> shows that the two commute with
  the updates of other fields, and that a pair of them changes only the saved interrupt enable.

  \<^bold>\<open>Callouts.\<close> \<open>Callout\<close> models \<^verbatim>\<open>kernel/callout\<close>: the queue of timeouts of each CPU, ordered by
  differences of ticks, and the interrupt that fires them. \<open>Callout_Queue\<close>, \<open>Callout_Ops\<close>, \<open>Callout_Intr\<close>,
  \<open>Callout_Time\<close>, \<open>Callout_Struct\<close> and \<open>Callout_Frame\<close> prove the operations against a map from callouts to
  deadlines, and \<open>Callout_Properties\<close> states the results.

  \<^bold>\<open>Threads, scheduler and semaphores.\<close> \<open>Sched\<close> models \<^verbatim>\<open>kernel/sched/mdx_sched.c\<close>, \<open>Thread\<close> the
  files of \<^verbatim>\<open>kernel/thread\<close> with \<^verbatim>\<open>mdx_sem.c\<close>, \<^verbatim>\<open>mdx_tsleep.c\<close> and the timers, \<open>Trap\<close> the exception
  handler \<^verbatim>\<open>arch/riscv/riscv/trap.c\<close> with the timer and software interrupts, and \<open>Sync\<close> mutexes,
  FIFOs and the variants of \<^verbatim>\<open>kernel/nosched\<close>. \<open>Sched_Queue\<close> shows what the scheduler does to its queues. A call that blocks is two functions: the part up
  to the instruction that traps, and the part after it. \<open>Kernel_Inv\<close> has the invariant of the kernel,
  \<open>Kernel_Quiet\<close>, \<open>Kernel_Intr\<close>, \<open>Kernel_Sem\<close> and \<open>Kernel_Trap\<close> show that interrupts, system calls and
  thread switches keep it, \<open>Kernel_Steps\<close> makes them a transition system, and \<open>Kernel_Properties\<close> states
  what holds in every reachable state.

  \<^bold>\<open>CPUs.\<close> \<open>Rendezvous\<close> models \<^verbatim>\<open>smp_rendezvous_cpus\<close> of \<^verbatim>\<open>kernel/sched/mdx_smp.c\<close> as a step relation
  of CPUs that interleave at each access to a shared variable, on a sequentially consistent memory, and
  shows that it is a barrier, that each CPU calls the function once, and that the CPUs can always
  go on until all have returned.

  \<^bold>\<open>Other parts of the kernel.\<close> \<open>Freelist\<close> models the allocator of \<^verbatim>\<open>kernel/malloc\<close>.
  \<open>Freelist_List\<close> shows its free lists to be linked lists by size, \<open>Freelist_Blocks\<close> has the layout of a
  region as a sequence of blocks, \<open>Freelist_Ops\<close> shows that splitting, merging and the calls of the
  allocator keep both, and \<open>Freelist_Properties\<close> states what a client sees. \<open>Ringbuf\<close> models the
  ring buffers of \<^verbatim>\<open>kernel/systm/mdx_ringbuf.c\<close> as a queue between two parties, \<open>Startup\<close> the
  ordered start of subsystems in \<^verbatim>\<open>kernel/init/mdx_startup.c\<close>.

  \<^bold>\<open>C library.\<close> \<open>Libc_Memory\<close>, \<open>Libc_Strlen\<close>, \<open>Libc_String\<close>, \<open>Libc_Search\<close> and \<open>Libc_Bits\<close> model
  \<^verbatim>\<open>lib/libc/string\<close> on a memory of bytes and show that the word-at-a-time routines do what a loop
  over the bytes would do, whatever the alignment and the overlap. \<open>Libc_Time\<close> models \<^verbatim>\<open>gmtime_r\<close> and
  \<^verbatim>\<open>mktime\<close> of \<^verbatim>\<open>lib/libc/time\<close> and shows that \<^verbatim>\<open>mktime\<close> undoes \<^verbatim>\<open>gmtime_r\<close>, for the times
  for which the code computes without overflow. \<open>Libc_Bsearch\<close> models \<^verbatim>\<open>bsearch\<close> of \<^verbatim>\<open>lib/libc/stdlib\<close>.

  \<^bold>\<open>Interfaces.\<close> The locales state what one part relies on in another: \<open>entry_list\<close> what a client may
  expect of an intrusive list, \<open>isr_contract\<close> what an interrupt routine must keep, \<open>quiet_dispatch\<close> what a
  callout function may change, \<open>channel\<close> what a bounded queue promises. Each is interpreted with the
  definitions of the code.

  \<^bold>\<open>Bounds.\<close> Loops over a data structure are partial functions or have a termination proof, and the
  theorems show that they return. The kernel invariant is stated for one CPU, for threads that are
  not freed on termination, and for the moments at which no critical section is open. The steps of the
  kernel are those that \<open>kop_ok\<close> of \<open>Kernel_Steps\<close> lists; a thread that yields while its quantum is queued is
  not among them, and \<open>Kernel_Properties\<close> shows why. The count of a semaphore is an \<^verbatim>\<open>int\<close> that wraps around;
  nothing bounds the number of posts.

  \<^bold>\<open>Not modelled.\<close> Assembly and the jump into a thread; the interrupt controller CLIC; a second timer device; saving and restoring of floating point
  registers; the ARM and MIPS ports; printing, which includes \<^verbatim>\<open>strftime\<close>. The network stack with its
  packet buffers, the device tree, the table of devices and the real-time clock work on what a
  driver provides, and the parts modelled do not call them. \<^verbatim>\<open>strtol\<close> and its variants, \<^verbatim>\<open>qsort\<close>,
  \<^verbatim>\<open>inet_addr\<close> and the 64-bit division of \<^verbatim>\<open>lib/libc\<close> are left out. The drivers and the board support only read and write
  device registers, whose behaviour no source describes. The applications and the imported
  libraries (lvgl, mbedtls, tinyusb, softfloat, msun, FatFs, littlefs, and others under
  \<^verbatim>\<open>src/lib\<close>) are separate programs that the kernel does not call. The generated headers of device
  registers have no behaviour.
\<close>

end
